(* ===== verification/Prelude.thy ===== *)
theory Prelude
imports
  Main
  "HOL-Library.AList"
  "HOL-Library.Sublist"
  "HOL-Library.Char_ord"
  "HOL-Library.List_Lexorder"
  "HOL-Library.Word"
begin

text \<open>
  Shared vocabulary of the development.  A Go map is an association list with distinct keys
  (\<open>gomap\<close>): iteration order is never observed by the code, every exported listing is sorted
  first.  Go strings and byte slices are char lists (a HOL char is one byte) ordered
  bytewise by the instances of List_Lexorder and Char_ord.  The collection \<open>go_simps\<close> gathers
  the characterisations that carry the component proofs.
\<close>

named_theorems go_simps \<open>characterisations of the modelled Go operations\<close>

section \<open>Go maps\<close>

type_synonym ('k, 'v) gomap = "('k \<times> 'v) list"

abbreviation mget :: "('k, 'v) gomap \<Rightarrow> 'k \<Rightarrow> 'v option" where
  "mget m k \<equiv> map_of m k"

abbreviation mput :: "'k \<Rightarrow> 'v \<Rightarrow> ('k, 'v) gomap \<Rightarrow> ('k, 'v) gomap" where
  "mput k v m \<equiv> AList.update k v m"

abbreviation mdel :: "'k \<Rightarrow> ('k, 'v) gomap \<Rightarrow> ('k, 'v) gomap" where
  "mdel k m \<equiv> AList.delete k m"

abbreviation mkeys :: "('k, 'v) gomap \<Rightarrow> 'k list" where
  "mkeys m \<equiv> map fst m"

abbreviation mwf :: "('k, 'v) gomap \<Rightarrow> bool" where
  "mwf m \<equiv> distinct (map fst m)"

definition mhas :: "('k, 'v) gomap \<Rightarrow> 'k \<Rightarrow> bool" where
  "mhas m k = (map_of m k \<noteq> None)"

definition mdel_if :: "('k \<Rightarrow> bool) \<Rightarrow> ('k, 'v) gomap \<Rightarrow> ('k, 'v) gomap" where
  "mdel_if P m = filter (\<lambda>kv. \<not> P (fst kv)) m"

declare map_of_eq_Some_iff [simp del]

lemma mget_mput [simp]: "map_of (AList.update k v m) k' = (if k' = k then Some v else map_of m k')"
  by (simp add: AList.update_conv')

lemma mget_mdel [simp]: "map_of (AList.delete k m) k' = (if k' = k then None else map_of m k')"
  by (simp add: AList.delete_conv')

lemma mget_mdel_if [simp]: "map_of (mdel_if P m) k = (if P k then None else map_of m k)"
  by (induction m) (auto simp: mdel_if_def)

lemma mwf_mput [simp, intro]: "mwf m \<Longrightarrow> mwf (AList.update k v m)"
  by (rule AList.distinct_update)

lemma mwf_mdel [simp, intro]: "mwf m \<Longrightarrow> mwf (AList.delete k m)"
  by (rule AList.distinct_delete)

lemma mwf_mdel_if [simp, intro]: "mwf m \<Longrightarrow> mwf (mdel_if P m)"
  by (induction m) (auto simp: mdel_if_def)

lemma set_mkeys: "set (mkeys m) = dom (map_of m)"
  by (simp add: dom_map_of_conv_image_fst)

lemma mhas_iff: "mhas m k \<longleftrightarrow> k \<in> set (mkeys m)"
  by (simp add: mhas_def map_of_eq_None_iff)

lemma mget_Some_set: "mwf m \<Longrightarrow> map_of m k = Some v \<longleftrightarrow> (k, v) \<in> set m"
  by (simp add: map_of_eq_Some_iff)

lemma set_mput: "set (mkeys (AList.update k v m)) = insert k (set (mkeys m))"
  by (simp add: AList.dom_update)

lemma set_mdel: "set (mkeys (AList.delete k m)) = set (mkeys m) - {k}"
  by (metis AList.delete_keys removeAll_filter_not_eq set_removeAll)

lemma length_mdel_if: "length (mdel_if P m) + length (filter (\<lambda>kv. P (fst kv)) m) = length m"
  using sum_length_filter_compl [of "\<lambda>kv. P (fst kv)" m] by (simp add: mdel_if_def)

section \<open>Go strings\<close>

text \<open>\<open>strings.Split\<close> with a one-byte separator, and \<open>strings.Join\<close>.\<close>

fun split_on :: "char \<Rightarrow> string \<Rightarrow> string list" where
  "split_on c [] = [[]]"
| "split_on c (x # xs) =
     (if x = c then [] # split_on c xs
      else (case split_on c xs of [] \<Rightarrow> [[x]] | (y # ys) \<Rightarrow> (x # y) # ys))"

fun join :: "string \<Rightarrow> string list \<Rightarrow> string" where
  "join sep [] = []"
| "join sep [x] = x"
| "join sep (x # y # ys) = x @ sep @ join sep (y # ys)"

lemma split_on_not_Nil [simp]: "split_on c s \<noteq> []"
  by (induction s) (auto split: list.splits)

lemma split_on_no_sep: "c \<notin> set s \<Longrightarrow> split_on c s = [s]"
  by (induction s) auto

lemma split_on_append: "c \<notin> set s \<Longrightarrow> split_on c (s @ c # t) = s # split_on c t"
  by (induction s) auto

lemma join_Cons: "ys \<noteq> [] \<Longrightarrow> join sep (x # ys) = x @ sep @ join sep ys"
  by (cases ys) auto

lemma split_on_join:
  "xs \<noteq> [] \<Longrightarrow> (\<And>x. x \<in> set xs \<Longrightarrow> c \<notin> set x) \<Longrightarrow> split_on c (join [c] xs) = xs"
proof (induction xs)
  case (Cons x xs)
  then show ?case
    by (cases "xs = []") (auto simp: split_on_no_sep join_Cons split_on_append)
qed simp

lemma join_split_on [simp]: "join [c] (split_on c s) = s"
proof (induction s)
  case (Cons x xs)
  obtain y ys where "split_on c xs = y # ys"
    by (cases "split_on c xs") auto
  then show ?case using Cons
    by (cases ys) auto
qed simp

lemma split_on_parts: "x \<in> set (split_on c s) \<Longrightarrow> c \<notin> set x"
proof (induction s arbitrary: x)
  case (Cons a s)
  then show ?case by (cases "split_on c s") (auto split: if_splits)
qed simp

text \<open>A delimiter that occurs in neither left part splits an equation between two strings.\<close>

lemma delim_eq_iff:
  "c \<notin> set xs \<Longrightarrow> c \<notin> set ys \<Longrightarrow> xs @ c # as = ys @ c # bs \<longleftrightarrow> xs = ys \<and> as = bs"
proof (induction xs arbitrary: ys)
  case Nil
  then show ?case by (cases ys) auto
next
  case (Cons x xs)
  then show ?case by (cases ys) auto
qed

lemma delim_prefix_iff:
  "c \<notin> set xs \<Longrightarrow> c \<notin> set ys \<Longrightarrow>
    prefix (xs @ c # as) (ys @ c # bs) \<longleftrightarrow> xs = ys \<and> prefix as bs"
  by (auto simp: prefix_def delim_eq_iff)

lemma takeWhile_delim: "c \<notin> set xs \<Longrightarrow> takeWhile (\<lambda>x. x \<noteq> c) (xs @ c # ys) = xs"
  by (induction xs) auto

lemma dropWhile_delim: "c \<notin> set xs \<Longrightarrow> dropWhile (\<lambda>x. x \<noteq> c) (xs @ c # ys) = c # ys"
  by (induction xs) auto

section \<open>Sorted listings of sets\<close>

text \<open>The code lists a map's keys by collecting and sorting them (\<open>slices.Sort\<close>,
  \<open>sort.Strings\<close>); the listing depends on the key set only.\<close>

definition sorted_set :: "'a::linorder list \<Rightarrow> 'a list" where
  "sorted_set xs = sort (remdups xs)"

lemma set_sorted_set [simp]: "set (sorted_set xs) = set xs"
  by (simp add: sorted_set_def)

lemma distinct_sorted_set [simp]: "distinct (sorted_set xs)"
  by (simp add: sorted_set_def)

lemma sorted_sorted_set [simp]: "sorted (sorted_set xs)"
  by (simp add: sorted_set_def)

lemma sorted_set_cong: "set xs = set ys \<Longrightarrow> sorted_set xs = sorted_set ys"
  by (rule sorted_distinct_set_unique) auto

lemma sorted_set_id: "sorted xs \<Longrightarrow> distinct xs \<Longrightarrow> sorted_set xs = xs"
  by (rule sorted_distinct_set_unique) auto

lemma sort_distinct_set: "distinct xs \<Longrightarrow> sort xs = sorted_set xs"
  by (simp add: sorted_set_def distinct_remdups_id)

lemma sorted_set_Nil_iff [simp]: "sorted_set xs = [] \<longleftrightarrow> xs = []"
  by (metis set_empty set_sorted_set)

section \<open>List updates\<close>

lemma nth_list_update_if: "i < length xs \<Longrightarrow> xs[i := x] ! j = (if i = j then x else xs ! j)"
  by (simp add: nth_list_update)

end
