(* ===== verification/Identity.thy ===== *)
theory Identity
imports Prelude
begin

text \<open>
  In-process object identity (\<open>internal/pipeline/identity.go\<close>, \<open>special_kinds.go\<close>): the work
  item key, its rendering as a cache key, the watch scope it belongs to and the prefix by
  which a scope's entries are evicted; and the recognition of Kubernetes Events.
\<close>

record Key =
  kSink :: string
  kGroup :: string
  kKind :: string
  kNamespace :: string
  kName :: string

record ScopeKey =
  sGroup :: string
  sKind :: string
  sNamespace :: string

definition cacheKey :: "Key \<Rightarrow> string" where
  "cacheKey k = kGroup k @ ''|'' @ kKind k @ ''|'' @ kNamespace k @ ''/'' @ kName k"

definition Scope :: "Key \<Rightarrow> ScopeKey" where
  "Scope k = \<lparr>sGroup = kGroup k, sKind = kKind k, sNamespace = kNamespace k\<rparr>"

definition Key_String :: "Key \<Rightarrow> string" where
  "Key_String k = kSink k @ ''/'' @ cacheKey k"

definition scopeKeyPrefix :: "ScopeKey \<Rightarrow> string" where
  "scopeKeyPrefix s =
     (let p = sGroup s @ ''|'' @ sKind s @ ''|'' in
      if sNamespace s = '''' then p else p @ sNamespace s @ ''/'')"

definition eventKind :: string where "eventKind = ''Event''"
definition coreGroup :: string where "coreGroup = ''''"
definition eventsGroup :: string where "eventsGroup = ''events.k8s.io''"

definition ephemeralKind :: "string \<Rightarrow> string \<Rightarrow> bool" where
  "ephemeralKind g k = (if k \<noteq> eventKind then False else g = coreGroup \<or> g = eventsGroup)"

definition key_ephemeral :: "Key \<Rightarrow> bool" where
  "key_ephemeral k = ephemeralKind (kGroup k) (kKind k)"

definition scope_ephemeral :: "ScopeKey \<Rightarrow> bool" where
  "scope_ephemeral s = ephemeralKind (sGroup s) (sKind s)"

section \<open>Delimiters\<close>

text \<open>API groups are DNS subdomains, kinds are identifiers and namespaces DNS labels, so none
  of them holds a delimiter of the cache key.  \<open>wf_key\<close> and \<open>wf_scope\<close> say just that.\<close>

definition wf_key :: "Key \<Rightarrow> bool" where
  "wf_key k \<longleftrightarrow> CHR ''|'' \<notin> set (kGroup k) \<and> CHR ''|'' \<notin> set (kKind k) \<and> CHR ''/'' \<notin> set (kNamespace k)"

definition wf_scope :: "ScopeKey \<Rightarrow> bool" where
  "wf_scope s \<longleftrightarrow> CHR ''|'' \<notin> set (sGroup s) \<and> CHR ''|'' \<notin> set (sKind s) \<and> CHR ''/'' \<notin> set (sNamespace s)"

text \<open>A scope covers a key when kind and group agree and the scope is cluster-wide or names
  the key's namespace: the reading of \<open>sinkState.scopeWarm\<close> and of the watch targets.\<close>

definition scope_covers :: "ScopeKey \<Rightarrow> Key \<Rightarrow> bool" where
  "scope_covers s k \<longleftrightarrow> sGroup s = kGroup k \<and> sKind s = kKind k \<and>
     (sNamespace s = '''' \<or> sNamespace s = kNamespace k)"

lemma cacheKey_eq_iff:
  assumes "wf_key k" "wf_key k'"
  shows "cacheKey k = cacheKey k' \<longleftrightarrow>
    kGroup k = kGroup k' \<and> kKind k = kKind k' \<and> kNamespace k = kNamespace k' \<and> kName k = kName k'"
  using assms by (auto simp: cacheKey_def wf_key_def delim_eq_iff)

lemma prefix_cacheKey_iff:
  assumes "wf_scope s" "wf_key k"
  shows "prefix (scopeKeyPrefix s) (cacheKey k) \<longleftrightarrow> scope_covers s k"
  using assms
  by (auto simp: scopeKeyPrefix_def cacheKey_def wf_key_def wf_scope_def scope_covers_def
      delim_prefix_iff Let_def)

lemma wf_Scope [simp]: "wf_key k \<Longrightarrow> wf_scope (Scope k)"
  by (simp add: wf_key_def wf_scope_def Scope_def)

lemma ephemeral_Scope [simp]: "scope_ephemeral (Scope k) = key_ephemeral k"
  by (simp add: scope_ephemeral_def key_ephemeral_def Scope_def)

end
