(* ===== verification/HashCache.thy ===== *)
theory HashCache
imports Identity
begin

text \<open>
  The per-sink dedup cache (\<open>internal/pipeline/hashcache.go\<close>): entries carry a 64-bit version
  that every claim advances, asynchronous commits are gated by it, deletes are claimed by a
  flag, and diff baselines are stored through a codec.  The codec (zstd) is a parameter.
  The locale \<open>version_gated\<close> is the contract the pipeline's commits rely on; it is
  interpreted on the cache's own operations.
\<close>

section \<open>Data\<close>

type_synonym entryEncoding = "8 word"

definition encodingRaw :: entryEncoding where "encodingRaw = 0"
definition encodingZstd :: entryEncoding where "encodingZstd = 1"

record CacheEntry =
  ceHash :: string
  ceJSON :: "string option"
  ceEncoding :: entryEncoding
  ceUID :: string
  ceAPIVersion :: string
  ceModifiedSinceCheckpoint :: int
  ceVersion :: "64 word"
  cePendingDelete :: bool

definition zeroEntry :: CacheEntry where
  "zeroEntry = \<lparr>ceHash = '''', ceJSON = None, ceEncoding = encodingRaw, ceUID = '''',
     ceAPIVersion = '''', ceModifiedSinceCheckpoint = 0, ceVersion = 0, cePendingDelete = False\<rparr>"

type_synonym hashCache = "(string, CacheEntry) gomap"

datatype deleteClaimOutcome =
    deleteClaimed
  | deleteClaimAbsent
  | deleteClaimInFlight
  | deleteClaimUIDMismatch

fun outcome_String :: "deleteClaimOutcome \<Rightarrow> string" where
  "outcome_String deleteClaimed = ''claimed''"
| "outcome_String deleteClaimAbsent = ''absent''"
| "outcome_String deleteClaimInFlight = ''in-flight''"
| "outcome_String deleteClaimUIDMismatch = ''uid-mismatch''"

section \<open>Operations\<close>

definition Len :: "hashCache \<Rightarrow> nat" where
  "Len c = length c"

definition Load :: "string \<Rightarrow> hashCache \<Rightarrow> CacheEntry option" where
  "Load key c = mget c key"

definition Reserve :: "string \<Rightarrow> CacheEntry \<Rightarrow> hashCache \<Rightarrow> 64 word \<times> hashCache" where
  "Reserve key entry c =
     (let cur = (case mget c key of Some e \<Rightarrow> e | None \<Rightarrow> zeroEntry);
          entry = entry\<lparr>ceVersion := ceVersion cur + 1\<rparr>
      in (ceVersion entry, mput key entry c))"

definition CommitIfCurrent :: "string \<Rightarrow> 64 word \<Rightarrow> CacheEntry \<Rightarrow> hashCache \<Rightarrow> bool \<times> hashCache" where
  "CommitIfCurrent key expectedVersion entry c =
     (case mget c key of
        Some cur \<Rightarrow>
          if ceVersion cur \<noteq> expectedVersion then (False, c)
          else (True, mput key (entry\<lparr>ceVersion := expectedVersion\<rparr>) c)
      | None \<Rightarrow>
          if expectedVersion \<noteq> 0 then (False, c)
          else (True, mput key (entry\<lparr>ceVersion := expectedVersion\<rparr>) c))"

definition DeleteIfCurrent :: "string \<Rightarrow> 64 word \<Rightarrow> hashCache \<Rightarrow> bool \<times> hashCache" where
  "DeleteIfCurrent key expectedVersion c =
     (case mget c key of
        None \<Rightarrow> (False, c)
      | Some cur \<Rightarrow> if ceVersion cur \<noteq> expectedVersion then (False, c) else (True, mdel key c))"

definition ReserveDelete ::
    "string \<Rightarrow> string \<Rightarrow> hashCache \<Rightarrow> (CacheEntry \<times> 64 word \<times> deleteClaimOutcome) \<times> hashCache" where
  "ReserveDelete key expectedUID c =
     (case mget c key of
        None \<Rightarrow> ((zeroEntry, 0, deleteClaimAbsent), c)
      | Some cur \<Rightarrow>
          if cePendingDelete cur then ((zeroEntry, 0, deleteClaimInFlight), c)
          else if expectedUID \<noteq> '''' \<and> ceUID cur \<noteq> expectedUID
            then ((zeroEntry, 0, deleteClaimUIDMismatch), c)
          else (let cur' = cur\<lparr>ceVersion := ceVersion cur + 1, cePendingDelete := True\<rparr>
                in ((cur, ceVersion cur', deleteClaimed), mput key cur' c)))"

definition UnclaimDelete :: "string \<Rightarrow> 64 word \<Rightarrow> hashCache \<Rightarrow> hashCache" where
  "UnclaimDelete key expectedVersion c =
     (case mget c key of
        None \<Rightarrow> c
      | Some cur \<Rightarrow> if ceVersion cur \<noteq> expectedVersion then c
                    else mput key (cur\<lparr>cePendingDelete := False\<rparr>) c)"

definition StoreIfAbsent :: "string \<Rightarrow> CacheEntry \<Rightarrow> hashCache \<Rightarrow> hashCache" where
  "StoreIfAbsent key entry c =
     (if mhas c key then c else mput key (entry\<lparr>ceVersion := 1\<rparr>) c)"

definition DeletePrefix :: "string \<Rightarrow> hashCache \<Rightarrow> nat \<times> hashCache" where
  "DeletePrefix p c = (length (filter (\<lambda>kv. prefix p (fst kv)) c), mdel_if (prefix p) c)"

section \<open>Baseline codec\<close>

definition zstdMagic :: string where
  "zstdMagic = [CHR 0x28, CHR 0xB5, CHR 0x2F, CHR 0xFD]"

datatype baselineError = MissingMagic nat | DecoderUnavailable | DecodeFailed | UnknownEncoding

definition compressBaseline ::
    "(string \<Rightarrow> string) option \<Rightarrow> string \<Rightarrow> string \<times> entryEncoding \<times> bool" where
  "compressBaseline zstdEncoder raw =
     (if raw = [] then (raw, encodingRaw, False)
      else (case zstdEncoder of
              None \<Rightarrow> (raw, encodingRaw, False)
            | Some encodeAll \<Rightarrow> (encodeAll raw, encodingZstd, True)))"

definition decodeBaseline ::
    "(string \<Rightarrow> string option) option \<Rightarrow> CacheEntry \<Rightarrow> baselineError + string option" where
  "decodeBaseline zstdDecoder e =
     (case ceJSON e of
        None \<Rightarrow> Inr None
      | Some json \<Rightarrow>
          if ceEncoding e = encodingRaw then Inr (Some json)
          else if ceEncoding e = encodingZstd then
            (if \<not> prefix zstdMagic json then Inl (MissingMagic (length json))
             else (case zstdDecoder of
                     None \<Rightarrow> Inl DecoderUnavailable
                   | Some decodeAll \<Rightarrow>
                       (case decodeAll json of None \<Rightarrow> Inl DecodeFailed | Some raw \<Rightarrow> Inr (Some raw))))
          else Inl UnknownEncoding)"

text \<open>The documented behaviour of the codec: a frame opens with the magic number (RFC 8878)
  and decoding inverts encoding.\<close>

definition zstd_codec :: "(string \<Rightarrow> string) \<Rightarrow> (string \<Rightarrow> string option) \<Rightarrow> bool" where
  "zstd_codec encodeAll decodeAll \<longleftrightarrow>
     (\<forall>raw. prefix zstdMagic (encodeAll raw) \<and> decodeAll (encodeAll raw) = Some raw)"

section \<open>Sequences of operations\<close>

text \<open>Everything that touches the cache is one of these atomic operations (each holds the
  cache's mutex); a run is any interleaving of them.\<close>

datatype cacheOp =
    DoReserve string CacheEntry
  | DoCommit string "64 word" CacheEntry
  | DoDelete string "64 word"
  | DoReserveDelete string string
  | DoUnclaim string "64 word"
  | DoStore string CacheEntry
  | DoEvict string

fun cache_exec :: "cacheOp \<Rightarrow> hashCache \<Rightarrow> hashCache" where
  "cache_exec (DoReserve k e) c = snd (Reserve k e c)"
| "cache_exec (DoCommit k v e) c = snd (CommitIfCurrent k v e c)"
| "cache_exec (DoDelete k v) c = snd (DeleteIfCurrent k v c)"
| "cache_exec (DoReserveDelete k u) c = snd (ReserveDelete k u c)"
| "cache_exec (DoUnclaim k v) c = UnclaimDelete k v c"
| "cache_exec (DoStore k e) c = StoreIfAbsent k e c"
| "cache_exec (DoEvict p) c = snd (DeletePrefix p c)"

definition cache_version :: "hashCache \<Rightarrow> string \<Rightarrow> 64 word option" where
  "cache_version c k = map_option ceVersion (mget c k)"

text \<open>An operation bumps a key when it claims it: a reservation, or a delete claim that is
  granted.\<close>

fun cache_bumps :: "cacheOp \<Rightarrow> hashCache \<Rightarrow> string \<Rightarrow> bool" where
  "cache_bumps (DoReserve k' e) c k = (k' = k)"
| "cache_bumps (DoReserveDelete k' u) c k =
     (k' = k \<and> snd (snd (fst (ReserveDelete k' u c))) = deleteClaimed)"
| "cache_bumps _ c k = False"

section \<open>Characterisations\<close>

lemmas cache_op_defs =
  Load_def Reserve_def CommitIfCurrent_def DeleteIfCurrent_def ReserveDelete_def
  UnclaimDelete_def StoreIfAbsent_def DeletePrefix_def

lemma cache_exec_wf [intro]: "mwf c \<Longrightarrow> mwf (cache_exec op c)"
  by (cases op) (auto simp: cache_op_defs Let_def split: option.splits)

fun cache_touches :: "cacheOp \<Rightarrow> string \<Rightarrow> bool" where
  "cache_touches (DoReserve k' _) k = (k' = k)"
| "cache_touches (DoCommit k' _ _) k = (k' = k)"
| "cache_touches (DoDelete k' _) k = (k' = k)"
| "cache_touches (DoReserveDelete k' _) k = (k' = k)"
| "cache_touches (DoUnclaim k' _) k = (k' = k)"
| "cache_touches (DoStore k' _) k = (k' = k)"
| "cache_touches (DoEvict p) k = prefix p k"

lemma cache_exec_other: "\<not> cache_touches op k \<Longrightarrow> mget (cache_exec op c) k = mget c k"
  by (cases op) (auto simp: cache_op_defs Let_def split: option.splits)

lemma Reserve_simps [simp]:
  "mget (snd (Reserve k e c)) k' =
     (if k' = k then Some (e\<lparr>ceVersion := fst (Reserve k e c)\<rparr>) else mget c k')"
  by (simp add: Reserve_def Let_def)

lemma cache_version_step:
  assumes "cache_version c k = Some v" "cache_version (cache_exec op c) k = Some v'"
  shows "v' = (if cache_bumps op c k then v + 1 else v)"
  using assms
  by (cases op)
    (auto simp: cache_op_defs cache_version_def mhas_def Let_def split: option.splits if_splits)

section \<open>The version gate as an interface\<close>

fun stays_present :: "('c \<Rightarrow> 'k \<Rightarrow> 'v option) \<Rightarrow> ('op \<Rightarrow> 'c \<Rightarrow> 'c) \<Rightarrow> 'k \<Rightarrow> 'op list \<Rightarrow> 'c \<Rightarrow> bool" where
  "stays_present version exec k [] c = (version c k \<noteq> None)"
| "stays_present version exec k (op # ops) c =
     (version c k \<noteq> None \<and> stays_present version exec k ops (exec op c))"

fun bump_count :: "('op \<Rightarrow> 'c \<Rightarrow> 'c) \<Rightarrow> ('op \<Rightarrow> 'c \<Rightarrow> 'k \<Rightarrow> bool) \<Rightarrow> 'k \<Rightarrow> 'op list \<Rightarrow> 'c \<Rightarrow> nat" where
  "bump_count exec bumps k [] c = 0"
| "bump_count exec bumps k (op # ops) c =
     (if bumps op c k then 1 else 0) + bump_count exec bumps k ops (exec op c)"

text \<open>The law the commits rely on: while a key stays present its version moves only by the
  claims made on it, one step per claim, modulo the width of the version.\<close>

locale version_gated =
  fixes version :: "'c \<Rightarrow> 'k \<Rightarrow> ('v::len) word option"
    and exec :: "'op \<Rightarrow> 'c \<Rightarrow> 'c"
    and bumps :: "'op \<Rightarrow> 'c \<Rightarrow> 'k \<Rightarrow> bool"
  assumes version_step:
    "version c k = Some v \<Longrightarrow> version (exec op c) k = Some v' \<Longrightarrow>
       v' = (if bumps op c k then v + 1 else v)"
begin

lemma version_after:
  assumes "version c k = Some v" "stays_present version exec k ops c"
  shows "version (fold exec ops c) k = Some (v + of_nat (bump_count exec bumps k ops c))"
  using assms
proof (induction ops arbitrary: c v)
  case (Cons op ops)
  from Cons.prems(2) obtain v' where v': "version (exec op c) k = Some v'"
    by (cases ops) auto
  have "v' = (if bumps op c k then v + 1 else v)"
    using version_step Cons.prems(1) v' by blast
  with Cons.IH [OF v'] Cons.prems(2) show ?case by auto
qed simp

lemma version_moved_iff:
  assumes "version c k = Some v" "stays_present version exec k ops c"
    and "bump_count exec bumps k ops c < 2 ^ LENGTH('v)"
  shows "version (fold exec ops c) k = Some v \<longleftrightarrow> bump_count exec bumps k ops c = 0"
proof -
  have "of_nat (bump_count exec bumps k ops c) = (0 :: 'v word) \<longleftrightarrow> bump_count exec bumps k ops c = 0"
    using assms(3) by (simp add: word_of_nat_eq_0_iff) (metis dvd_0_right nat_dvd_not_less neq0_conv)
  then show ?thesis
    using version_after [OF assms(1,2)] by simp
qed

end

interpretation hc: version_gated cache_version cache_exec cache_bumps
  by unfold_locales (rule cache_version_step)

abbreviation hc_present :: "string \<Rightarrow> cacheOp list \<Rightarrow> hashCache \<Rightarrow> bool" where
  "hc_present \<equiv> stays_present cache_version cache_exec"

abbreviation hc_bumps :: "string \<Rightarrow> cacheOp list \<Rightarrow> hashCache \<Rightarrow> nat" where
  "hc_bumps \<equiv> bump_count cache_exec cache_bumps"

lemma hc_present_last: "hc_present k ops c \<Longrightarrow> mget (fold cache_exec ops c) k \<noteq> None"
  by (induction ops arbitrary: c) (auto simp: cache_version_def)

lemma Commit_iff_version:
  assumes "mget c k \<noteq> None"
  shows "fst (CommitIfCurrent k v e c) \<longleftrightarrow> cache_version c k = Some v"
  using assms by (auto simp: CommitIfCurrent_def cache_version_def split: option.splits)

lemma Commit_refused: "\<not> fst (CommitIfCurrent k v e c) \<Longrightarrow> snd (CommitIfCurrent k v e c) = c"
  by (auto simp: CommitIfCurrent_def split: option.splits)

lemma stale_settle_noop:
  assumes "cache_version c k \<noteq> Some v" "mget c k \<noteq> None"
  shows "CommitIfCurrent k v e c = (False, c)" "DeleteIfCurrent k v c = (False, c)"
    "UnclaimDelete k v c = c"
  using assms
  by (auto simp: CommitIfCurrent_def DeleteIfCurrent_def UnclaimDelete_def cache_version_def
      split: option.splits)

text \<open>Until it is released, a granted delete claim freezes its entry: it can only disappear.\<close>

fun claim_releases :: "string \<Rightarrow> 64 word \<Rightarrow> cacheOp \<Rightarrow> bool" where
  "claim_releases k v (DoReserve k' _) = (k' = k)"
| "claim_releases k v (DoCommit k' v' _) = (k' = k \<and> v' = v)"
| "claim_releases k v (DoUnclaim k' v') = (k' = k \<and> v' = v)"
| "claim_releases k v _ = False"

lemma pending_step:
  assumes "mget c k = Some e" "cePendingDelete e" "\<not> claim_releases k (ceVersion e) op"
  shows "mget (cache_exec op c) k \<in> {None, Some e}"
  using assms
  by (cases op) (auto simp: cache_op_defs mhas_def Let_def split: option.splits if_splits)

lemma pending_frozen:
  assumes "mget c k = Some e" "cePendingDelete e"
    and "\<forall>op \<in> set ops. \<not> claim_releases k (ceVersion e) op" "hc_present k ops c"
  shows "mget (fold cache_exec ops c) k = Some e"
  using assms
proof (induction ops arbitrary: c)
  case (Cons op ops)
  have "mget (cache_exec op c) k \<noteq> None"
    using Cons.prems(4) by (cases ops) (auto simp: cache_version_def)
  with pending_step [of c k e op] Cons.prems have "mget (cache_exec op c) k = Some e" by auto
  with Cons show ?case by auto
qed simp

section \<open>Properties\<close>



text \<open>A delete claim is exclusive: once granted, and until it is settled or superseded by
  the claimant's own version or by a new reservation of the key, every further delete claim
  on a key that is still present is refused as in flight and leaves the cache untouched.\<close>

theorem delete_claim_exclusive:
  assumes "ReserveDelete k u c = ((e, v, deleteClaimed), c1)"
    and "\<forall>op \<in> set ops. \<not> claim_releases k v op" "hc_present k ops c1"
    and "c2 = fold cache_exec ops c1"
  shows "ReserveDelete k u' c2 = ((zeroEntry, 0, deleteClaimInFlight), c2)"
proof -
  obtain e1 where e1: "mget c1 k = Some e1" "cePendingDelete e1" "ceVersion e1 = v"
    using assms(1) by (auto simp: ReserveDelete_def Let_def split: option.splits if_splits)
  have "mget c2 k = Some e1"
    using pending_frozen [OF e1(1,2)] assms(2-4) e1(3) by simp
  then show ?thesis using e1 by (simp add: ReserveDelete_def)
qed

theorem delete_claim_exclusive_witness:
  "snd (snd (fst (ReserveDelete ''k'' ''''
      [(''k'', zeroEntry\<lparr>ceVersion := 1, cePendingDelete := True\<rparr>)]))) = deleteClaimInFlight"
  using delete_claim_exclusive [of "''k''" "''''" "[(''k'', zeroEntry)]" zeroEntry 1
      "snd (ReserveDelete ''k'' '''' [(''k'', zeroEntry)])"
      "[DoStore ''k'' zeroEntry, DoReserveDelete ''k'' ''u'']"
      "[(''k'', zeroEntry\<lparr>ceVersion := 1, cePendingDelete := True\<rparr>)]" "''''"]
  by (simp add: ReserveDelete_def StoreIfAbsent_def mhas_def zeroEntry_def cache_version_def)

text \<open>Evicting a watch scope removes exactly the entries of the objects the scope covers
  (same group and kind, and the scope's namespace or, for a cluster-wide scope, any
  namespace), keeps every other entry, and reports the number removed.\<close>

theorem evict_scope_exact:
  assumes "wf_scope s" "wf_key k"
    and "DeletePrefix (scopeKeyPrefix s) c = (removed, c')"
  shows "Load (cacheKey k) c' = (if scope_covers s k then None else Load (cacheKey k) c) \<and>
    removed + Len c' = Len c"
  using prefix_cacheKey_iff [OF assms(1,2)] length_mdel_if [of "prefix (scopeKeyPrefix s)" c] assms(3)
  by (auto simp: DeletePrefix_def Load_def Len_def)

theorem evict_scope_exact_witness:
  "Load ''apps|Deployment|foobar/d'' [(''apps|Deployment|foobar/d'', zeroEntry)] = Some zeroEntry \<and>
   (0::nat) + Len [(''apps|Deployment|foobar/d'', zeroEntry)] = 1"
  using evict_scope_exact [of "\<lparr>sGroup = ''apps'', sKind = ''Deployment'', sNamespace = ''foo''\<rparr>"
      "\<lparr>kSink = ''s'', kGroup = ''apps'', kKind = ''Deployment'', kNamespace = ''foobar'', kName = ''d''\<rparr>"
      "[(''apps|Deployment|foobar/d'', zeroEntry)]" 0 "[(''apps|Deployment|foobar/d'', zeroEntry)]"]
  by (simp add: wf_scope_def wf_key_def scope_covers_def cacheKey_def Load_def scopeKeyPrefix_def
      DeletePrefix_def mdel_if_def Let_def Len_def)

text \<open>Storing a diff baseline and decoding it again gives the original bytes, whether the
  encoder is available or has degraded to raw storage, and whatever the other fields of the
  entry are.\<close>

theorem baseline_roundtrip:
  assumes "zstd_codec encodeAll decodeAll" "encoder \<in> {None, Some encodeAll}"
    and "compressBaseline encoder raw = (stored, enc, compressed)"
  shows "decodeBaseline (Some decodeAll) (e\<lparr>ceJSON := Some stored, ceEncoding := enc\<rparr>) = Inr (Some raw)"
  using assms
  by (auto simp: compressBaseline_def decodeBaseline_def zstd_codec_def encodingRaw_def encodingZstd_def
      split: if_splits option.splits)

theorem baseline_roundtrip_witness:
  "decodeBaseline (Some (\<lambda>y. Some (drop 4 y)))
     (zeroEntry\<lparr>ceJSON := Some (zstdMagic @ ''{}''), ceEncoding := encodingZstd\<rparr>) = Inr (Some ''{}'')"
  using baseline_roundtrip [of "\<lambda>x. zstdMagic @ x" "\<lambda>y. Some (drop 4 y)" "Some (\<lambda>x. zstdMagic @ x)"
      "''{}''" "zstdMagic @ ''{}''" encodingZstd True zeroEntry]
  by (simp add: zstd_codec_def compressBaseline_def zstdMagic_def)

text \<open>C39. The version gate does not survive the removal of an entry: versions restart at one, so
  a write still in flight from before an eviction settles over the reservation of a later
  write for the same key.\<close>

theorem stale_commit_after_eviction:
  assumes "mget c k = None" "prefix p k"
    and "Reserve k old c = (v1, c1)" "c2 = snd (DeletePrefix p c1)" "Reserve k new c2 = (v2, c3)"
  shows "fst (CommitIfCurrent k v1 old c3) \<and>
    Load k (snd (CommitIfCurrent k v1 old c3)) = Some (old\<lparr>ceVersion := v2\<rparr>)"
  using assms by (auto simp: Reserve_def DeletePrefix_def CommitIfCurrent_def Load_def Let_def)

theorem stale_commit_after_eviction_witness:
  "fst (CommitIfCurrent ''|Pod|a/p'' 1 zeroEntry
     [(''|Pod|a/p'', (zeroEntry\<lparr>ceHash := ''n'', ceVersion := 1\<rparr>))])"
  using stale_commit_after_eviction [of "[]" "''|Pod|a/p''" "''|Pod|''" zeroEntry 1
      "[(''|Pod|a/p'', zeroEntry\<lparr>ceVersion := 1\<rparr>)]" "[]" "zeroEntry\<lparr>ceHash := ''n''\<rparr>" 1
      "[(''|Pod|a/p'', (zeroEntry\<lparr>ceHash := ''n'', ceVersion := 1\<rparr>))]"]
  by (simp add: Reserve_def DeletePrefix_def mdel_if_def zeroEntry_def)

end
