(* ===== verification/Plan.thy ===== *)
theory Plan
imports Identity
begin

text \<open>
  The desired-state registry between the reconcilers and the data plane
  (\<open>internal/plan/registry.go\<close>).  A rule's contribution is a set of watch targets; targets of
  all rules are merged under reference counts.  Label selector parsing and printing
  (apimachinery) are parameters.  \<open>contributions\<close> is the abstract state, a relation between
  rules and targets; the reference counts are shown to track it, so that a snapshot is a
  function of the relation alone.
\<close>

section \<open>Data\<close>

record GVK =
  gGroup :: string
  gVersion :: string
  gKind :: string

record WatchTarget =
  wtSink :: string
  wtGVK :: GVK
  wtNamespace :: string
  wtSelector :: string
  wtRedaction :: string

record TargetKey =
  tkSink :: string
  tkGVK :: GVK
  tkNamespace :: string

definition WatchTarget_Key :: "WatchTarget \<Rightarrow> TargetKey" where
  "WatchTarget_Key t = \<lparr>tkSink = wtSink t, tkGVK = wtGVK t, tkNamespace = wtNamespace t\<rparr>"

record TargetState =
  tsKey :: TargetKey
  tsRuleKeys :: "string list"
  tsSelectors :: "string list"
  tsRedactions :: "string list"

record targetEntry =
  teRules :: "(string, int) gomap"
  teSelectors :: "(string, int) gomap"
  teRedactions :: "(string, int) gomap"

text \<open>A Go set of comparable structs is a distinct list; the capacity-1 channel of wake-ups is
  the number of unread tokens in it.\<close>

record Registry =
  rRules :: "(string, WatchTarget list) gomap"
  rTargets :: "(TargetKey, targetEntry) gomap"
  rChanges :: nat

definition Registry_New :: Registry where
  "Registry_New = \<lparr>rRules = [], rTargets = [], rChanges = 0\<rparr>"

section \<open>Selectors\<close>

datatype 'e upsertError = UpsertError string GVK string 'e

definition CanonicalSelector ::
    "('ls \<Rightarrow> 'e + 'sel) \<Rightarrow> ('sel \<Rightarrow> string) \<Rightarrow> 'ls option \<Rightarrow> 'e + string" where
  "CanonicalSelector asSelector selString ls =
     (case ls of
        None \<Rightarrow> Inr ''''
      | Some l \<Rightarrow> (case asSelector l of Inl e \<Rightarrow> Inl e | Inr sel \<Rightarrow> Inr (selString sel)))"

definition canonicalizeSelectorString ::
    "(string \<Rightarrow> 'e + 'sel) \<Rightarrow> ('sel \<Rightarrow> string) \<Rightarrow> string \<Rightarrow> 'e + string" where
  "canonicalizeSelectorString parse selString s =
     (if s = '''' then Inr ''''
      else (case parse s of Inl e \<Rightarrow> Inl e | Inr sel \<Rightarrow> Inr (selString sel)))"

fun canonicalTargets ::
    "(string \<Rightarrow> 'e + 'sel) \<Rightarrow> ('sel \<Rightarrow> string) \<Rightarrow> string \<Rightarrow> WatchTarget list \<Rightarrow> WatchTarget list \<Rightarrow>
     'e upsertError + WatchTarget list" where
  "canonicalTargets parse selString ruleKey [] desired = Inr desired"
| "canonicalTargets parse selString ruleKey (t # ts) desired =
     (case canonicalizeSelectorString parse selString (wtSelector t) of
        Inl e \<Rightarrow> Inl (UpsertError ruleKey (wtGVK t) (wtNamespace t) e)
      | Inr sel \<Rightarrow> canonicalTargets parse selString ruleKey ts
                     (List.insert (t\<lparr>wtSelector := sel\<rparr>) desired))"

section \<open>Reference counts\<close>

definition refcount :: "('k, int) gomap \<Rightarrow> 'k \<Rightarrow> int" where
  "refcount m k = (case mget m k of None \<Rightarrow> 0 | Some n \<Rightarrow> n)"

definition incRef :: "'k \<Rightarrow> ('k, int) gomap \<Rightarrow> ('k, int) gomap" where
  "incRef k m = mput k (refcount m k + 1) m"

definition decRef :: "'k \<Rightarrow> ('k, int) gomap \<Rightarrow> ('k, int) gomap" where
  "decRef k m = (let n = refcount m k - 1 in if n \<le> 0 then mdel k m else mput k n m)"

definition emptyTargetEntry :: targetEntry where
  "emptyTargetEntry = \<lparr>teRules = [], teSelectors = [], teRedactions = []\<rparr>"

definition entryAdd :: "string \<Rightarrow> WatchTarget \<Rightarrow> targetEntry \<Rightarrow> targetEntry" where
  "entryAdd ruleKey t entry =
     (let entry = entry\<lparr>teRules := incRef ruleKey (teRules entry),
                        teSelectors := incRef (wtSelector t) (teSelectors entry)\<rparr>
      in if wtRedaction t \<noteq> ''''
         then entry\<lparr>teRedactions := incRef (wtRedaction t) (teRedactions entry)\<rparr> else entry)"

definition entryDrop :: "string \<Rightarrow> WatchTarget \<Rightarrow> targetEntry \<Rightarrow> targetEntry" where
  "entryDrop ruleKey t entry =
     (let entry = entry\<lparr>teRules := decRef ruleKey (teRules entry),
                        teSelectors := decRef (wtSelector t) (teSelectors entry)\<rparr>
      in if wtRedaction t \<noteq> ''''
         then entry\<lparr>teRedactions := decRef (wtRedaction t) (teRedactions entry)\<rparr> else entry)"

definition addRefLocked :: "string \<Rightarrow> WatchTarget \<Rightarrow> Registry \<Rightarrow> Registry" where
  "addRefLocked ruleKey t r =
     (let key = WatchTarget_Key t;
          entry = (case mget (rTargets r) key of Some e \<Rightarrow> e | None \<Rightarrow> emptyTargetEntry)
      in r\<lparr>rTargets := mput key (entryAdd ruleKey t entry) (rTargets r)\<rparr>)"

definition dropRefLocked :: "string \<Rightarrow> WatchTarget \<Rightarrow> Registry \<Rightarrow> Registry" where
  "dropRefLocked ruleKey t r =
     (let key = WatchTarget_Key t in
      case mget (rTargets r) key of
        None \<Rightarrow> r
      | Some entry \<Rightarrow>
          let entry = entryDrop ruleKey t entry
          in r\<lparr>rTargets := (if teRules entry = [] then mdel key (rTargets r)
                            else mput key entry (rTargets r))\<rparr>)"

definition notifyLocked :: "Registry \<Rightarrow> Registry" where
  "notifyLocked r = (if rChanges r < 1 then r\<lparr>rChanges := rChanges r + 1\<rparr> else r)"

section \<open>Operations\<close>

definition Upsert ::
    "(string \<Rightarrow> 'e + 'sel) \<Rightarrow> ('sel \<Rightarrow> string) \<Rightarrow> string \<Rightarrow> WatchTarget list \<Rightarrow> Registry \<Rightarrow>
     'e upsertError option \<times> Registry" where
  "Upsert parse selString ruleKey targets r =
     (case canonicalTargets parse selString ruleKey targets [] of
        Inl e \<Rightarrow> (Some e, r)
      | Inr desired \<Rightarrow>
          let current = (case mget (rRules r) ruleKey of Some ts \<Rightarrow> ts | None \<Rightarrow> []);
              added = filter (\<lambda>t. t \<notin> set current) desired;
              dropped = filter (\<lambda>t. t \<notin> set desired) current;
              r1 = fold (addRefLocked ruleKey) added r;
              r2 = fold (dropRefLocked ruleKey) dropped r1;
              changed = (added \<noteq> [] \<or> dropped \<noteq> []);
              r3 = r2\<lparr>rRules := (if desired = [] then mdel ruleKey (rRules r2)
                                 else mput ruleKey desired (rRules r2))\<rparr>
          in (None, if changed then notifyLocked r3 else r3))"

definition Remove :: "string \<Rightarrow> Registry \<Rightarrow> Registry" where
  "Remove ruleKey r =
     (case mget (rRules r) ruleKey of
        None \<Rightarrow> r
      | Some current \<Rightarrow>
          let r1 = fold (dropRefLocked ruleKey) current r
          in notifyLocked (r1\<lparr>rRules := mdel ruleKey (rRules r1)\<rparr>))"

definition Snapshot :: "Registry \<Rightarrow> (TargetKey, TargetState) gomap" where
  "Snapshot r =
     map (\<lambda>(key, entry). (key, \<lparr>tsKey = key, tsRuleKeys = sort (mkeys (teRules entry)),
            tsSelectors = sort (mkeys (teSelectors entry)),
            tsRedactions = sort (mkeys (teRedactions entry))\<rparr>)) (rTargets r)"

definition RulesForSink :: "string \<Rightarrow> Registry \<Rightarrow> string list" where
  "RulesForSink sinkName r =
     sorted_set (concat (map (\<lambda>(key, entry). if tkSink key \<noteq> sinkName then [] else mkeys (teRules entry))
                             (rTargets r)))"

definition TargetCountForRule :: "string \<Rightarrow> Registry \<Rightarrow> nat" where
  "TargetCountForRule ruleKey r =
     length (remdups (map WatchTarget_Key
       (case mget (rRules r) ruleKey of Some ts \<Rightarrow> ts | None \<Rightarrow> [])))"

text \<open>Draining the wake-up channel is the watch manager's read of \<open>Changes()\<close>.\<close>

definition readChanges :: "Registry \<Rightarrow> Registry" where
  "readChanges r = r\<lparr>rChanges := 0\<rparr>"

section \<open>Reference counts as an interface\<close>

definition tracks :: "('m \<Rightarrow> 'k \<Rightarrow> int) \<Rightarrow> 'm \<Rightarrow> ('p \<Rightarrow> 'k) \<Rightarrow> 'p set \<Rightarrow> bool" where
  "tracks refs m f P \<longleftrightarrow> (\<forall>k. refs m k = int (card {p \<in> P. f p = k}))"

lemma card_insert_Collect:
  assumes "finite P" "p \<notin> P"
  shows "card {q \<in> insert p P. f q = k} = card {q \<in> P. f q = k} + (if f p = k then 1 else 0)"
proof -
  have "{q \<in> insert p P. f q = k} =
      (if f p = k then insert p {q \<in> P. f q = k} else {q \<in> P. f q = k})"
    by auto
  then show ?thesis using assms by simp
qed

lemma card_remove_Collect:
  assumes "finite P" "p \<in> P"
  shows "card {q \<in> P - {p}. f q = k} + (if f p = k then 1 else 0) = card {q \<in> P. f q = k}"
  using card_insert_Collect [of "P - {p}" p f k] assms by (simp add: insert_absorb)

locale ref_counter =
  fixes inc dec :: "'k \<Rightarrow> 'm \<Rightarrow> 'm"
    and refs :: "'m \<Rightarrow> 'k \<Rightarrow> int"
    and present :: "'m \<Rightarrow> 'k set"
    and inv :: "'m \<Rightarrow> bool"
  assumes refs_inc: "inv m \<Longrightarrow> refs (inc k m) k' = refs m k' + (if k = k' then 1 else 0)"
    and refs_dec: "inv m \<Longrightarrow> 0 < refs m k \<Longrightarrow> refs (dec k m) k' = refs m k' - (if k = k' then 1 else 0)"
    and present_iff: "inv m \<Longrightarrow> k \<in> present m \<longleftrightarrow> 0 < refs m k"
    and inv_inc: "inv m \<Longrightarrow> inv (inc k m)"
    and inv_dec: "inv m \<Longrightarrow> inv (dec k m)"
begin

lemma tracks_inc:
  assumes "inv m" "finite P" "p \<notin> P" "tracks refs m f P"
  shows "tracks refs (inc (f p) m) f (insert p P)"
  unfolding tracks_def refs_inc [OF assms(1)] card_insert_Collect [OF assms(2,3)]
  using assms(4) by (simp add: tracks_def)

lemma tracks_dec:
  assumes "inv m" "finite P" "p \<in> P" "tracks refs m f P"
  shows "tracks refs (dec (f p) m) f (P - {p})"
proof -
  have "p \<in> {q \<in> P. f q = f p}" using assms(3) by simp
  then have "0 < card {q \<in> P. f q = f p}" using assms(2) by (subst card_gt_0_iff) auto
  then have "0 < refs m (f p)" using assms(4) by (simp add: tracks_def)
  moreover have "int (card {q \<in> P. f q = k}) = int (card {q \<in> P - {p}. f q = k}) + (if f p = k then 1 else 0)" for k
    using card_remove_Collect [OF assms(2,3), of f k] by (simp split: if_splits)
  ultimately show ?thesis
    using assms(1,4) by (auto simp: tracks_def refs_dec)
qed

lemma present_tracks:
  assumes "inv m" "finite P" "tracks refs m f P"
  shows "present m = f ` P"
proof (rule set_eqI)
  fix k
  have "k \<in> present m \<longleftrightarrow> {p \<in> P. f p = k} \<noteq> {}"
    using assms by (simp add: present_iff tracks_def card_gt_0_iff)
  then show "k \<in> present m \<longleftrightarrow> k \<in> f ` P" by auto
qed

end

definition counts_inv :: "('k, int) gomap \<Rightarrow> bool" where
  "counts_inv m \<longleftrightarrow> mwf m \<and> (\<forall>k n. mget m k = Some n \<longrightarrow> 0 < n)"

lemma refcount_incRef: "refcount (incRef k m) k' = refcount m k' + (if k = k' then 1 else 0)"
  by (simp add: incRef_def refcount_def)

lemma refcount_decRef:
  "0 < refcount m k \<Longrightarrow> refcount (decRef k m) k' = refcount m k' - (if k = k' then 1 else 0)"
  by (auto simp: decRef_def refcount_def Let_def)

lemma refcount_pos_iff: "counts_inv m \<Longrightarrow> k \<in> set (mkeys m) \<longleftrightarrow> 0 < refcount m k"
  unfolding mhas_iff [symmetric] mhas_def counts_inv_def refcount_def
  by (auto split: option.splits)

lemma refcount_nonneg: "counts_inv m \<Longrightarrow> 0 \<le> refcount m k"
  unfolding counts_inv_def refcount_def by (auto split: option.splits intro: less_imp_le)

lemma counts_inv_incRef: "counts_inv m \<Longrightarrow> counts_inv (incRef k m)"
  using refcount_nonneg [of m k] unfolding counts_inv_def incRef_def by auto

lemma counts_inv_decRef: "counts_inv m \<Longrightarrow> counts_inv (decRef k m)"
  unfolding counts_inv_def decRef_def Let_def by auto

interpretation rc: ref_counter incRef decRef refcount "\<lambda>m. set (mkeys m)" counts_inv
  by unfold_locales
    (simp_all only: refcount_incRef refcount_decRef refcount_pos_iff counts_inv_incRef counts_inv_decRef)

section \<open>Invariant\<close>

definition contributions :: "Registry \<Rightarrow> (string \<times> WatchTarget) set" where
  "contributions r = {(rule, t). \<exists>ts. mget (rRules r) rule = Some ts \<and> t \<in> set ts}"

definition at_key :: "TargetKey \<Rightarrow> (string \<times> WatchTarget) set \<Rightarrow> (string \<times> WatchTarget) set" where
  "at_key key C = {p \<in> C. WatchTarget_Key (snd p) = key}"

definition redacting :: "(string \<times> WatchTarget) set \<Rightarrow> (string \<times> WatchTarget) set" where
  "redacting P = {p \<in> P. wtRedaction (snd p) \<noteq> ''''}"

definition entry_tracks :: "targetEntry \<Rightarrow> (string \<times> WatchTarget) set \<Rightarrow> bool" where
  "entry_tracks e P \<longleftrightarrow>
     counts_inv (teRules e) \<and> counts_inv (teSelectors e) \<and> counts_inv (teRedactions e) \<and>
     tracks refcount (teRules e) fst P \<and>
     tracks refcount (teSelectors e) (\<lambda>p. wtSelector (snd p)) P \<and>
     tracks refcount (teRedactions e) (\<lambda>p. wtRedaction (snd p)) (redacting P)"

fun slot_ok :: "(string \<times> WatchTarget) set \<Rightarrow> targetEntry option \<Rightarrow> bool" where
  "slot_ok P None = (P = {})"
| "slot_ok P (Some e) = (P \<noteq> {} \<and> entry_tracks e P)"

definition targets_ok :: "(string \<times> WatchTarget) set \<Rightarrow> (TargetKey, targetEntry) gomap \<Rightarrow> bool" where
  "targets_ok C T \<longleftrightarrow> finite C \<and> mwf T \<and> (\<forall>key. slot_ok (at_key key C) (mget T key))"

definition registry_inv :: "Registry \<Rightarrow> bool" where
  "registry_inv r \<longleftrightarrow> mwf (rRules r) \<and>
     (\<forall>rule ts. mget (rRules r) rule = Some ts \<longrightarrow> ts \<noteq> [] \<and> distinct ts) \<and>
     targets_ok (contributions r) (rTargets r) \<and> rChanges r \<le> 1"

lemma at_key_insert: "at_key key (insert p C) =
    (if WatchTarget_Key (snd p) = key then insert p (at_key key C) else at_key key C)"
  by (auto simp: at_key_def)

lemma at_key_remove: "at_key key (C - {p}) =
    (if WatchTarget_Key (snd p) = key then at_key key C - {p} else at_key key C)"
  by (auto simp: at_key_def)

lemma finite_at_key [simp]: "finite C \<Longrightarrow> finite (at_key key C)"
  by (simp add: at_key_def)

lemma entry_tracks_empty: "entry_tracks emptyTargetEntry {}"
  by (simp add: entry_tracks_def emptyTargetEntry_def counts_inv_def tracks_def refcount_def redacting_def)

lemma entry_tracks_add:
  assumes "entry_tracks e P" "finite P" "(rule, t) \<notin> P"
  shows "entry_tracks (entryAdd rule t e) (insert (rule, t) P)"
proof -
  have "redacting (insert (rule, t) P) =
      (if wtRedaction t \<noteq> '''' then insert (rule, t) (redacting P) else redacting P)"
    by (auto simp: redacting_def)
  moreover have "finite (redacting P)" "(rule, t) \<notin> redacting P"
    using assms(2,3) by (auto simp: redacting_def)
  ultimately show ?thesis
    using assms rc.tracks_inc [of "teRules e" P "(rule, t)" fst]
      rc.tracks_inc [of "teSelectors e" P "(rule, t)" "\<lambda>p. wtSelector (snd p)"]
      rc.tracks_inc [of "teRedactions e" "redacting P" "(rule, t)" "\<lambda>p. wtRedaction (snd p)"]
    by (auto simp: entry_tracks_def entryAdd_def Let_def counts_inv_incRef)
qed

lemma entry_tracks_drop:
  assumes "entry_tracks e P" "finite P" "(rule, t) \<in> P"
  shows "entry_tracks (entryDrop rule t e) (P - {(rule, t)})"
proof -
  have "redacting (P - {(rule, t)}) =
      (if wtRedaction t \<noteq> '''' then redacting P - {(rule, t)} else redacting P)"
    by (auto simp: redacting_def)
  moreover have "finite (redacting P)" "wtRedaction t \<noteq> '''' \<Longrightarrow> (rule, t) \<in> redacting P"
    using assms(2,3) by (auto simp: redacting_def)
  ultimately show ?thesis
    using assms rc.tracks_dec [of "teRules e" P "(rule, t)" fst]
      rc.tracks_dec [of "teSelectors e" P "(rule, t)" "\<lambda>p. wtSelector (snd p)"]
      rc.tracks_dec [of "teRedactions e" "redacting P" "(rule, t)" "\<lambda>p. wtRedaction (snd p)"]
    by (auto simp: entry_tracks_def entryDrop_def Let_def counts_inv_decRef)
qed

lemma entry_rules_empty:
  assumes "entry_tracks e P" "finite P"
  shows "teRules e = [] \<longleftrightarrow> P = {}"
proof -
  have "set (mkeys (teRules e)) = fst ` P"
    using assms rc.present_tracks [of "teRules e" P fst] by (simp add: entry_tracks_def)
  then show ?thesis by (metis image_is_empty map_is_Nil_conv set_empty)
qed

lemma targets_ok_add:
  assumes "targets_ok C (rTargets r)" "(rule, t) \<notin> C"
  shows "targets_ok (insert (rule, t) C) (rTargets (addRefLocked rule t r))"
proof -
  let ?key = "WatchTarget_Key t"
  let ?e = "case mget (rTargets r) ?key of Some e \<Rightarrow> e | None \<Rightarrow> emptyTargetEntry"
  have fin: "finite C" using assms(1) by (simp add: targets_ok_def)
  have look: "slot_ok (at_key key C) (mget (rTargets r) key)" for key
    using assms(1) by (simp add: targets_ok_def)
  have "entry_tracks ?e (at_key ?key C)"
    using look [of ?key] by (auto simp: entry_tracks_empty split: option.splits)
  then have "entry_tracks (entryAdd rule t ?e) (insert (rule, t) (at_key ?key C))"
    by (rule entry_tracks_add) (use fin assms(2) in \<open>auto simp: at_key_def\<close>)
  then show ?thesis
    using assms(1) look by (auto simp: targets_ok_def addRefLocked_def Let_def at_key_insert)
qed

lemma targets_ok_drop:
  assumes "targets_ok C (rTargets r)" "(rule, t) \<in> C"
  shows "targets_ok (C - {(rule, t)}) (rTargets (dropRefLocked rule t r))"
proof -
  let ?key = "WatchTarget_Key t"
  have fin: "finite C" using assms(1) by (simp add: targets_ok_def)
  have look: "slot_ok (at_key key C) (mget (rTargets r) key)" for key
    using assms(1) by (simp add: targets_ok_def)
  have inP: "(rule, t) \<in> at_key ?key C" using assms(2) by (simp add: at_key_def)
  then obtain e where e: "mget (rTargets r) ?key = Some e" "entry_tracks e (at_key ?key C)"
    using look [of ?key] by (cases "mget (rTargets r) ?key") auto
  have tr: "entry_tracks (entryDrop rule t e) (at_key ?key C - {(rule, t)})"
    using entry_tracks_drop [OF e(2) _ inP] fin by simp
  have "teRules (entryDrop rule t e) = [] \<longleftrightarrow> at_key ?key C - {(rule, t)} = {}"
    using entry_rules_empty [OF tr] fin by simp
  then show ?thesis
    using assms(1) look tr e(1) by (auto simp: targets_ok_def dropRefLocked_def Let_def at_key_remove)
qed

lemma addRefLocked_frame [simp]:
  "rRules (addRefLocked rule t r) = rRules r" "rChanges (addRefLocked rule t r) = rChanges r"
  by (simp_all add: addRefLocked_def Let_def)

lemma dropRefLocked_frame [simp]:
  "rRules (dropRefLocked rule t r) = rRules r" "rChanges (dropRefLocked rule t r) = rChanges r"
  by (simp_all add: dropRefLocked_def Let_def split: option.splits)

lemma fold_addRef:
  assumes "targets_ok C (rTargets r)" "distinct ts" "\<forall>t \<in> set ts. (rule, t) \<notin> C"
  shows "targets_ok (C \<union> {rule} \<times> set ts) (rTargets (fold (addRefLocked rule) ts r)) \<and>
    rRules (fold (addRefLocked rule) ts r) = rRules r \<and>
    rChanges (fold (addRefLocked rule) ts r) = rChanges r"
  using assms
proof (induction ts arbitrary: r C)
  case (Cons t ts)
  have ok: "targets_ok (insert (rule, t) C) (rTargets (addRefLocked rule t r))"
    using Cons.prems by (intro targets_ok_add) auto
  have "insert (rule, t) C \<union> {rule} \<times> set ts = C \<union> {rule} \<times> set (t # ts)" by auto
  with Cons.IH [OF ok] Cons.prems(2,3) show ?case by auto
qed simp

lemma fold_dropRef:
  assumes "targets_ok C (rTargets r)" "distinct ts" "\<forall>t \<in> set ts. (rule, t) \<in> C"
  shows "targets_ok (C - {rule} \<times> set ts) (rTargets (fold (dropRefLocked rule) ts r)) \<and>
    rRules (fold (dropRefLocked rule) ts r) = rRules r \<and>
    rChanges (fold (dropRefLocked rule) ts r) = rChanges r"
  using assms
proof (induction ts arbitrary: r C)
  case (Cons t ts)
  have ok: "targets_ok (C - {(rule, t)}) (rTargets (dropRefLocked rule t r))"
    using Cons.prems by (intro targets_ok_drop) auto
  have "C - {(rule, t)} - {rule} \<times> set ts = C - {rule} \<times> set (t # ts)" by auto
  with Cons.IH [OF ok] Cons.prems(2,3) show ?case by auto
qed simp

section \<open>Effect of the operations\<close>

definition canonical_set ::
    "(string \<Rightarrow> 'e + 'sel) \<Rightarrow> ('sel \<Rightarrow> string) \<Rightarrow> WatchTarget list \<Rightarrow> WatchTarget set" where
  "canonical_set parse selString ts =
     {t\<lparr>wtSelector := s\<rparr> |t s. t \<in> set ts \<and> canonicalizeSelectorString parse selString (wtSelector t) = Inr s}"

lemma canonical_set_Cons:
  "canonicalizeSelectorString parse selString (wtSelector t) = Inr s \<Longrightarrow>
     canonical_set parse selString (t # ts) = insert (t\<lparr>wtSelector := s\<rparr>) (canonical_set parse selString ts)"
  by (auto simp: canonical_set_def)

lemma canonicalTargets_Inr:
  "canonicalTargets parse selString rule ts acc = Inr d \<Longrightarrow> distinct acc \<Longrightarrow>
     distinct d \<and> set d = set acc \<union> canonical_set parse selString ts"
proof (induction ts arbitrary: acc)
  case Nil
  then show ?case by (simp add: canonical_set_def)
next
  case (Cons t ts)
  from Cons.prems(1) obtain s
    where s: "canonicalizeSelectorString parse selString (wtSelector t) = Inr s"
      and rec: "canonicalTargets parse selString rule ts (List.insert (t\<lparr>wtSelector := s\<rparr>) acc) = Inr d"
    by (auto split: sum.splits)
  show ?case
    using Cons.IH [OF rec] Cons.prems(2) by (auto simp: canonical_set_Cons [OF s])
qed

lemma canonicalTargets_Inl:
  "canonicalTargets parse selString rule ts acc = Inl e \<Longrightarrow>
     \<exists>t \<in> set ts. \<exists>e'. canonicalizeSelectorString parse selString (wtSelector t) = Inl e' \<and>
       e = UpsertError rule (wtGVK t) (wtNamespace t) e'"
  by (induction ts arbitrary: acc) (auto split: sum.splits)

definition replace_rule ::
    "string \<Rightarrow> WatchTarget set \<Rightarrow> (string \<times> WatchTarget) set \<Rightarrow> (string \<times> WatchTarget) set" where
  "replace_rule rule D C = {p \<in> C. fst p \<noteq> rule} \<union> {rule} \<times> D"

lemma contributions_at: "{t. (rule, t) \<in> contributions r} =
    set (case mget (rRules r) rule of Some ts \<Rightarrow> ts | None \<Rightarrow> [])"
  by (cases "mget (rRules r) rule") (auto simp: contributions_def)

lemma contributions_put:
  "contributions (r\<lparr>rRules := mput rule ts (rRules r)\<rparr>) = replace_rule rule (set ts) (contributions r)"
  by (auto simp: contributions_def replace_rule_def split: if_splits)

lemma contributions_del:
  "contributions (r\<lparr>rRules := mdel rule (rRules r)\<rparr>) = replace_rule rule {} (contributions r)"
  by (auto simp: contributions_def replace_rule_def split: if_splits)

lemma contributions_frame: "rRules r = rRules r' \<Longrightarrow> contributions r = contributions r'"
  by (simp add: contributions_def)

lemma notifyLocked_frame [simp]:
  "rRules (notifyLocked r) = rRules r" "rTargets (notifyLocked r) = rTargets r"
  "rChanges r \<le> 1 \<Longrightarrow> rChanges (notifyLocked r) = 1"
  by (auto simp: notifyLocked_def)

lemma replace_rule_delta:
  assumes "{t. (rule, t) \<in> C} = set current"
    and "A = {t \<in> set desired. t \<notin> set current}" "B = {t \<in> set current. t \<notin> set desired}"
  shows "(C \<union> {rule} \<times> A) - {rule} \<times> B = replace_rule rule (set desired) C"
  using assms by (auto simp: replace_rule_def)

lemma replace_rule_mem: "(ru, t) \<in> replace_rule rule D C \<longleftrightarrow> (if ru = rule then t \<in> D else (ru, t) \<in> C)"
  by (auto simp: replace_rule_def)

lemma replace_rule_same_iff: "replace_rule rule D C = C \<longleftrightarrow> D = {t. (rule, t) \<in> C}"
  by (auto simp: set_eq_iff replace_rule_mem)

lemma Upsert_ok_effect:
  assumes inv: "registry_inv r" and up: "Upsert parse selString rule ts r = (None, r')"
  shows "registry_inv r' \<and>
    contributions r' = replace_rule rule (canonical_set parse selString ts) (contributions r) \<and>
    rChanges r' = (if contributions r' = contributions r then rChanges r else 1)"
proof -
  obtain d where d: "canonicalTargets parse selString rule ts [] = Inr d"
    using up by (auto simp: Upsert_def split: sum.splits)
  have dd: "distinct d" "set d = canonical_set parse selString ts"
    using canonicalTargets_Inr [OF d] by auto
  define cur where "cur = (case mget (rRules r) rule of Some ts \<Rightarrow> ts | None \<Rightarrow> [])"
  define added where "added = filter (\<lambda>t. t \<notin> set cur) d"
  define dropped where "dropped = filter (\<lambda>t. t \<notin> set d) cur"
  define r1 where "r1 = fold (addRefLocked rule) added r"
  define r2 where "r2 = fold (dropRefLocked rule) dropped r1"
  define r3 where "r3 = r2\<lparr>rRules := (if d = [] then mdel rule (rRules r2) else mput rule d (rRules r2))\<rparr>"
  have r': "r' = (if added \<noteq> [] \<or> dropped \<noteq> [] then notifyLocked r3 else r3)"
    using up
    unfolding Upsert_def d sum.case Let_def cur_def [symmetric] added_def [symmetric]
      dropped_def [symmetric] r1_def [symmetric] r2_def [symmetric] r3_def [symmetric]
    by simp
  let ?C = "contributions r"
  have cur: "{t. (rule, t) \<in> ?C} = set cur" unfolding cur_def by (rule contributions_at)
  have dcur: "distinct cur" using inv by (auto simp: registry_inv_def cur_def split: option.splits)
  have ok: "targets_ok ?C (rTargets r)" using inv by (simp add: registry_inv_def)
  have f1: "targets_ok (?C \<union> {rule} \<times> set added) (rTargets r1) \<and> rRules r1 = rRules r \<and> rChanges r1 = rChanges r"
    unfolding r1_def by (rule fold_addRef [OF ok]) (use cur dd in \<open>auto simp: added_def\<close>)
  have f2: "targets_ok (?C \<union> {rule} \<times> set added - {rule} \<times> set dropped) (rTargets r2) \<and>
      rRules r2 = rRules r1 \<and> rChanges r2 = rChanges r1"
    unfolding r2_def by (rule fold_dropRef) (use f1 cur dcur in \<open>auto simp: dropped_def\<close>)
  have delta: "?C \<union> {rule} \<times> set added - {rule} \<times> set dropped = replace_rule rule (set d) ?C"
    by (rule replace_rule_delta [OF cur]) (auto simp: added_def dropped_def)
  have r2C: "contributions r2 = ?C" using f1 f2 contributions_frame [of r2 r] by simp
  have C': "contributions r' = replace_rule rule (set d) ?C"
    using r2C contributions_put [where r = r2 and rule = rule and ts = d] contributions_del [where r = r2 and rule = rule]
      contributions_frame [of r' r3] by (auto simp: r' r3_def)
  have unchanged: "contributions r' = ?C \<longleftrightarrow> added = [] \<and> dropped = []"
  proof -
    have "replace_rule rule (set d) ?C = ?C \<longleftrightarrow> set d = {t. (rule, t) \<in> ?C}"
      by (rule replace_rule_same_iff)
    also have "\<dots> \<longleftrightarrow> added = [] \<and> dropped = []"
      unfolding cur added_def dropped_def filter_empty_conv by auto
    finally show ?thesis using C' by simp
  qed
  have "mwf (rRules r')" "\<forall>ru tt. mget (rRules r') ru = Some tt \<longrightarrow> tt \<noteq> [] \<and> distinct tt"
    using inv f1 f2 dd(1) by (auto simp: r' r3_def registry_inv_def)
  moreover have "rTargets r' = rTargets r2" "rChanges r' = (if added = [] \<and> dropped = [] then rChanges r else 1)"
    using f1 f2 inv by (auto simp: r' r3_def registry_inv_def)
  ultimately show ?thesis
    using f2 delta C' unchanged inv dd(2) by (auto simp: registry_inv_def)
qed

lemma Upsert_error_effect:
  assumes "Upsert parse selString rule ts r = (Some e, r')"
  shows "r' = r \<and> canonicalTargets parse selString rule ts [] = Inl e"
  using assms by (auto simp: Upsert_def Let_def split: sum.splits)

lemma Remove_effect:
  assumes inv: "registry_inv r"
  shows "registry_inv (Remove rule r) \<and>
    contributions (Remove rule r) = replace_rule rule {} (contributions r) \<and>
    rChanges (Remove rule r) = (if mhas (rRules r) rule then 1 else rChanges r)"
proof (cases "mget (rRules r) rule")
  case None
  then have "Remove rule r = r" by (simp add: Remove_def)
  moreover have "replace_rule rule {} (contributions r) = contributions r"
    using None by (auto simp: replace_rule_def contributions_def)
  ultimately show ?thesis using inv None by (simp add: mhas_def)
next
  case (Some cur)
  define r1 where "r1 = fold (dropRefLocked rule) cur r"
  have rem: "Remove rule r = notifyLocked (r1\<lparr>rRules := mdel rule (rRules r1)\<rparr>)"
    using Some by (simp add: Remove_def r1_def Let_def)
  have cur: "{t. (rule, t) \<in> contributions r} = set cur"
    using contributions_at [of rule r] Some by simp
  have f1: "targets_ok (contributions r - {rule} \<times> set cur) (rTargets r1) \<and>
      rRules r1 = rRules r \<and> rChanges r1 = rChanges r"
    unfolding r1_def
    by (rule fold_dropRef) (use inv Some cur in \<open>auto simp: registry_inv_def\<close>)
  have C': "contributions r - {rule} \<times> set cur = replace_rule rule {} (contributions r)"
    using cur by (auto simp: replace_rule_def)
  have "contributions (Remove rule r) = replace_rule rule {} (contributions r)"
    using contributions_del [where r = r1 and rule = rule] contributions_frame [of r1 r] f1
      contributions_frame [of "Remove rule r" "r1\<lparr>rRules := mdel rule (rRules r1)\<rparr>"]
    by (simp add: rem)
  then show ?thesis
    using f1 C' inv Some by (auto simp: registry_inv_def rem mhas_def)
qed

inductive registry_reach :: "(string \<Rightarrow> 'e + 'sel) \<Rightarrow> ('sel \<Rightarrow> string) \<Rightarrow> Registry \<Rightarrow> bool"
  for parse selString where
  reach_New: "registry_reach parse selString Registry_New"
| reach_Upsert: "registry_reach parse selString r \<Longrightarrow>
    registry_reach parse selString (snd (Upsert parse selString rule ts r))"
| reach_Remove: "registry_reach parse selString r \<Longrightarrow> registry_reach parse selString (Remove rule r)"
| reach_read: "registry_reach parse selString r \<Longrightarrow> registry_reach parse selString (readChanges r)"

lemma registry_inv_New: "registry_inv Registry_New"
  by (simp add: registry_inv_def Registry_New_def targets_ok_def contributions_def at_key_def)

lemma registry_reach_inv: "registry_reach parse selString r \<Longrightarrow> registry_inv r"
proof (induction rule: registry_reach.induct)
  case (reach_Upsert r rule ts)
  show ?case
  proof (cases "Upsert parse selString rule ts r")
    case (Pair err r')
    then show ?thesis
      using Upsert_ok_effect [of r parse selString rule ts r'] reach_Upsert.IH
        Upsert_error_effect [of parse selString rule ts r _ r'] by (cases err) auto
  qed
next
  case (reach_read r)
  then show ?case by (simp add: readChanges_def registry_inv_def contributions_def)
qed (simp_all add: registry_inv_New Remove_effect)

section \<open>Listings\<close>

lemma sort_keys_tracked:
  assumes "counts_inv m" "finite P" "tracks refcount m f P"
  shows "sort (mkeys m) = sorted_list_of_set (f ` P)"
proof -
  have "set (mkeys m) = f ` P" by (rule rc.present_tracks [OF assms])
  then show ?thesis
    using assms(1) by (metis counts_inv_def distinct_remdups_id sorted_list_of_set_sort_remdups)
qed

text \<open>What a snapshot says of one target, as a function of the rules' contributions.\<close>

definition snapshot_spec :: "(string \<times> WatchTarget) set \<Rightarrow> TargetKey \<Rightarrow> TargetState option" where
  "snapshot_spec C key =
     (let P = at_key key C in
      if P = {} then None
      else Some \<lparr>tsKey = key,
                 tsRuleKeys = sorted_list_of_set (fst ` P),
                 tsSelectors = sorted_list_of_set ((\<lambda>p. wtSelector (snd p)) ` P),
                 tsRedactions = sorted_list_of_set ((\<lambda>p. wtRedaction (snd p)) ` redacting P)\<rparr>)"

lemma mget_map_values: "mget (map (\<lambda>(k, v). (k, f k v)) m) k = map_option (f k) (mget m k)"
  by (induction m) auto

lemma Snapshot_spec:
  assumes "registry_inv r"
  shows "mget (Snapshot r) key = snapshot_spec (contributions r) key"
proof -
  let ?P = "at_key key (contributions r)"
  have fin: "finite ?P" and slot: "slot_ok ?P (mget (rTargets r) key)"
    using assms by (auto simp: registry_inv_def targets_ok_def)
  have finr: "finite (redacting ?P)" using fin by (simp add: redacting_def)
  show ?thesis
  proof (cases "mget (rTargets r) key")
    case None
    then show ?thesis using slot
      by (simp add: Snapshot_def snapshot_spec_def mget_map_values Let_def)
  next
    case (Some e)
    then have "entry_tracks e ?P" "?P \<noteq> {}" using slot by auto
    then show ?thesis using Some fin finr
      by (simp add: Snapshot_def snapshot_spec_def mget_map_values Let_def entry_tracks_def
          sort_keys_tracked)
  qed
qed

lemma contributions_key_entry:
  assumes "registry_inv r"
  shows "(\<exists>t. (rule, t) \<in> contributions r \<and> WatchTarget_Key t = key) \<longleftrightarrow>
    (\<exists>e. mget (rTargets r) key = Some e \<and> rule \<in> set (mkeys (teRules e)))"
proof -
  let ?P = "at_key key (contributions r)"
  have fin: "finite ?P" and slot: "slot_ok ?P (mget (rTargets r) key)"
    using assms by (auto simp: registry_inv_def targets_ok_def)
  have "(\<exists>t. (rule, t) \<in> contributions r \<and> WatchTarget_Key t = key) \<longleftrightarrow> rule \<in> fst ` ?P"
    by (force simp: at_key_def)
  also have "\<dots> \<longleftrightarrow> (\<exists>e. mget (rTargets r) key = Some e \<and> rule \<in> set (mkeys (teRules e)))"
  proof (cases "mget (rTargets r) key")
    case None
    then show ?thesis using slot by simp
  next
    case (Some e)
    then have "set (mkeys (teRules e)) = fst ` ?P"
      using slot fin rc.present_tracks [of "teRules e" ?P fst] by (simp add: entry_tracks_def)
    then show ?thesis using Some by simp
  qed
  finally show ?thesis .
qed

lemma RulesForSink_set:
  assumes "registry_inv r"
  shows "set (RulesForSink s r) = {rule. \<exists>t. (rule, t) \<in> contributions r \<and> wtSink t = s}"
proof -
  have wf: "mwf (rTargets r)" using assms by (simp add: registry_inv_def targets_ok_def)
  have "set (RulesForSink s r) =
      {rule. \<exists>key e. mget (rTargets r) key = Some e \<and> tkSink key = s \<and> rule \<in> set (mkeys (teRules e))}"
    unfolding RulesForSink_def set_sorted_set
    by (auto simp: mget_Some_set [OF wf] split: if_splits)
  also have "\<dots> = {rule. \<exists>t. (rule, t) \<in> contributions r \<and> tkSink (WatchTarget_Key t) = s}"
  proof (intro Collect_cong)
    fix rule
    show "(\<exists>key e. mget (rTargets r) key = Some e \<and> tkSink key = s \<and> rule \<in> set (mkeys (teRules e))) \<longleftrightarrow>
      (\<exists>t. (rule, t) \<in> contributions r \<and> tkSink (WatchTarget_Key t) = s)"
      using contributions_key_entry [OF assms, of rule] by metis
  qed
  finally show ?thesis by (simp add: WatchTarget_Key_def)
qed

lemma TargetCountForRule_card:
  "TargetCountForRule rule r = card (WatchTarget_Key ` {t. (rule, t) \<in> contributions r})"
  unfolding TargetCountForRule_def contributions_at by (simp add: length_remdups_card_conv)

section \<open>Properties\<close>

text \<open>C34. In every reachable registry a snapshot is exactly the merge of what the rules
  contribute: a target is listed if and only if some rule wants it, with the sorted
  distinct rule keys, selectors and non-empty redaction sets of its contributors; no
  reference is leaked or lost by any sequence of upserts and removals.\<close>

theorem snapshot_refines_contributions:
  assumes "registry_reach parse selString r"
  shows "mget (Snapshot r) key = snapshot_spec (contributions r) key"
  by (rule Snapshot_spec [OF registry_reach_inv [OF assms]])

definition sample_target :: WatchTarget where
  "sample_target = \<lparr>wtSink = ''s'', wtGVK = \<lparr>gGroup = '''', gVersion = ''v1'', gKind = ''Pod''\<rparr>,
     wtNamespace = ''ns'', wtSelector = '''', wtRedaction = ''''\<rparr>"

definition sample_registry :: Registry where
  "sample_registry = snd (Upsert (\<lambda>s. Inr s :: unit + string) (\<lambda>s. s) ''r'' [sample_target] Registry_New)"

lemma sample_registry_eval:
  "sample_registry = \<lparr>rRules = [(''r'', [sample_target])],
     rTargets = [(WatchTarget_Key sample_target,
       \<lparr>teRules = [(''r'', 1)], teSelectors = [('''', 1)], teRedactions = []\<rparr>)], rChanges = 1\<rparr>"
  by (simp add: sample_registry_def Upsert_def sample_target_def canonicalizeSelectorString_def
      Registry_New_def Let_def addRefLocked_def notifyLocked_def entryAdd_def incRef_def refcount_def
      emptyTargetEntry_def)

lemma sample_upsert:
  "Upsert (\<lambda>s. Inr s :: unit + string) (\<lambda>s. s) ''r'' [sample_target] Registry_New = (None, sample_registry)"
  by (simp add: sample_registry_def Upsert_def sample_target_def canonicalizeSelectorString_def Let_def)

lemma sample_registry_reach: "registry_reach (\<lambda>s. Inr s :: unit + string) (\<lambda>s. s) sample_registry"
  unfolding sample_registry_def by (rule reach_Upsert [OF reach_New])

theorem snapshot_refines_contributions_witness:
  "snapshot_spec (contributions sample_registry) (WatchTarget_Key sample_target) =
     Some \<lparr>tsKey = WatchTarget_Key sample_target, tsRuleKeys = [''r''], tsSelectors = [''''], tsRedactions = []\<rparr>"
  using snapshot_refines_contributions [OF sample_registry_reach, of "WatchTarget_Key sample_target"]
  by (simp add: sample_registry_eval Snapshot_def)

text \<open>An upsert is all or nothing.  When a selector does not parse the registry is
  unchanged and the error names a target whose selector failed; otherwise the rule's
  contribution becomes exactly the canonicalised target set, every other rule keeps its own,
  and a wake-up is pending afterwards exactly when one was pending before or the set of
  contributions changed.\<close>

theorem upsert_effect:
  assumes "registry_reach parse selString r" "Upsert parse selString rule ts r = (err, r')"
  shows "case err of
      Some e \<Rightarrow> r' = r \<and> (\<exists>t \<in> set ts. \<exists>e'. canonicalizeSelectorString parse selString (wtSelector t) = Inl e' \<and>
          e = UpsertError rule (wtGVK t) (wtNamespace t) e')
    | None \<Rightarrow> contributions r' = replace_rule rule (canonical_set parse selString ts) (contributions r) \<and>
        rChanges r' = (if contributions r' = contributions r then rChanges r else 1)"
  using registry_reach_inv [OF assms(1)] Upsert_ok_effect [of r parse selString rule ts r']
    Upsert_error_effect [of parse selString rule ts r _ r'] canonicalTargets_Inl [of parse selString rule ts "[]"]
    assms(2)
  by (cases err) auto

theorem upsert_effect_witness:
  "contributions sample_registry =
     replace_rule ''r'' (canonical_set (\<lambda>s. Inr s :: unit + string) (\<lambda>s. s) [sample_target]) {}"
  using upsert_effect [OF reach_New sample_upsert]
  by (simp add: contributions_def Registry_New_def)

text \<open>Removing a rule withdraws exactly its own contribution and leaves every other rule's
  targets in place; a wake-up is posted exactly when the rule was known, so removing an
  unknown rule changes nothing.\<close>

theorem remove_effect:
  assumes "registry_reach parse selString r"
  shows "contributions (Remove rule r) = {p \<in> contributions r. fst p \<noteq> rule} \<and>
    rChanges (Remove rule r) = (if \<exists>t. (rule, t) \<in> contributions r then 1 else rChanges r)"
proof -
  have inv: "registry_inv r" by (rule registry_reach_inv [OF assms])
  have "mhas (rRules r) rule \<longleftrightarrow> (\<exists>t. (rule, t) \<in> contributions r)"
    using inv unfolding registry_inv_def mhas_def contributions_def
    by (auto simp: neq_Nil_conv) (metis list.set_intros(1) neq_Nil_conv)
  then show ?thesis using Remove_effect [OF inv, of rule] by (simp add: replace_rule_def)
qed

theorem remove_effect_witness:
  "contributions (Remove ''r'' sample_registry) = {} \<and> rChanges (Remove ''r'' sample_registry) = 1"
  using remove_effect [OF sample_registry_reach, of "''r''"]
  by (auto simp: sample_registry_eval contributions_def split: if_splits)

text \<open>The registry answers who depends on a sink, and how many scopes a rule holds, from
  the installed state: the rules listed for a sink are, sorted and without duplicates,
  exactly those contributing a target to it, and a rule's count is the number of its
  distinct target keys however many selectors share one.\<close>

theorem registry_queries:
  assumes "registry_reach parse selString r"
  shows "set (RulesForSink s r) = {rule. \<exists>t. (rule, t) \<in> contributions r \<and> wtSink t = s} \<and>
    sorted (RulesForSink s r) \<and> distinct (RulesForSink s r) \<and>
    TargetCountForRule rule r = card (WatchTarget_Key ` {t. (rule, t) \<in> contributions r})"
  using RulesForSink_set [OF registry_reach_inv [OF assms]] TargetCountForRule_card
  by (simp add: RulesForSink_def)

theorem registry_queries_witness:
  "RulesForSink ''s'' sample_registry = [''r''] \<and>
   card (WatchTarget_Key ` {t. (''r'', t) \<in> contributions sample_registry}) = 1"
  using registry_queries [OF sample_registry_reach, of "''s''" "''r''"]
  by (simp add: sample_registry_eval RulesForSink_def TargetCountForRule_def WatchTarget_Key_def
      sample_target_def sorted_set_def)

end
