(* ===== verification/Json.thy ===== *)
theory Json
imports Prelude
begin

text \<open>
  The Go values an unstructured object is made of, and the parts of Go's standard library the
  program applies to them: \<open>encoding/json.Marshal\<close> (object keys sorted bytewise, strings
  escaped with HTML-safe escapes) and \<open>strconv.Quote\<close> / \<open>Unquote\<close>.  Strings are byte
  sequences; a byte above 0x7F is part of valid UTF-8, which every string decoded from the
  API server's JSON is, and is passed through except for U+2028 and U+2029.  A float64 is
  represented by the shortest decimal rendering the encoder writes for it, or None for the
  values (NaN, infinities) it refuses.
\<close>

datatype json =
    JNull
  | JBool bool
  | JInt int
  | JFloat "string option"
  | JStr string
  | JArr "json list"
  | JObj "(string \<times> json) list"

type_synonym jobj = "(string, json) gomap"

section \<open>Decimal and hexadecimal\<close>

definition digit :: "nat \<Rightarrow> char" where
  "digit n = char_of (48 + n)"

fun showNat :: "nat \<Rightarrow> string" where
  "showNat n = (if n < 10 then [digit n] else showNat (n div 10) @ [digit (n mod 10)])"

declare showNat.simps [simp del]

definition showInt :: "int \<Rightarrow> string" where
  "showInt i = (if i < 0 then CHR ''-'' # showNat (nat (- i)) else showNat (nat i))"

definition hexDigit :: "nat \<Rightarrow> char" where
  "hexDigit n = (if n < 10 then char_of (48 + n) else char_of (87 + n))"

definition hexByte :: "char \<Rightarrow> string" where
  "hexByte c = [hexDigit (of_char c div 16), hexDigit (of_char c mod 16)]"

definition hexEncode :: "string \<Rightarrow> string" where
  "hexEncode bs = concat (map hexByte bs)"

section \<open>encoding/json\<close>

definition jsonEscapeByte :: "char \<Rightarrow> string" where
  "jsonEscapeByte c =
     (if c = CHR 0x22 then [CHR 0x5C, CHR 0x22]
      else if c = CHR 0x5C then [CHR 0x5C, CHR 0x5C]
      else if c = CHR 0x08 then [CHR 0x5C, CHR ''b'']
      else if c = CHR 0x0C then [CHR 0x5C, CHR ''f'']
      else if c = CHR 0x0A then [CHR 0x5C, CHR ''n'']
      else if c = CHR 0x0D then [CHR 0x5C, CHR ''r'']
      else if c = CHR 0x09 then [CHR 0x5C, CHR ''t'']
      else if (of_char c :: nat) < 32 \<or> c = CHR ''<'' \<or> c = CHR ''>'' \<or> c = CHR ''&''
        then [CHR 0x5C, CHR ''u'', CHR ''0'', CHR ''0''] @ hexByte c
      else [c])"

fun jsonEscape :: "string \<Rightarrow> string" where
  "jsonEscape (a # b # c # s) =
     (if a = CHR 0xE2 \<and> b = CHR 0x80 \<and> (c = CHR 0xA8 \<or> c = CHR 0xA9)
      then [CHR 0x5C, CHR ''u'', CHR ''2'', CHR ''0'', CHR ''2'', if c = CHR 0xA8 then CHR ''8'' else CHR ''9'']
           @ jsonEscape s
      else jsonEscapeByte a @ jsonEscape (b # c # s))"
| "jsonEscape [] = []"
| "jsonEscape [a] = jsonEscapeByte a"
| "jsonEscape [a, b] = jsonEscapeByte a @ jsonEscapeByte b"

definition jsonString :: "string \<Rightarrow> string" where
  "jsonString s = [CHR 0x22] @ jsonEscape s @ [CHR 0x22]"

definition commaList :: "char \<Rightarrow> char \<Rightarrow> string option list \<Rightarrow> string option" where
  "commaList l r parts =
     (if None \<in> set parts then None else Some ([l] @ join '','' (map the parts) @ [r]))"

definition member :: "string \<times> string option \<Rightarrow> string option" where
  "member kv = map_option (\<lambda>v. jsonString (fst kv) @ '':'' @ v) (snd kv)"

primrec marshal :: "json \<Rightarrow> string option" where
  "marshal JNull = Some ''null''"
| "marshal (JBool b) = Some (if b then ''true'' else ''false'')"
| "marshal (JInt i) = Some (showInt i)"
| "marshal (JFloat f) = f"
| "marshal (JStr s) = Some (jsonString s)"
| "marshal (JArr xs) = commaList CHR ''['' CHR '']'' (map marshal xs)"
| "marshal (JObj kvs) =
     commaList CHR ''{'' CHR ''}'' (map member (sort_key fst (map (map_prod id marshal) kvs)))"

text \<open>The encoder does not see the order of a map.\<close>

lemma sort_key_fst_unique:
  assumes "distinct (map fst xs)" "distinct (map fst ys)" "set xs = set ys"
  shows "sort_key fst xs = sort_key fst (ys :: ('k::linorder \<times> 'v) list)"
proof (rule map_sorted_distinct_set_unique [where f = fst])
  show "inj_on fst (set (sort_key fst xs) \<union> set (sort_key fst ys))"
    using assms by (auto simp: distinct_map)
qed (use assms in \<open>simp_all add: distinct_map\<close>)

lemma marshal_key_order:
  assumes "distinct (map fst kvs)" "distinct (map fst kvs')" "set kvs = set kvs'"
  shows "marshal (JObj kvs) = marshal (JObj kvs')"
proof -
  have fst_eq: "map fst (map (map_prod id marshal) xs) = map fst xs" for xs
    by simp
  have "sort_key fst (map (map_prod id marshal) kvs) = sort_key fst (map (map_prod id marshal) kvs')"
    by (rule sort_key_fst_unique) (use assms in \<open>simp_all only: fst_eq set_map\<close>)
  then show ?thesis by (simp only: marshal.simps)
qed

section \<open>strconv\<close>

definition quoteByte :: "char \<Rightarrow> string" where
  "quoteByte c =
     (if c = CHR 0x22 then [CHR 0x5C, CHR 0x22]
      else if c = CHR 0x5C then [CHR 0x5C, CHR 0x5C]
      else if c = CHR 0x07 then [CHR 0x5C, CHR ''a'']
      else if c = CHR 0x08 then [CHR 0x5C, CHR ''b'']
      else if c = CHR 0x0C then [CHR 0x5C, CHR ''f'']
      else if c = CHR 0x0A then [CHR 0x5C, CHR ''n'']
      else if c = CHR 0x0D then [CHR 0x5C, CHR ''r'']
      else if c = CHR 0x09 then [CHR 0x5C, CHR ''t'']
      else if c = CHR 0x0B then [CHR 0x5C, CHR ''v'']
      else if (of_char c :: nat) < 32 \<or> c = CHR 0x7F then [CHR 0x5C, CHR ''x''] @ hexByte c
      else [c])"

definition Quote :: "string \<Rightarrow> string" where
  "Quote s = [CHR 0x22] @ concat (map quoteByte s) @ [CHR 0x22]"

definition hexVal :: "char \<Rightarrow> nat option" where
  "hexVal c = (let n = of_char c in
     if 48 \<le> n \<and> n \<le> 57 then Some (n - 48)
     else if 97 \<le> n \<and> n \<le> 102 then Some (n - 87)
     else if 65 \<le> n \<and> n \<le> 70 then Some (n - 55) else None)"

fun hexVals :: "nat \<Rightarrow> string \<Rightarrow> nat option" where
  "hexVals acc [] = Some acc"
| "hexVals acc (c # cs) = (case hexVal c of None \<Rightarrow> None | Some v \<Rightarrow> hexVals (16 * acc + v) cs)"

fun octVals :: "nat \<Rightarrow> string \<Rightarrow> nat option" where
  "octVals acc [] = Some acc"
| "octVals acc (c # cs) = (let n = of_char c in
     if 48 \<le> n \<and> n \<le> 55 then octVals (8 * acc + (n - 48)) cs else None)"

definition utf8Encode :: "nat \<Rightarrow> string" where
  "utf8Encode r =
     (if r < 128 then [char_of r]
      else if r < 2048 then [char_of (192 + r div 64), char_of (128 + r mod 64)]
      else if r < 65536 then [char_of (224 + r div 4096), char_of (128 + r div 64 mod 64), char_of (128 + r mod 64)]
      else [char_of (240 + r div 262144), char_of (128 + r div 4096 mod 64),
            char_of (128 + r div 64 mod 64), char_of (128 + r mod 64)])"

definition validRune :: "nat \<Rightarrow> bool" where
  "validRune r \<longleftrightarrow> r < 55296 \<or> (57343 < r \<and> r \<le> 1114111)"

text \<open>One escape sequence after the backslash: its value and what follows.\<close>

definition simpleEscapes :: "(char \<times> char) list" where
  "simpleEscapes = [(CHR ''a'', CHR 0x07), (CHR ''b'', CHR 0x08), (CHR ''f'', CHR 0x0C),
     (CHR ''n'', CHR 0x0A), (CHR ''r'', CHR 0x0D), (CHR ''t'', CHR 0x09), (CHR ''v'', CHR 0x0B),
     (CHR 0x5C, CHR 0x5C), (CHR 0x22, CHR 0x22)]"

definition runeEscape :: "nat \<Rightarrow> string \<Rightarrow> (string \<times> string) option" where
  "runeEscape n r =
     (if length r < n then None
      else (case hexVals 0 (take n r) of
              None \<Rightarrow> None
            | Some v \<Rightarrow> if validRune v then Some (utf8Encode v, drop n r) else None))"

definition byteEscape :: "nat option \<Rightarrow> string \<Rightarrow> (string \<times> string) option" where
  "byteEscape v r =
     (case v of None \<Rightarrow> None | Some n \<Rightarrow> if length r < 2 \<or> n > 255 then None else Some ([char_of n], drop 2 r))"

definition unquoteEscape :: "string \<Rightarrow> (string \<times> string) option" where
  "unquoteEscape s = (case s of [] \<Rightarrow> None | c # r \<Rightarrow>
     (case map_of simpleEscapes c of
        Some v \<Rightarrow> Some ([v], r)
      | None \<Rightarrow>
          if c = CHR ''x'' then byteEscape (hexVals 0 (take 2 r)) r
          else if c = CHR ''u'' then runeEscape 4 r
          else if c = CHR ''U'' then runeEscape 8 r
          else if c \<in> set ''01234567'' then byteEscape (octVals 0 (c # take 2 r)) r
          else None))"

lemma runeEscape_length: "runeEscape n r = Some (v, r') \<Longrightarrow> length r' \<le> length r"
  by (auto simp: runeEscape_def split: if_splits option.splits)

lemma byteEscape_length: "byteEscape n r = Some (v, r') \<Longrightarrow> length r' \<le> length r"
  by (auto simp: byteEscape_def split: if_splits option.splits)

lemma unquoteEscape_length: "unquoteEscape s = Some (v, r) \<Longrightarrow> length r < length s"
  unfolding unquoteEscape_def
  by (auto split: list.splits if_splits option.splits dest!: runeEscape_length byteEscape_length)

function unquoteBody :: "string \<Rightarrow> string option" where
  "unquoteBody s = (case s of [] \<Rightarrow> Some [] | c # r \<Rightarrow>
     if c = CHR 0x22 then None
     else if c = CHR 0x5C then
       (case unquoteEscape r of None \<Rightarrow> None
        | Some (v, r') \<Rightarrow> map_option (\<lambda>t. v @ t) (unquoteBody r'))
     else map_option (\<lambda>t. c # t) (unquoteBody r))"
  by pat_completeness auto
termination
  by (relation "measure length") (auto dest: unquoteEscape_length)

declare unquoteBody.simps [simp del]

text \<open>\<open>strconv.Unquote\<close> on a string that opens with a double quote.\<close>

definition Unquote :: "string \<Rightarrow> string option" where
  "Unquote s =
     (if length s < 2 \<or> last s \<noteq> CHR 0x22 \<or> hd s \<noteq> CHR 0x22 then None
      else let body = butlast (tl s) in
           if CHR 0x0A \<in> set body then None else unquoteBody body)"

text \<open>A byte that neither quoting nor unquoting touches.\<close>

definition plainByte :: "char \<Rightarrow> bool" where
  "plainByte c \<longleftrightarrow> 32 \<le> (of_char c :: nat) \<and> c \<noteq> CHR 0x7F \<and> c \<noteq> CHR 0x22 \<and> c \<noteq> CHR 0x5C"

lemma plainByte_not_control: "plainByte c \<Longrightarrow> (of_char d :: nat) < 32 \<Longrightarrow> c \<noteq> d"
  unfolding plainByte_def by (metis not_less)

lemma quoteByte_plain:
  assumes "plainByte c"
  shows "quoteByte c = [c]"
proof -
  have "c \<noteq> CHR 0x07" "c \<noteq> CHR 0x08" "c \<noteq> CHR 0x0C" "c \<noteq> CHR 0x0A" "c \<noteq> CHR 0x0D" "c \<noteq> CHR 0x09" "c \<noteq> CHR 0x0B"
    by (rule plainByte_not_control [OF assms], simp)+
  moreover have "\<not> (of_char c :: nat) < 32" "c \<noteq> CHR 0x7F" "c \<noteq> CHR 0x22" "c \<noteq> CHR 0x5C"
    using assms unfolding plainByte_def by linarith+
  ultimately show ?thesis unfolding quoteByte_def by (simp only: if_False simp_thms)
qed

lemma Quote_plain: "list_all plainByte s \<Longrightarrow> Quote s = [CHR 0x22] @ s @ [CHR 0x22]"
  by (induction s) (auto simp: Quote_def quoteByte_plain)

lemma unquoteBody_plain: "list_all plainByte s \<Longrightarrow> unquoteBody s = Some s"
  by (induction s) (auto simp: unquoteBody.simps plainByte_def)

lemma Unquote_plain: "list_all plainByte s \<Longrightarrow> Unquote ([CHR 0x22] @ s @ [CHR 0x22]) = Some s"
proof -
  assume plain: "list_all plainByte s"
  have "CHR 0x0A \<notin> set s"
    using plain plainByte_not_control [of "CHR 0x0A" "CHR 0x0A"] by (auto simp: list_all_iff)
  then show ?thesis
    by (simp add: Unquote_def unquoteBody_plain [OF plain] butlast_append)
qed

end
