(* ===== verification/Sha256.thy ===== *)
theory Sha256
imports Json
begin

text \<open>
  SHA-256 as Go's \<open>crypto/sha256.Sum256\<close> computes it (FIPS 180-4), and its hexadecimal
  rendering: the dedup discriminator of \<open>normalizeObject\<close>.  Nothing below depends on more of
  it than that it is a function of the bytes; it is spelled out so that the model's hash is
  the program's hash.
\<close>

unbundle bit_operations_syntax

text \<open>The constants as the standard defines them: the first 32 bits of the fractional parts of the
  cube roots of the first 64 primes, and of the square roots of the first eight.  The root of
  \<open>p * 2 ^ (32 * k)\<close> rounded down is the root of \<open>p\<close> with 32 fractional bits, and its residue
  modulo \<open>2 ^ 32\<close>, which the conversion to a word takes, is the fraction.\<close>

definition rootBit :: "nat \<Rightarrow> int \<Rightarrow> nat \<Rightarrow> int \<Rightarrow> int" where
  "rootBit k n b r = (if (r + 2 ^ b) ^ k \<le> n then r + 2 ^ b else r)"

definition fractionWord :: "nat \<Rightarrow> nat \<Rightarrow> 32 word" where
  "fractionWord k p = word_of_int (fold (rootBit k (int p * 2 ^ (32 * k))) (rev [0..<40]) 0)"

definition primesBelow :: "nat \<Rightarrow> nat list" where
  "primesBelow n = filter (\<lambda>p. list_all (\<lambda>d. p mod d \<noteq> 0) [2..<p]) [2..<n]"

definition shaK :: "32 word list" where
  "shaK = map (fractionWord 3) (take 64 (primesBelow 312))"

definition shaH0 :: "32 word list" where
  "shaH0 = map (fractionWord 2) (take 8 (primesBelow 312))"

definition shr :: "32 word \<Rightarrow> nat \<Rightarrow> 32 word" where
  "shr w n = drop_bit n w"

definition rotr :: "32 word \<Rightarrow> nat \<Rightarrow> 32 word" where
  "rotr w n = drop_bit n w OR push_bit (32 - n) w"

definition bigSigma0 :: "32 word \<Rightarrow> 32 word" where
  "bigSigma0 w = rotr w 2 XOR rotr w 13 XOR rotr w 22"

definition bigSigma1 :: "32 word \<Rightarrow> 32 word" where
  "bigSigma1 w = rotr w 6 XOR rotr w 11 XOR rotr w 25"

definition smallSigma0 :: "32 word \<Rightarrow> 32 word" where
  "smallSigma0 w = rotr w 7 XOR rotr w 18 XOR shr w 3"

definition smallSigma1 :: "32 word \<Rightarrow> 32 word" where
  "smallSigma1 w = rotr w 17 XOR rotr w 19 XOR shr w 10"

definition bytesToWord :: "char list \<Rightarrow> 32 word" where
  "bytesToWord bs = foldl (\<lambda>acc b. push_bit 8 acc OR word_of_nat (of_char b)) 0 bs"

definition wordToBytes :: "32 word \<Rightarrow> char list" where
  "wordToBytes w = map (\<lambda>i. char_of (unat (drop_bit i w AND 0xff))) [24, 16, 8, 0]"

definition be64 :: "nat \<Rightarrow> char list" where
  "be64 n = map (\<lambda>i. char_of (n div 256 ^ i mod 256)) [7, 6, 5, 4, 3, 2, 1, 0]"

definition shaPad :: "char list \<Rightarrow> char list" where
  "shaPad m =
     (let l = length m; z = (119 - l mod 64) mod 64
      in m @ [CHR 0x80] @ replicate z (CHR 0x00) @ be64 (8 * l))"

fun schedule :: "nat \<Rightarrow> 32 word list \<Rightarrow> 32 word list" where
  "schedule 0 ws = ws"
| "schedule (Suc n) ws =
     (let t = length ws;
          w = smallSigma1 (ws ! (t - 2)) + ws ! (t - 7) + smallSigma0 (ws ! (t - 15)) + ws ! (t - 16)
      in schedule n (ws @ [w]))"

fun shaRound :: "32 word list \<Rightarrow> 32 word \<times> 32 word \<Rightarrow> 32 word list" where
  "shaRound [a, b, c, d, e, f, g, h] (k, w) =
     (let t1 = h + bigSigma1 e + ((e AND f) XOR (NOT e AND g)) + k + w;
          t2 = bigSigma0 a + ((a AND b) XOR (a AND c) XOR (b AND c))
      in [t1 + t2, a, b, c, d + t1, e, f, g])"
| "shaRound s _ = s"

definition chunks4 :: "char list \<Rightarrow> char list list" where
  "chunks4 bs = map (\<lambda>i. take 4 (drop (4 * i) bs)) [0..<16]"

definition shaBlock :: "32 word list \<Rightarrow> char list \<Rightarrow> 32 word list" where
  "shaBlock h blk =
     (let ws = schedule 48 (map bytesToWord (chunks4 blk))
      in map2 (+) h (foldl shaRound h (zip shaK ws)))"

definition shaBlocks :: "char list \<Rightarrow> char list list" where
  "shaBlocks p = map (\<lambda>i. take 64 (drop (64 * i) p)) [0..<length p div 64]"

definition Sum256 :: "string \<Rightarrow> string" where
  "Sum256 m = concat (map wordToBytes (foldl shaBlock shaH0 (shaBlocks (shaPad m))))"

definition sha256Hex :: "string \<Rightarrow> string" where
  "sha256Hex m = hexEncode (Sum256 m)"

section \<open>The digest has a fixed length\<close>

lemma primes_prefix: "8 \<le> length (primesBelow 312)"
proof -
  have "[2..<312] = [2..<20] @ [20..<312 :: nat]"
    using upt_add_eq_append [of 2 20 292] by (simp del: upt_rec_numeral)
  then have "length (primesBelow 312) \<ge> length (primesBelow 20)"
    by (simp add: primesBelow_def del: upt_rec_numeral)
  moreover have "length (primesBelow 20) = 8"
    by (simp add: primesBelow_def)
  ultimately show ?thesis by linarith
qed

lemma length_shaRound: "length (shaRound s kw) = length s"
  by (cases "(s, kw)" rule: shaRound.cases) (auto simp: Let_def)

lemma length_rounds: "length (foldl shaRound s kws) = length s"
  by (induction kws arbitrary: s) (simp_all add: length_shaRound)

lemma length_shaBlocks: "length (foldl shaBlock h bs) = length h"
  by (induction bs arbitrary: h) (simp_all add: shaBlock_def Let_def length_rounds)

lemma length_sha256Hex: "length (sha256Hex m) = 64"
proof -
  have two: "length (concat (map hexByte bs)) = 2 * length bs" for bs
    by (induction bs) (simp_all add: hexByte_def)
  have four: "length (concat (map wordToBytes ws)) = 4 * length ws" for ws
    by (induction ws) (simp_all add: wordToBytes_def)
  have "length shaH0 = 8" using primes_prefix by (simp add: shaH0_def)
  then show ?thesis by (simp add: sha256Hex_def hexEncode_def Sum256_def two four length_shaBlocks)
qed

end
