(* ===== verification/Redact.thy ===== *)
theory Redact
imports Json
begin

text \<open>
  Redaction (\<open>internal/pipeline/redact.go\<close>): the path grammar and its parser, compiled
  policies and their union, and the copy-on-write application to an object.  \<open>red p v\<close> names
  the value part of \<open>redactValue\<close>.  Applications of paths are idempotent and commute, so a
  policy acts as a set of paths; \<open>same_outside p v w\<close> says that two values differ at most at
  the positions p selects, and \<open>select p v\<close> lists the values found there.
\<close>

section \<open>Data\<close>

definition RedactionSentinel :: string where
  "RedactionSentinel = ''[REDACTED]''"

definition LastAppliedConfigAnnotation :: string where
  "LastAppliedConfigAnnotation = ''kubectl.kubernetes.io/last-applied-configuration''"

record redactionSegment =
  segName :: string
  segWildcard :: bool

record redactionPath =
  rpRaw :: string
  rpSegments :: "redactionSegment list"

text \<open>A policy is its list of paths; the nil pointer is None.\<close>

type_synonym RedactionPolicy = "redactionPath list option"

datatype redactError =
    EmptyRedactionPath
  | BadFieldName string string
  | UnterminatedSubscript string
  | BadQuotedKey string string
  | EmptyQuotedKey string
  | BadSubscript string string
  | TrailingDot string
  | ExpectedDot string string

section \<open>Path syntax\<close>

definition isLetterOrUnderscore :: "char \<Rightarrow> bool" where
  "isLetterOrUnderscore c \<longleftrightarrow> (let n = of_char c :: nat in
     97 \<le> n \<and> n \<le> 122 \<or> 65 \<le> n \<and> n \<le> 90) \<or> c = CHR ''_''"

definition isDigitChar :: "char \<Rightarrow> bool" where
  "isDigitChar c \<longleftrightarrow> (let n = of_char c :: nat in 48 \<le> n \<and> n \<le> 57)"

definition redactionSegmentPattern :: "string \<Rightarrow> bool" where
  "redactionSegmentPattern s =
     (case s of [] \<Rightarrow> False
      | c # cs \<Rightarrow> isLetterOrUnderscore c \<and>
          list_all (\<lambda>c. isLetterOrUnderscore c \<or> isDigitChar c \<or> c = CHR ''-'') cs)"

definition AnnotationRedactionPath :: "string \<Rightarrow> string" where
  "AnnotationRedactionPath key = ''metadata.annotations['' @ Quote key @ '']''"

definition parseSegmentName :: "string \<Rightarrow> string \<Rightarrow> redactError + (string \<times> string)" where
  "parseSegmentName raw rest =
     (let name = takeWhile (\<lambda>c. c \<noteq> CHR ''.'' \<and> c \<noteq> CHR ''['') rest;
          remainder = dropWhile (\<lambda>c. c \<noteq> CHR ''.'' \<and> c \<noteq> CHR ''['') rest
      in if redactionSegmentPattern name then Inr (name, remainder) else Inl (BadFieldName raw name))"

text \<open>The optional subscript of a segment: the segments it contributes and what follows.\<close>

definition parseSubscript ::
    "string \<Rightarrow> string \<Rightarrow> string \<Rightarrow> redactError + (redactionSegment list \<times> string)" where
  "parseSubscript raw name rest =
     (case rest of
        c # r \<Rightarrow>
          if c = CHR ''['' then
            (if CHR '']'' \<notin> set rest then Inl (UnterminatedSubscript raw)
             else let subscript = takeWhile (\<lambda>c. c \<noteq> CHR '']'') r;
                      rest' = tl (dropWhile (\<lambda>c. c \<noteq> CHR '']'') r)
                  in if subscript = ''*'' then Inr ([\<lparr>segName = name, segWildcard = True\<rparr>], rest')
                     else if subscript \<noteq> [] \<and> hd subscript = CHR 0x22 then
                       (case Unquote subscript of
                          None \<Rightarrow> Inl (BadQuotedKey raw subscript)
                        | Some key \<Rightarrow>
                            if key = [] then Inl (EmptyQuotedKey raw)
                            else Inr ([\<lparr>segName = name, segWildcard = False\<rparr>,
                                       \<lparr>segName = key, segWildcard = False\<rparr>], rest'))
                     else Inl (BadSubscript raw subscript))
          else Inr ([\<lparr>segName = name, segWildcard = False\<rparr>], rest)
      | [] \<Rightarrow> Inr ([\<lparr>segName = name, segWildcard = False\<rparr>], rest))"

lemma parseSegmentName_length:
  "parseSegmentName raw rest = Inr (name, r) \<Longrightarrow> length r < length rest"
proof -
  assume p: "parseSegmentName raw rest = Inr (name, r)"
  let ?P = "\<lambda>c. c \<noteq> CHR ''.'' \<and> c \<noteq> CHR ''[''"
  have eq: "name = takeWhile ?P rest" "r = dropWhile ?P rest" and ok: "redactionSegmentPattern name"
    using p by (auto simp: parseSegmentName_def Let_def split: if_splits)
  have "name \<noteq> []" using ok by (auto simp: redactionSegmentPattern_def)
  moreover have "length rest = length name + length r"
    unfolding eq by (metis length_append takeWhile_dropWhile_id)
  ultimately show ?thesis by (cases name) auto
qed

lemma length_tl_dropWhile_le: "length (tl (dropWhile P xs)) \<le> length xs"
  by (metis diff_le_self length_dropWhile_le length_tl order_trans)

lemma parseSubscript_length:
  "parseSubscript raw name rest = Inr (segs, r) \<Longrightarrow> length r \<le> length rest"
  using length_tl_dropWhile_le [of "\<lambda>c. c \<noteq> CHR '']''" "tl rest"]
  unfolding parseSubscript_def
  by (cases rest) (auto simp: Let_def split: if_splits option.splits)

function parseSegments ::
    "string \<Rightarrow> string \<Rightarrow> redactionSegment list \<Rightarrow> redactError + redactionSegment list" where
  "parseSegments raw rest segments =
     (case parseSegmentName raw rest of
        Inl e \<Rightarrow> Inl e
      | Inr (name, rest1) \<Rightarrow>
          (case parseSubscript raw name rest1 of
             Inl e \<Rightarrow> Inl e
           | Inr (segs, rest2) \<Rightarrow>
               (case rest2 of
                  [] \<Rightarrow> Inr (segments @ segs)
                | c # rest3 \<Rightarrow>
                    if c = CHR ''.'' then
                      (if rest3 = [] then Inl (TrailingDot raw)
                       else parseSegments raw rest3 (segments @ segs))
                    else Inl (ExpectedDot raw rest2))))"
  by pat_completeness auto
termination
  by (relation "measure (\<lambda>(raw, rest, segs). length rest)")
    (auto dest!: parseSegmentName_length parseSubscript_length)

declare parseSegments.simps [simp del]

definition parseRedactionPath :: "string \<Rightarrow> redactError + redactionPath" where
  "parseRedactionPath raw =
     (if raw = [] then Inl EmptyRedactionPath
      else (case parseSegments raw raw [] of
              Inl e \<Rightarrow> Inl e
            | Inr segs \<Rightarrow> Inr \<lparr>rpRaw = raw, rpSegments = segs\<rparr>))"

section \<open>Policies\<close>

definition builtinPaths :: "string list" where
  "builtinPaths = [AnnotationRedactionPath LastAppliedConfigAnnotation]"

fun compilePaths :: "string list \<Rightarrow> string list \<Rightarrow> redactionPath list \<Rightarrow> redactError + redactionPath list" where
  "compilePaths [] seen compiled = Inr compiled"
| "compilePaths (raw # raws) seen compiled =
     (if raw \<in> set seen then compilePaths raws seen compiled
      else (case parseRedactionPath raw of
              Inl e \<Rightarrow> Inl e
            | Inr path \<Rightarrow> compilePaths raws (raw # seen) (compiled @ [path])))"

definition CompileRedaction :: "string list \<Rightarrow> redactError + RedactionPolicy" where
  "CompileRedaction paths =
     (case compilePaths (paths @ builtinPaths) [] [] of
        Inl e \<Rightarrow> Inl e
      | Inr compiled \<Rightarrow> Inr (Some (sort_key rpRaw compiled)))"

text \<open>\<open>mustCompileRedaction\<close> panics when a built-in path does not compile; None is the panic.\<close>

definition mustCompileRedaction :: "string list \<Rightarrow> redactionPath list option" where
  "mustCompileRedaction paths = (case CompileRedaction paths of Inl e \<Rightarrow> None | Inr policy \<Rightarrow> policy)"

definition builtinRedaction :: "redactionPath list" where
  "builtinRedaction = the (mustCompileRedaction [AnnotationRedactionPath LastAppliedConfigAnnotation])"

fun mergePaths :: "redactionPath list \<Rightarrow> string list \<Rightarrow> redactionPath list \<Rightarrow> string list \<times> redactionPath list" where
  "mergePaths [] seen merged = (seen, merged)"
| "mergePaths (p # ps) seen merged =
     (if rpRaw p \<in> set seen then mergePaths ps seen merged
      else mergePaths ps (rpRaw p # seen) (merged @ [p]))"

fun mergePolicies :: "RedactionPolicy list \<Rightarrow> string list \<Rightarrow> redactionPath list \<Rightarrow> redactionPath list" where
  "mergePolicies [] seen merged = merged"
| "mergePolicies (None # pols) seen merged = mergePolicies pols seen merged"
| "mergePolicies (Some ps # pols) seen merged =
     (case mergePaths ps seen merged of (seen', merged') \<Rightarrow> mergePolicies pols seen' merged')"

definition MergeRedaction :: "RedactionPolicy list \<Rightarrow> RedactionPolicy" where
  "MergeRedaction policies =
     (let merged = mergePolicies policies [] [] in
      if merged = [] then None else Some (sort_key rpRaw merged))"

definition policyPaths :: "RedactionPolicy \<Rightarrow> redactionPath list" where
  "policyPaths p = (case p of None \<Rightarrow> builtinRedaction | Some ps \<Rightarrow> ps)"

definition Paths :: "RedactionPolicy \<Rightarrow> string list" where
  "Paths p = map rpRaw (policyPaths p)"

section \<open>Application\<close>

definition redactElements :: "(json \<Rightarrow> json \<times> bool) \<Rightarrow> json \<Rightarrow> json \<times> bool" where
  "redactElements redactItem value =
     (case value of
        JArr items \<Rightarrow>
          let results = map redactItem items;
              changed = list_ex snd results
          in if \<not> changed then (value, False)
             else (JArr (map2 (\<lambda>item res. if snd res then fst res else item) items results), True)
      | _ \<Rightarrow> (value, False))"

fun redactValue :: "json \<Rightarrow> redactionSegment list \<Rightarrow> json \<times> bool" where
  "redactValue value [] =
     (if value = JStr RedactionSentinel then (value, False) else (JStr RedactionSentinel, True))"
| "redactValue value (segment # segments) =
     (case value of
        JObj object \<Rightarrow>
          (case mget object (segName segment) of
             None \<Rightarrow> (value, False)
           | Some child \<Rightarrow>
               let (replacement, changed) =
                     (if segWildcard segment then redactElements (\<lambda>item. redactValue item segments) child
                      else redactValue child segments)
               in if \<not> changed then (value, False)
                  else (JObj (mput (segName segment) replacement object), True))
      | _ \<Rightarrow> (value, False))"

definition applyPath :: "redactionPath \<Rightarrow> json \<Rightarrow> json" where
  "applyPath path current =
     (case redactValue current (rpSegments path) of (nxt, changed) \<Rightarrow> if changed then nxt else current)"

definition Redact_Apply :: "RedactionPolicy \<Rightarrow> json \<Rightarrow> json" where
  "Redact_Apply p object = fold applyPath (policyPaths p) object"

section \<open>Recursive reading of the application\<close>

abbreviation sentinel :: json where "sentinel \<equiv> JStr RedactionSentinel"

definition red :: "redactionSegment list \<Rightarrow> json \<Rightarrow> json" where
  "red p v = fst (redactValue v p)"

definition redStep :: "redactionSegment \<Rightarrow> (json \<Rightarrow> json) \<Rightarrow> json \<Rightarrow> json" where
  "redStep s f c = (if segWildcard s then (case c of JArr xs \<Rightarrow> JArr (map f xs) | _ \<Rightarrow> c) else f c)"

lemma map2_changed:
  assumes "\<And>x. x \<in> set xs \<Longrightarrow> snd (f x) \<longleftrightarrow> fst (f x) \<noteq> x"
  shows "map2 (\<lambda>item res. if snd res then fst res else item) xs (map f xs) = map (\<lambda>x. fst (f x)) xs"
  using assms by (induction xs) auto

lemma redactElements_spec:
  assumes "\<And>x. snd (f x) \<longleftrightarrow> fst (f x) \<noteq> x"
  shows "fst (redactElements f c) = (case c of JArr xs \<Rightarrow> JArr (map (\<lambda>x. fst (f x)) xs) | _ \<Rightarrow> c) \<and>
    (snd (redactElements f c) \<longleftrightarrow> fst (redactElements f c) \<noteq> c)"
proof (cases c)
  case (JArr xs)
  have same: "map (\<lambda>x. fst (f x)) xs = xs \<longleftrightarrow> \<not> list_ex snd (map f xs)"
    using assms by (induction xs) auto
  have "map2 (\<lambda>item res. if snd res then fst res else item) xs (map f xs) = map (\<lambda>x. fst (f x)) xs"
    by (rule map2_changed) (rule assms)
  then show ?thesis using JArr same by (auto simp: redactElements_def Let_def)
qed (auto simp: redactElements_def)

text \<open>The changed flag is exact: it is set precisely when the returned value differs.\<close>

lemma redactValue_changed: "snd (redactValue v p) \<longleftrightarrow> fst (redactValue v p) \<noteq> v"
proof (induction p arbitrary: v)
  case (Cons s ss)
  have el: "snd (redactElements (\<lambda>item. redactValue item ss) c) \<longleftrightarrow>
      fst (redactElements (\<lambda>item. redactValue item ss) c) \<noteq> c" for c
    using redactElements_spec [of "\<lambda>item. redactValue item ss" c] Cons.IH by blast
  have neq: "mget m k = Some c \<Longrightarrow> x \<noteq> c \<Longrightarrow> mput k x m \<noteq> m" for m k c x
    by (metis mget_mput option.inject)
  show ?case
  proof (cases v)
    case (JObj m)
    show ?thesis
    proof (cases "mget m (segName s)")
      case (Some c)
      obtain r ch where g: "(if segWildcard s then redactElements (\<lambda>item. redactValue item ss) c
          else redactValue c ss) = (r, ch)" by fastforce
      then have "ch \<longleftrightarrow> r \<noteq> c"
        using el [of c] Cons.IH [of c] by (auto split: if_splits)
      then show ?thesis using neq [OF Some, of r] by (auto simp: JObj Some g)
    qed (simp add: JObj)
  qed auto
qed auto

lemma redactValue_eq: "redactValue v p = (red p v, red p v \<noteq> v)"
  using redactValue_changed [of v p] by (simp add: red_def prod_eq_iff)

lemma applyPath_red: "applyPath path v = red (rpSegments path) v"
  by (simp add: applyPath_def redactValue_eq)

lemma red_Nil [simp]: "red [] v = sentinel"
  by (simp add: red_def)

lemma mput_same: "mget m k = Some v \<Longrightarrow> mput k v m = m"
  by (rule AList.update_triv)

lemma red_Cons_obj: "red (s # ss) (JObj m) =
    (case mget m (segName s) of
       None \<Rightarrow> JObj m
     | Some c \<Rightarrow> JObj (mput (segName s) (redStep s (red ss) c) m))"
proof (cases "mget m (segName s)")
  case (Some c)
  have redss: "red ss = (\<lambda>x. fst (redactValue x ss))"
    by (simp add: red_def fun_eq_iff)
  obtain r ch where g: "(if segWildcard s then redactElements (\<lambda>item. redactValue item ss) c
      else redactValue c ss) = (r, ch)" by fastforce
  then have "r = redStep s (red ss) c" "\<not> ch \<Longrightarrow> r = c"
    using redactElements_spec [of "\<lambda>item. redactValue item ss" c, OF redactValue_changed]
      redactValue_changed [of c ss]
    unfolding redStep_def redss by (auto split: if_splits)
  then show ?thesis using g by (auto simp: red_def [of "s # ss"] Some mput_same)
qed (simp add: red_def)

lemma red_Cons_other: "(\<And>m. v \<noteq> JObj m) \<Longrightarrow> red (s # ss) v = v"
  by (cases v) (auto simp: red_def)

text \<open>Updating a key that is present keeps the listing's order, so such updates obey the laws of
  function update as equations between lists.\<close>

lemma mput_mput_same [simp]: "mput k x (mput k y m) = mput k x m"
  by (induction m) auto

lemma mput_swap: "k \<noteq> k' \<Longrightarrow> mget m k \<noteq> None \<Longrightarrow> mget m k' \<noteq> None \<Longrightarrow>
    mput k x (mput k' y m) = mput k' y (mput k x m)"
  by (induction m) (auto split: if_splits)

lemma redStep_idem:
  assumes "\<And>v. f (f v) = f v"
  shows "redStep s f (redStep s f c) = redStep s f c"
  using assms by (auto simp: redStep_def comp_def split: json.splits)

lemma red_idem: "red p (red p v) = red p v"
proof (induction p arbitrary: v)
  case (Cons s ss)
  show ?case
    using redStep_idem [of "red ss" s, OF Cons.IH]
    by (cases v) (auto simp: red_Cons_obj red_Cons_other split: option.splits)
qed simp

lemma redStep_red_commute:
  assumes "\<And>v. red p (red q v) = red q (red p v)"
  shows "redStep s (red p) (redStep t (red q) c) = redStep t (red q) (redStep s (red p) c)"
proof (cases "segWildcard s = segWildcard t")
  case True
  then show ?thesis using assms by (cases c) (auto simp: redStep_def)
next
  case False
  have "(case red ss v of JArr xs \<Rightarrow> JArr (map f xs) | _ \<Rightarrow> red ss v) =
      red ss (case v of JArr xs \<Rightarrow> JArr (map f xs) | _ \<Rightarrow> v)" for ss v and f :: "json \<Rightarrow> json"
  proof (cases ss)
    case (Cons a as)
    then show ?thesis
      by (cases v) (auto simp: red_Cons_obj red_Cons_other split: option.splits)
  qed (auto split: json.splits)
  then show ?thesis using False by (auto simp: redStep_def)
qed

lemma red_commute: "red p (red q v) = red q (red p v)"
proof (induction p arbitrary: q v)
  case Nil
  show ?case by (cases q) (auto simp: red_Cons_other)
next
  case (Cons s ss)
  show ?case
  proof (cases q)
    case Nil
    then show ?thesis by (simp add: red_Cons_other)
  next
    case q: (Cons t ts)
    have step: "redStep s (red ss) (redStep t (red ts) c) = redStep t (red ts) (redStep s (red ss) c)" for c
      by (rule redStep_red_commute) (rule Cons.IH)
    show ?thesis
    proof (cases "\<exists>m. v = JObj m")
      case True
      then obtain m where v: "v = JObj m" by blast
      show ?thesis
        by (cases "segName s = segName t")
          (auto simp: q v red_Cons_obj step mput_swap split: option.splits)
    qed (auto simp: q red_Cons_other)
  qed
qed

section \<open>A policy acts as a set of paths\<close>

interpretation ap: comp_fun_idem_on UNIV applyPath
  by unfold_locales (auto simp: fun_eq_iff applyPath_red red_commute red_idem)

lemma Redact_Apply_set: "Redact_Apply p v = Finite_Set.fold applyPath v (set (policyPaths p))"
  unfolding Redact_Apply_def by (simp add: ap.fold_set_fold)

lemma fold_applyPath_first:
  assumes "p \<in> set ps"
  shows "fold applyPath ps v = fold applyPath ps (applyPath p v)"
proof -
  have "fold applyPath ps (applyPath p v) = fold applyPath (p # ps) v" by simp
  also have "\<dots> = Finite_Set.fold applyPath v (set (p # ps))"
    by (rule ap.fold_set_fold [symmetric]) simp
  also have "\<dots> = Finite_Set.fold applyPath v (set ps)"
    using assms by (simp add: insert_absorb)
  also have "\<dots> = fold applyPath ps v" by (rule ap.fold_set_fold) simp
  finally show ?thesis ..
qed

lemma fold_applyPath_last:
  assumes "p \<in> set ps"
  shows "applyPath p (fold applyPath ps v) = fold applyPath ps v"
proof -
  have "applyPath p (fold applyPath ps v) = fold applyPath (ps @ [p]) v" by simp
  also have "\<dots> = Finite_Set.fold applyPath v (set (ps @ [p]))"
    by (rule ap.fold_set_fold [symmetric]) simp
  also have "\<dots> = Finite_Set.fold applyPath v (set ps)"
    using assms by (simp add: insert_absorb)
  also have "\<dots> = fold applyPath ps v" by (rule ap.fold_set_fold) simp
  finally show ?thesis .
qed

section \<open>What a path selects\<close>

fun select :: "redactionSegment list \<Rightarrow> json \<Rightarrow> json list" where
  "select [] v = [v]"
| "select (s # ss) v =
     (case v of
        JObj m \<Rightarrow>
          (case mget m (segName s) of
             None \<Rightarrow> []
           | Some c \<Rightarrow>
               if segWildcard s then (case c of JArr xs \<Rightarrow> concat (map (select ss) xs) | _ \<Rightarrow> [])
               else select ss c)
      | _ \<Rightarrow> [])"

lemma red_fixed_select: "red p v = v \<Longrightarrow> x \<in> set (select p v) \<Longrightarrow> x = sentinel"
proof (induction p arbitrary: v)
  case (Cons s ss)
  have "\<exists>m c. v = JObj m \<and> mget m (segName s) = Some c"
  proof (cases v)
    case (JObj m)
    then show ?thesis using Cons.prems(2) by (cases "mget m (segName s)") simp_all
  qed (use Cons.prems(2) in simp_all)
  then obtain m c where v: "v = JObj m" and c: "mget m (segName s) = Some c" by blast
  have "mput (segName s) (redStep s (red ss) c) m = m"
    using Cons.prems(1) by (simp add: v c red_Cons_obj)
  then have fixd: "redStep s (red ss) c = c" by (metis c mget_mput option.inject)
  show ?case
  proof (cases "segWildcard s")
    case True
    then obtain xs where c': "c = JArr xs" and x: "x \<in> set (concat (map (select ss) xs))"
      using Cons.prems(2) by (cases c) (simp_all add: v c)
    then have "map (red ss) xs = xs" using fixd True by (simp add: redStep_def)
    then have "\<forall>y \<in> set xs. red ss y = y" by (metis map_eq_conv map_ident)
    then show ?thesis using x Cons.IH by auto
  next
    case False
    then show ?thesis using Cons fixd by (simp add: v c redStep_def)
  qed
qed simp

text \<open>Two values that differ at most at the selected positions.  Objects are compared under one
  listing of their common keys.\<close>

fun same_outside :: "redactionSegment list \<Rightarrow> json \<Rightarrow> json \<Rightarrow> bool" where
  "same_outside [] v w = True"
| "same_outside (s # ss) v w =
     (v = w \<or>
      (case (v, w) of
         (JObj a, JObj b) \<Rightarrow>
           distinct (map fst a) \<and> map fst a = map fst b \<and>
           list_all2 (\<lambda>x y. fst x \<noteq> segName s \<longrightarrow> snd x = snd y) a b \<and>
           (case (mget a (segName s), mget b (segName s)) of
              (Some c, Some d) \<Rightarrow>
                if segWildcard s
                then c = d \<or> (case (c, d) of (JArr xs, JArr ys) \<Rightarrow> list_all2 (same_outside ss) xs ys | _ \<Rightarrow> False)
                else same_outside ss c d
            | _ \<Rightarrow> True)
       | _ \<Rightarrow> False))"

lemma same_off_absent:
  assumes "list_all2 (\<lambda>x y. fst x \<noteq> k \<longrightarrow> snd x = snd y) a b" "map fst a = map fst b"
    and "k \<notin> set (map fst a)"
  shows "a = b"
  using assms by (induction rule: list_all2_induct) (auto simp: prod_eq_iff)

lemma mput_same_outside:
  assumes "distinct (map fst a)" "map fst a = map fst b" "mget a k \<noteq> None"
    and "list_all2 (\<lambda>x y. fst x \<noteq> k \<longrightarrow> snd x = snd y) a b"
  shows "mput k z a = mput k z b"
  using assms
proof (induction a arbitrary: b)
  case (Cons x a)
  obtain y b' where b: "b = y # b'" using Cons.prems(2) by (cases b) auto
  obtain kx vx ky vy where xy: "x = (kx, vx)" "y = (ky, vy)" by (cases x; cases y)
  have k: "kx = ky" using Cons.prems(2) by (simp add: b xy)
  show ?case
  proof (cases "kx = k")
    case True
    have "a = b'"
    proof (rule same_off_absent)
      show "k \<notin> set (map fst a)" using Cons.prems(1) True by (auto simp: xy)
    qed (use Cons.prems in \<open>auto simp: b xy\<close>)
    then show ?thesis using True k by (simp add: b xy)
  next
    case False
    then have "mput k z a = mput k z b'"
      using Cons.prems by (intro Cons.IH) (auto simp: b xy split: if_splits)
    then show ?thesis using False k Cons.prems(4) by (simp add: b xy)
  qed
qed simp

lemma red_same_outside: "same_outside p v w \<Longrightarrow> red p v = red p w"
proof (induction p arbitrary: v w)
  case (Cons s ss)
  show ?case
  proof (cases "v = w")
    case False
    with Cons.prems obtain a b where vw: "v = JObj a" "w = JObj b"
      and keys: "distinct (map fst a)" "map fst a = map fst b"
      and off: "list_all2 (\<lambda>x y. fst x \<noteq> segName s \<longrightarrow> snd x = snd y) a b"
      by (auto split: json.splits)
    have dom: "mget a (segName s) = None \<longleftrightarrow> mget b (segName s) = None"
      using keys(2) by (metis map_of_eq_None_iff set_map)
    show ?thesis
    proof (cases "mget a (segName s)")
      case None
      have "a = b"
        by (rule same_off_absent [OF off keys(2)]) (use None in \<open>simp add: map_of_eq_None_iff\<close>)
      then show ?thesis by (simp add: vw)
    next
      case (Some c)
      then obtain d where d: "mget b (segName s) = Some d" using dom by (cases "mget b (segName s)") auto
      have "redStep s (red ss) c = redStep s (red ss) d"
      proof (cases "segWildcard s")
        case True
        with Cons.prems False consider "c = d"
          | xs ys where "c = JArr xs" "d = JArr ys" "list_all2 (same_outside ss) xs ys"
          by (auto simp: vw Some d split: json.splits)
        then show ?thesis
        proof cases
          case 2
          then have "map (red ss) xs = map (red ss) ys"
            using Cons.IH by (auto simp: list_all2_conv_all_nth intro!: nth_equalityI)
          then show ?thesis using 2 True by (simp add: redStep_def)
        qed simp
      next
        case wild: False
        then show ?thesis using Cons.IH [of c d] Cons.prems False by (simp add: vw Some d redStep_def)
      qed
      then show ?thesis
        using mput_same_outside [OF keys _ off] Some d by (simp add: vw red_Cons_obj)
    qed
  qed simp
qed simp

section \<open>Compilation and merging\<close>

text \<open>Every path of a policy in the program is the parse of its own text.\<close>

definition compiled :: "redactionPath list \<Rightarrow> bool" where
  "compiled ps \<longleftrightarrow> (\<forall>p \<in> set ps. parseRedactionPath (rpRaw p) = Inr p)"

lemma parseRedactionPath_raw: "parseRedactionPath raw = Inr p \<Longrightarrow> rpRaw p = raw"
  by (auto simp: parseRedactionPath_def split: if_splits sum.splits)

lemma compilePaths_Inr:
  assumes "compilePaths raws seen cs = Inr ps" "set (map rpRaw cs) = set seen"
    and "distinct (map rpRaw cs)" "compiled cs"
  shows "compiled ps \<and> distinct (map rpRaw ps) \<and> set (map rpRaw ps) = set raws \<union> set seen"
  using assms
proof (induction raws arbitrary: seen cs)
  case (Cons raw raws)
  show ?case
  proof (cases "raw \<in> set seen")
    case True
    then show ?thesis using Cons.IH [of seen cs] Cons.prems by auto
  next
    case False
    then obtain p where p: "parseRedactionPath raw = Inr p"
      and rec: "compilePaths raws (raw # seen) (cs @ [p]) = Inr ps"
      using Cons.prems(1) by (auto split: sum.splits)
    have "rpRaw p = raw" by (rule parseRedactionPath_raw [OF p])
    then show ?thesis
      using Cons.IH [OF rec] Cons.prems(2-4) False p by (auto simp: compiled_def)
  qed
qed auto

lemma compilePaths_Inl:
  "compilePaths raws seen cs = Inl e \<Longrightarrow> \<exists>raw \<in> set raws. parseRedactionPath raw = Inl e"
  by (induction raws arbitrary: seen cs) (auto split: if_splits sum.splits)

lemma sort_key_raw_paths:
  "distinct (map rpRaw ps) \<Longrightarrow> map rpRaw (sort_key rpRaw ps) = sorted_set (map rpRaw ps)"
  by (rule sorted_distinct_set_unique) (auto simp: distinct_map)

lemma CompileRedaction_Inr:
  assumes "CompileRedaction paths = Inr pol"
  shows "\<exists>ps. pol = Some ps \<and> compiled ps \<and> map rpRaw ps = sorted_set (paths @ builtinPaths)"
proof -
  obtain cs where cs: "compilePaths (paths @ builtinPaths) [] [] = Inr cs" and pol: "pol = Some (sort_key rpRaw cs)"
    using assms by (auto simp: CompileRedaction_def split: sum.splits)
  have "compiled cs \<and> distinct (map rpRaw cs) \<and> set (map rpRaw cs) = set (paths @ builtinPaths)"
    using compilePaths_Inr [OF cs] by (simp add: compiled_def)
  then have "compiled (sort_key rpRaw cs)" "map rpRaw (sort_key rpRaw cs) = sorted_set (paths @ builtinPaths)"
    using sort_key_raw_paths [of cs] sorted_set_cong [of "map rpRaw cs" "paths @ builtinPaths"]
    by (auto simp: compiled_def)
  then show ?thesis using pol by blast
qed

lemma CompileRedaction_Inl:
  "CompileRedaction paths = Inl e \<Longrightarrow> \<exists>raw \<in> set (paths @ builtinPaths). parseRedactionPath raw = Inl e"
  using compilePaths_Inl by (fastforce simp: CompileRedaction_def split: sum.splits)

lemma compiled_inj: "compiled ps \<Longrightarrow> compiled qs \<Longrightarrow> p \<in> set ps \<Longrightarrow> q \<in> set qs \<Longrightarrow> rpRaw p = rpRaw q \<Longrightarrow> p = q"
  unfolding compiled_def by (metis sum.inject(2))

lemma mergePaths_spec:
  assumes "mergePaths ps seen merged = (seen', merged')" "set (map rpRaw merged) = set seen"
    and "compiled (merged @ ps)"
  shows "set (map rpRaw merged') = set seen' \<and> set merged' = set merged \<union> set ps"
  using assms
proof (induction ps arbitrary: seen merged)
  case (Cons p ps)
  show ?case
  proof (cases "rpRaw p \<in> set seen")
    case True
    then have "rpRaw p \<in> rpRaw ` set merged" using Cons.prems(2) by simp
    then obtain q where "q \<in> set merged" "rpRaw q = rpRaw p" by (metis imageE)
    then have "p \<in> set merged"
      using compiled_inj [of "merged @ p # ps" "merged @ p # ps" q p] Cons.prems(3) by auto
    then show ?thesis using Cons.IH [of seen merged] Cons.prems True by (auto simp: compiled_def)
  next
    case False
    then show ?thesis
      using Cons.IH [of "rpRaw p # seen" "merged @ [p]"] Cons.prems by (auto simp: compiled_def)
  qed
qed auto

lemma mergePolicies_spec:
  assumes "set (map rpRaw merged) = set seen" "compiled merged" "\<forall>ps. Some ps \<in> set pols \<longrightarrow> compiled ps"
  shows "set (mergePolicies pols seen merged) = set merged \<union> (\<Union>ps \<in> {ps. Some ps \<in> set pols}. set ps)"
  using assms
proof (induction pols seen merged rule: mergePolicies.induct)
  case (3 ps pols seen merged)
  obtain seen' merged' where m: "mergePaths ps seen merged = (seen', merged')" by fastforce
  have "compiled (merged @ ps)" using 3(3,4) by (auto simp: compiled_def)
  then have spec: "set (map rpRaw merged') = set seen'" "set merged' = set merged \<union> set ps"
    using mergePaths_spec [OF m 3(2)] by blast+
  have "compiled merged'" using 3(3,4) spec(2) by (auto simp: compiled_def)
  then show ?case using 3(1) [OF m [symmetric] spec(1)] 3(4) spec(2) m by auto
qed auto

section \<open>Parsing\<close>

definition renderSegment :: "redactionSegment \<Rightarrow> string" where
  "renderSegment s = segName s @ (if segWildcard s then ''[*]'' else '''')"

definition renderPath :: "redactionSegment list \<Rightarrow> string" where
  "renderPath segs = join ''.'' (map renderSegment segs)"

lemma nameChar_iff: "isLetterOrUnderscore c \<or> isDigitChar c \<or> c = CHR ''-'' \<Longrightarrow> c \<noteq> CHR ''.'' \<and> c \<noteq> CHR ''[''"
  by (auto simp: isLetterOrUnderscore_def isDigitChar_def Let_def)

lemma segmentPattern_chars:
  assumes "redactionSegmentPattern n" "c \<in> set n"
  shows "c \<noteq> CHR ''.'' \<and> c \<noteq> CHR ''[''"
  using assms nameChar_iff [of c] unfolding redactionSegmentPattern_def
  by (cases n) (auto simp: list_all_iff)

lemma parseSegmentName_app:
  assumes "redactionSegmentPattern n" "r = [] \<or> hd r = CHR ''.'' \<or> hd r = CHR ''[''"
  shows "parseSegmentName raw (n @ r) = Inr (n, r)"
proof -
  let ?P = "\<lambda>c. c \<noteq> CHR ''.'' \<and> c \<noteq> CHR ''[''"
  have all: "\<forall>c \<in> set n. ?P c" using segmentPattern_chars [OF assms(1)] by blast
  have "takeWhile ?P r = []" "dropWhile ?P r = r" using assms(2) by (cases r; auto)+
  then have "takeWhile ?P (n @ r) = n" "dropWhile ?P (n @ r) = r"
    using all by (auto simp: takeWhile_append2 dropWhile_append2)
  then show ?thesis using assms(1) by (simp add: parseSegmentName_def)
qed

lemma parseSubscript_render:
  assumes "r = [] \<or> hd r = CHR ''.''"
  shows "parseSubscript raw (segName s) ((if segWildcard s then ''[*]'' else '''') @ r) = Inr ([s], r)"
  using assms by (cases s; cases r) (auto simp: parseSubscript_def)

lemma parseSegments_render:
  assumes "segs \<noteq> []" "\<forall>s \<in> set segs. redactionSegmentPattern (segName s)"
  shows "parseSegments raw (renderPath segs) acc = Inr (acc @ segs)"
  using assms
proof (induction segs arbitrary: acc)
  case (Cons s segs)
  define r where "r = (if segs = [] then [] else CHR ''.'' # renderPath segs)"
  have rp: "renderPath (s # segs) = segName s @ ((if segWildcard s then ''[*]'' else '''') @ r)"
    by (cases segs) (auto simp: renderPath_def renderSegment_def r_def)
  have n: "parseSegmentName raw (renderPath (s # segs)) =
      Inr (segName s, (if segWildcard s then ''[*]'' else '''') @ r)"
    unfolding rp by (rule parseSegmentName_app) (use Cons.prems in \<open>auto simp: r_def\<close>)
  have sub: "parseSubscript raw (segName s) ((if segWildcard s then ''[*]'' else '''') @ r) = Inr ([s], r)"
    by (rule parseSubscript_render) (simp add: r_def)
  show ?case
  proof (cases "segs = []")
    case True
    then show ?thesis using n sub by (subst parseSegments.simps) (simp add: r_def)
  next
    case False
    then have ne: "renderPath segs \<noteq> []"
      using Cons.prems(2) by (cases segs; cases "tl segs")
        (auto simp: renderPath_def renderSegment_def redactionSegmentPattern_def)
    show ?thesis using n sub ne False Cons.IH [of "acc @ [s]"] Cons.prems(2)
      by (subst parseSegments.simps) (simp add: r_def)
  qed
qed simp

text \<open>An annotation key of the API's pattern is printable ASCII without quotes or brackets.\<close>

definition plainKey :: "string \<Rightarrow> bool" where
  "plainKey key \<longleftrightarrow> key \<noteq> [] \<and> list_all (\<lambda>c. plainByte c \<and> c \<noteq> CHR '']'') key"

lemma parse_annotation_path:
  assumes "plainKey key"
  shows "parseRedactionPath (AnnotationRedactionPath key) =
    Inr \<lparr>rpRaw = AnnotationRedactionPath key,
         rpSegments = [\<lparr>segName = ''metadata'', segWildcard = False\<rparr>,
                       \<lparr>segName = ''annotations'', segWildcard = False\<rparr>,
                       \<lparr>segName = key, segWildcard = False\<rparr>]\<rparr>"
proof -
  let ?raw = "AnnotationRedactionPath key"
  have plain: "list_all plainByte key" and nb: "CHR '']'' \<notin> set key" and ne: "key \<noteq> []"
    using assms by (auto simp: plainKey_def list_all_iff)
  define sub where "sub = [CHR 0x22] @ key @ [CHR 0x22]"
  have raw: "?raw = ''metadata'' @ ''.annotations['' @ sub @ '']''"
    by (simp add: AnnotationRedactionPath_def Quote_plain [OF plain] sub_def)
  have pats: "redactionSegmentPattern ''metadata''" "redactionSegmentPattern ''annotations''"
    by (simp_all add: redactionSegmentPattern_def isLetterOrUnderscore_def)
  have n1: "parseSegmentName ?raw ?raw = Inr (''metadata'', ''.annotations['' @ sub @ '']'')"
    unfolding raw by (rule parseSegmentName_app [OF pats(1)]) simp
  have s1: "parseSubscript ?raw ''metadata'' (''.annotations['' @ sub @ '']'') =
      Inr ([\<lparr>segName = ''metadata'', segWildcard = False\<rparr>], ''.annotations['' @ sub @ '']'')"
    by (simp add: parseSubscript_def)
  have n2: "parseSegmentName ?raw (''annotations'' @ ''['' @ sub @ '']'') = Inr (''annotations'', ''['' @ sub @ '']'')"
    by (rule parseSegmentName_app [OF pats(2)]) simp
  have "CHR '']'' \<notin> set sub" using nb by (simp add: sub_def)
  then have "takeWhile (\<lambda>c. c \<noteq> CHR '']'') (sub @ '']'') = sub" "dropWhile (\<lambda>c. c \<noteq> CHR '']'') (sub @ '']'') = '']''"
    by (simp_all add: takeWhile_delim dropWhile_delim)
  moreover have "Unquote sub = Some key" unfolding sub_def by (rule Unquote_plain [OF plain])
  moreover have "sub \<noteq> ''*''" "sub \<noteq> []" "hd sub = CHR 0x22" by (auto simp: sub_def)
  ultimately have s2: "parseSubscript ?raw ''annotations'' (''['' @ sub @ '']'') =
      Inr ([\<lparr>segName = ''annotations'', segWildcard = False\<rparr>, \<lparr>segName = key, segWildcard = False\<rparr>], [])"
    using ne by (simp add: parseSubscript_def)
  have p2: "parseSegments ?raw (''annotations['' @ sub @ '']'') acc = Inr (acc @
      [\<lparr>segName = ''annotations'', segWildcard = False\<rparr>, \<lparr>segName = key, segWildcard = False\<rparr>])" for acc
    using n2 s2 by (subst parseSegments.simps) simp
  have "parseSegments ?raw ?raw [] = Inr [\<lparr>segName = ''metadata'', segWildcard = False\<rparr>,
      \<lparr>segName = ''annotations'', segWildcard = False\<rparr>, \<lparr>segName = key, segWildcard = False\<rparr>]"
    using n1 s1 p2 by (subst parseSegments.simps) simp
  then show ?thesis by (simp add: parseRedactionPath_def raw)
qed

lemma plainKey_LastApplied: "plainKey LastAppliedConfigAnnotation"
  by (simp add: plainKey_def LastAppliedConfigAnnotation_def plainByte_def)

definition lastAppliedPath :: redactionPath where
  "lastAppliedPath = \<lparr>rpRaw = AnnotationRedactionPath LastAppliedConfigAnnotation,
     rpSegments = [\<lparr>segName = ''metadata'', segWildcard = False\<rparr>,
                   \<lparr>segName = ''annotations'', segWildcard = False\<rparr>,
                   \<lparr>segName = LastAppliedConfigAnnotation, segWildcard = False\<rparr>]\<rparr>"

lemma parse_builtin: "parseRedactionPath (AnnotationRedactionPath LastAppliedConfigAnnotation) = Inr lastAppliedPath"
  unfolding lastAppliedPath_def by (rule parse_annotation_path [OF plainKey_LastApplied])

lemma mustCompile_builtin:
  "mustCompileRedaction [AnnotationRedactionPath LastAppliedConfigAnnotation] = Some [lastAppliedPath]"
  by (simp add: mustCompileRedaction_def CompileRedaction_def builtinPaths_def parse_builtin)

lemma builtinRedaction_eq: "builtinRedaction = [lastAppliedPath]"
  by (simp add: builtinRedaction_def mustCompile_builtin)

lemma compiled_policy_has_builtin:
  assumes "CompileRedaction paths = Inr pol"
  shows "lastAppliedPath \<in> set (policyPaths pol)"
proof -
  obtain ps where ps: "pol = Some ps" "compiled ps" "map rpRaw ps = sorted_set (paths @ builtinPaths)"
    using CompileRedaction_Inr [OF assms] by blast
  have "AnnotationRedactionPath LastAppliedConfigAnnotation \<in> set (map rpRaw ps)"
    unfolding ps(3) by (simp add: builtinPaths_def)
  then obtain p where "p \<in> set ps" "rpRaw p = AnnotationRedactionPath LastAppliedConfigAnnotation" by auto
  then show ?thesis
    using ps(1,2) parse_builtin by (auto simp: policyPaths_def compiled_def)
qed

section \<open>Properties\<close>

text \<open>C35. Redaction leaves no selected value behind and acts as a set of paths: after a policy
  is applied every value any of its paths selects is the sentinel, applying the policy again
  changes nothing, and two policies with the same set of paths redact alike whatever their
  order.\<close>

theorem redaction_complete:
  assumes "p \<in> set (policyPaths pol)" "set (policyPaths pol') = set (policyPaths pol)"
  shows "set (select (rpSegments p) (Redact_Apply pol v)) \<subseteq> {sentinel} \<and>
    Redact_Apply pol (Redact_Apply pol v) = Redact_Apply pol v \<and>
    Redact_Apply pol' v = Redact_Apply pol v"
proof -
  have "red (rpSegments p) (Redact_Apply pol v) = Redact_Apply pol v"
    using fold_applyPath_last [OF assms(1)] by (simp add: Redact_Apply_def applyPath_red)
  then have "set (select (rpSegments p) (Redact_Apply pol v)) \<subseteq> {sentinel}"
    using red_fixed_select by blast
  moreover have "fold applyPath ps w = w" if "set ps \<subseteq> set (policyPaths pol)" "w = Redact_Apply pol v" for ps w
    using that by (induction ps) (auto simp: Redact_Apply_def fold_applyPath_last)
  ultimately show ?thesis
    using assms(2) by (simp add: Redact_Apply_set [of pol'] Redact_Apply_set [of pol, symmetric])
      (simp add: Redact_Apply_def)
qed

theorem redaction_complete_witness:
  "select [\<lparr>segName = ''data'', segWildcard = False\<rparr>]
     (Redact_Apply (Some [\<lparr>rpRaw = ''data'', rpSegments = [\<lparr>segName = ''data'', segWildcard = False\<rparr>]\<rparr>])
       (JObj [(''data'', JInt 7)])) = [sentinel]"
  using redaction_complete [of "\<lparr>rpRaw = ''data'', rpSegments = [\<lparr>segName = ''data'', segWildcard = False\<rparr>]\<rparr>"
      "Some [\<lparr>rpRaw = ''data'', rpSegments = [\<lparr>segName = ''data'', segWildcard = False\<rparr>]\<rparr>]"
      "Some [\<lparr>rpRaw = ''data'', rpSegments = [\<lparr>segName = ''data'', segWildcard = False\<rparr>]\<rparr>]"
      "JObj [(''data'', JInt 7)]"]
  by (simp add: policyPaths_def Redact_Apply_def applyPath_red red_Cons_obj redStep_def)

text \<open>Merging policies is a union: the merge of two compiled policies redacts exactly what
  applying one after the other redacts, so no rule's presence can unredact another's stream.\<close>

theorem merge_is_composition:
  assumes "CompileRedaction a = Inr pa" "CompileRedaction b = Inr pb"
  shows "Redact_Apply (MergeRedaction [pa, pb]) v = Redact_Apply pa (Redact_Apply pb v)"
proof -
  obtain ps qs where ps: "pa = Some ps" "compiled ps" and qs: "pb = Some qs" "compiled qs"
    using CompileRedaction_Inr [OF assms(1)] CompileRedaction_Inr [OF assms(2)] by blast
  let ?m = "mergePolicies [Some ps, Some qs] [] []"
  have m: "set ?m = set ps \<union> set qs"
    using mergePolicies_spec [of "[]" "[]" "[Some ps, Some qs]"] ps(2) qs(2) by (auto simp: compiled_def)
  have "lastAppliedPath \<in> set ps"
    using compiled_policy_has_builtin [OF assms(1)] by (simp add: ps(1) policyPaths_def)
  then have "?m \<noteq> []" using m by (metis Un_iff empty_iff list.set(1))
  then have "set (policyPaths (MergeRedaction [pa, pb])) = set (qs @ ps)"
    using m by (auto simp: MergeRedaction_def ps(1) qs(1) policyPaths_def Let_def)
  then have "Redact_Apply (MergeRedaction [pa, pb]) v = Finite_Set.fold applyPath v (set (qs @ ps))"
    by (simp add: Redact_Apply_set)
  also have "\<dots> = fold applyPath (qs @ ps) v" by (rule ap.fold_set_fold) simp
  finally show ?thesis by (simp add: Redact_Apply_def ps(1) qs(1) policyPaths_def)
qed

theorem merge_is_composition_witness:
  "Redact_Apply (MergeRedaction [Some [lastAppliedPath], Some [lastAppliedPath]]) JNull =
   Redact_Apply (Some [lastAppliedPath]) (Redact_Apply (Some [lastAppliedPath]) JNull)"
  by (rule merge_is_composition [of "[]" _ "[]"])
    (simp_all add: CompileRedaction_def builtinPaths_def parse_builtin)

text \<open>Compiling a policy either fails, and then some given path does not parse, or yields
  exactly the given paths and the built-in one, each once and sorted by text; the built-in
  path compiles, so under every policy, the nil policy included, the last-applied annotation
  of any object is the sentinel.\<close>

theorem compile_keeps_builtin:
  "case CompileRedaction paths of
     Inl e \<Rightarrow> \<exists>raw \<in> set paths. parseRedactionPath raw = Inl e
   | Inr pol \<Rightarrow> Paths pol = sorted_set (paths @ builtinPaths) \<and>
       (\<forall>pol' \<in> {None, pol}. set (select (rpSegments lastAppliedPath) (Redact_Apply pol' v)) \<subseteq> {sentinel})"
proof (cases "CompileRedaction paths")
  case (Inl e)
  then show ?thesis using CompileRedaction_Inl [OF Inl] parse_builtin by (auto simp: builtinPaths_def)
next
  case (Inr pol)
  obtain ps where ps: "pol = Some ps" "map rpRaw ps = sorted_set (paths @ builtinPaths)"
    using CompileRedaction_Inr [OF Inr] by blast
  have scrub: "set (select (rpSegments lastAppliedPath) (Redact_Apply pol' v)) \<subseteq> {sentinel}"
    if "lastAppliedPath \<in> set (policyPaths pol')" for pol'
  proof -
    have "red (rpSegments lastAppliedPath) (Redact_Apply pol' v) = Redact_Apply pol' v"
      using fold_applyPath_last [OF that] by (simp add: Redact_Apply_def applyPath_red)
    then show ?thesis using red_fixed_select by blast
  qed
  have "lastAppliedPath \<in> set (policyPaths None)"
    by (simp add: policyPaths_def builtinRedaction_eq)
  then show ?thesis
    using scrub compiled_policy_has_builtin [OF Inr] ps Inr by (simp add: Paths_def policyPaths_def)
qed

theorem compile_keeps_builtin_witness:
  "Paths (Some [lastAppliedPath]) = sorted_set ([] @ builtinPaths)"
  using compile_keeps_builtin [of "[]" JNull]
  by (simp add: CompileRedaction_def builtinPaths_def parse_builtin)

text \<open>C38. The path grammar round-trips: the text of any non-empty list of valid field names,
  each with an optional array wildcard, parses back to exactly those segments, and the
  canonical path of an annotation key parses to the three map steps that reach it.  So every
  path the API's field-path pattern admits compiles.\<close>

theorem parse_render_roundtrip:
  assumes "segs \<noteq> []" "\<forall>s \<in> set segs. redactionSegmentPattern (segName s)" "plainKey key"
  shows "parseRedactionPath (renderPath segs) = Inr \<lparr>rpRaw = renderPath segs, rpSegments = segs\<rparr> \<and>
    map_sum id (map segName \<circ> rpSegments) (parseRedactionPath (AnnotationRedactionPath key)) =
      Inr [''metadata'', ''annotations'', key]"
proof -
  have "renderPath segs \<noteq> []"
    using assms(1,2) by (cases segs; cases "tl segs")
      (auto simp: renderPath_def renderSegment_def redactionSegmentPattern_def)
  then show ?thesis
    using parseSegments_render [OF assms(1,2), of "renderPath segs" "[]"] parse_annotation_path [OF assms(3)]
    by (simp add: parseRedactionPath_def)
qed

theorem parse_render_roundtrip_witness:
  "parseRedactionPath ''env[*].value'' = Inr \<lparr>rpRaw = ''env[*].value'',
     rpSegments = [\<lparr>segName = ''env'', segWildcard = True\<rparr>, \<lparr>segName = ''value'', segWildcard = False\<rparr>]\<rparr>"
  using parse_render_roundtrip [of "[\<lparr>segName = ''env'', segWildcard = True\<rparr>, \<lparr>segName = ''value'', segWildcard = False\<rparr>]" "''k''"]
  by (simp add: renderPath_def renderSegment_def redactionSegmentPattern_def isLetterOrUnderscore_def
      plainKey_def plainByte_def)

end
