(* ===== verification/Normalize.thy ===== *)
theory Normalize
imports Redact Sha256
begin

text \<open>
  From a live object to the bytes that are hashed, diffed and stored: actor harvesting
  (\<open>internal/pipeline/actors.go\<close>), stripping of volatile fields and \<open>normalizeObject\<close>
  (\<open>internal/pipeline/process.go\<close>), and the informer transform \<open>TransformObject\<close>
  (\<open>internal/watch/pool.go\<close>).  The typed accessors of apimachinery's unstructured package are
  the parameter \<open>uapi\<close>; \<open>uapi_ok\<close> states their documented behaviour.
\<close>

section \<open>Accessors of unstructured objects\<close>

record uapi =
  uGetUID :: "jobj \<Rightarrow> string"
  uGetResourceVersion :: "jobj \<Rightarrow> string"
  uGetVersion :: "jobj \<Rightarrow> string"
  uGetLabels :: "jobj \<Rightarrow> (string, string) gomap option"
  uGetAnnotations :: "jobj \<Rightarrow> (string, string) gomap option"
  uNestedFieldNoCopy :: "string list \<Rightarrow> jobj \<Rightarrow> unit + json option"
  uSetAnnotations :: "(string, string) gomap \<Rightarrow> jobj \<Rightarrow> jobj"
  uRemoveNestedField :: "string list \<Rightarrow> jobj \<Rightarrow> jobj"

section \<open>Actors\<close>

definition ActorsAnnotation :: string where
  "ActorsAnnotation = ''internal.kuberecord.io/actors''"

definition actorsSeparator :: char where "actorsSeparator = CHR '',''"

definition EncodeActors :: "string list \<Rightarrow> string" where
  "EncodeActors actors = join [actorsSeparator] actors"

definition decodeActors :: "string \<Rightarrow> string list" where
  "decodeActors value = filter (\<lambda>part. part \<noteq> '''') (split_on actorsSeparator value)"

fun managerNames :: "json list \<Rightarrow> string list" where
  "managerNames [] = []"
| "managerNames (entry # entries) =
     (case entry of
        JObj m \<Rightarrow>
          (let manager = (case mget m ''manager'' of Some (JStr s) \<Rightarrow> s | _ \<Rightarrow> '''')
           in (if manager = '''' then ''unknown'' else manager) # managerNames entries)
      | _ \<Rightarrow> managerNames entries)"

definition ExtractActors :: "uapi \<Rightarrow> jobj \<Rightarrow> string list" where
  "ExtractActors u obj =
     (case uNestedFieldNoCopy u [''metadata'', ''managedFields''] obj of
        Inl _ \<Rightarrow> []
      | Inr None \<Rightarrow> []
      | Inr (Some raw) \<Rightarrow>
          (case raw of
             JArr managedFields \<Rightarrow> sorted_set (managerNames managedFields)
           | _ \<Rightarrow> []))"

section \<open>Normalization\<close>

record normalizedObject =
  nJSON :: string
  nHash :: string
  nUID :: string
  nResourceVersion :: string
  nAPIVersion :: string
  nLabels :: "(string, string) gomap"
  nActors :: "string list"

definition volatileFields :: "string list" where
  "volatileFields = [''managedFields'', ''resourceVersion'', ''generation'']"

definition stripField :: "bool \<Rightarrow> string \<times> json \<Rightarrow> (string \<times> json) option" where
  "stripField stripActorsAnnotation fv =
     (case fv of (field, value) \<Rightarrow>
        if field \<in> set volatileFields then None
        else if field = ''annotations'' then
          (if \<not> stripActorsAnnotation then Some (field, value)
           else (case value of
                   JObj existing \<Rightarrow>
                     if length existing = 1 then None
                     else Some (field, JObj (mdel_if (\<lambda>name. name = ActorsAnnotation) existing))
                 | _ \<Rightarrow> Some (field, value)))
        else Some (field, value))"

fun stripMeta :: "bool \<Rightarrow> jobj \<Rightarrow> jobj" where
  "stripMeta stripActorsAnnotation [] = []"
| "stripMeta stripActorsAnnotation (fv # metadata) =
     (case stripField stripActorsAnnotation fv of
        None \<Rightarrow> stripMeta stripActorsAnnotation metadata
      | Some kept \<Rightarrow> kept # stripMeta stripActorsAnnotation metadata)"

definition stripVolatileFields :: "jobj \<Rightarrow> bool \<Rightarrow> jobj" where
  "stripVolatileFields object stripActorsAnnotation =
     (case mget object ''metadata'' of
        Some (JObj metadata) \<Rightarrow>
          mput ''metadata'' (JObj (stripMeta stripActorsAnnotation metadata)) object
      | _ \<Rightarrow> object)"

definition hasActorsAnnotation :: "uapi \<Rightarrow> jobj \<Rightarrow> bool" where
  "hasActorsAnnotation u obj =
     (case uGetAnnotations u obj of None \<Rightarrow> False | Some a \<Rightarrow> mhas a ActorsAnnotation)"

definition objectActors :: "uapi \<Rightarrow> jobj \<Rightarrow> string list" where
  "objectActors u obj =
     (case uGetAnnotations u obj of
        None \<Rightarrow> ExtractActors u obj
      | Some a \<Rightarrow> (case mget a ActorsAnnotation of
                     None \<Rightarrow> ExtractActors u obj
                   | Some value \<Rightarrow> decodeActors value))"

definition normalizeObject :: "uapi \<Rightarrow> jobj \<Rightarrow> RedactionPolicy \<Rightarrow> normalizedObject option" where
  "normalizeObject u obj policy =
     (case marshal (Redact_Apply policy (JObj (stripVolatileFields obj (hasActorsAnnotation u obj)))) of
        None \<Rightarrow> None
      | Some objJSON \<Rightarrow>
          Some \<lparr>nJSON = objJSON, nHash = sha256Hex objJSON, nUID = uGetUID u obj,
                nResourceVersion = uGetResourceVersion u obj, nAPIVersion = uGetVersion u obj,
                nLabels = (case uGetLabels u obj of None \<Rightarrow> [] | Some l \<Rightarrow> l),
                nActors = objectActors u obj\<rparr>)"

definition ObjectHash :: "uapi \<Rightarrow> jobj \<Rightarrow> RedactionPolicy \<Rightarrow> string option" where
  "ObjectHash u obj policy = map_option nHash (normalizeObject u obj policy)"

definition NormalizedJSON :: "uapi \<Rightarrow> jobj \<Rightarrow> RedactionPolicy \<Rightarrow> string option" where
  "NormalizedJSON u obj policy = map_option nJSON (normalizeObject u obj policy)"

section \<open>The informer transform\<close>

text \<open>Only an unstructured object reaches the body; anything else is returned as it is.\<close>

definition TransformObject :: "uapi \<Rightarrow> jobj \<Rightarrow> jobj" where
  "TransformObject u obj =
     (case uNestedFieldNoCopy u [''metadata'', ''managedFields''] obj of
        Inl _ \<Rightarrow> obj
      | Inr None \<Rightarrow> obj
      | Inr (Some _) \<Rightarrow>
          (let actors = ExtractActors u obj;
               obj1 = (if actors = [] then obj
                       else let annotations = (case uGetAnnotations u obj of None \<Rightarrow> [] | Some a \<Rightarrow> a)
                            in uSetAnnotations u (mput ActorsAnnotation (EncodeActors actors) annotations) obj)
           in uRemoveNestedField u [''metadata'', ''managedFields''] obj1))"

section \<open>Documented behaviour of the accessors\<close>

definition metaOf :: "jobj \<Rightarrow> jobj option" where
  "metaOf o' = (case mget o' ''metadata'' of Some (JObj m) \<Rightarrow> Some m | _ \<Rightarrow> None)"

definition metaString :: "string \<Rightarrow> jobj \<Rightarrow> string" where
  "metaString f o' = (case metaOf o' of None \<Rightarrow> '''' | Some m \<Rightarrow>
     (case mget m f of Some (JStr s) \<Rightarrow> s | _ \<Rightarrow> ''''))"

fun stringMap :: "jobj \<Rightarrow> (string, string) gomap option" where
  "stringMap [] = Some []"
| "stringMap ((k, v) # m) =
     (case v of JStr s \<Rightarrow> map_option (\<lambda>r. (k, s) # r) (stringMap m) | _ \<Rightarrow> None)"

definition metaStringMap :: "string \<Rightarrow> jobj \<Rightarrow> (string, string) gomap option" where
  "metaStringMap f o' = (case metaOf o' of None \<Rightarrow> None | Some m \<Rightarrow>
     (case mget m f of Some (JObj a) \<Rightarrow> stringMap a | _ \<Rightarrow> None))"

definition groupVersionOf :: "jobj \<Rightarrow> string" where
  "groupVersionOf o' =
     (case mget o' ''apiVersion'' of
        Some (JStr s) \<Rightarrow> (case split_on CHR ''/'' s of [v] \<Rightarrow> v | [g, v] \<Rightarrow> v | _ \<Rightarrow> '''')
      | _ \<Rightarrow> '''')"

definition uapi_doc :: uapi where
  "uapi_doc = \<lparr>
     uGetUID = metaString ''uid'',
     uGetResourceVersion = metaString ''resourceVersion'',
     uGetVersion = groupVersionOf,
     uGetLabels = metaStringMap ''labels'',
     uGetAnnotations = metaStringMap ''annotations'',
     uNestedFieldNoCopy = (\<lambda>fs o'. case fs of
        [f, g] \<Rightarrow> (case mget o' f of
                    None \<Rightarrow> Inr None
                  | Some (JObj m) \<Rightarrow> Inr (mget m g)
                  | Some _ \<Rightarrow> Inl ())
      | _ \<Rightarrow> Inr None),
     uSetAnnotations = (\<lambda>a o'. mput ''metadata''
        (JObj (mput ''annotations'' (JObj (map (map_prod id JStr) a))
          (case metaOf o' of None \<Rightarrow> [] | Some m \<Rightarrow> m))) o'),
     uRemoveNestedField = (\<lambda>fs o'. case fs of
        [f, g] \<Rightarrow> (case mget o' f of
                    Some (JObj m) \<Rightarrow> mput f (JObj (mdel g m)) o'
                  | _ \<Rightarrow> o')
      | _ \<Rightarrow> o')\<rparr>"

text \<open>On the calls the program makes, the accessors behave as documented.\<close>

definition uapi_ok :: "uapi \<Rightarrow> bool" where
  "uapi_ok u \<longleftrightarrow>
     (\<forall>o'. uGetUID u o' = uGetUID uapi_doc o' \<and>
          uGetResourceVersion u o' = uGetResourceVersion uapi_doc o' \<and>
          uGetVersion u o' = uGetVersion uapi_doc o' \<and>
          uGetLabels u o' = uGetLabels uapi_doc o' \<and>
          uGetAnnotations u o' = uGetAnnotations uapi_doc o' \<and>
          uNestedFieldNoCopy u [''metadata'', ''managedFields''] o' =
            uNestedFieldNoCopy uapi_doc [''metadata'', ''managedFields''] o' \<and>
          uRemoveNestedField u [''metadata'', ''managedFields''] o' =
            uRemoveNestedField uapi_doc [''metadata'', ''managedFields''] o' \<and>
          (\<forall>a. a \<noteq> [] \<longrightarrow> uSetAnnotations u a o' = uSetAnnotations uapi_doc a o'))"

section \<open>Actors survive the annotation\<close>

lemma split_join_filter:
  assumes "\<forall>x \<in> set xs. x \<noteq> [] \<and> c \<notin> set x"
  shows "filter (\<lambda>p. p \<noteq> []) (split_on c (join [c] xs)) = xs"
proof (cases "xs = []")
  case False
  then have "split_on c (join [c] xs) = xs" using assms by (intro split_on_join) auto
  then show ?thesis using assms by (simp add: filter_id_conv)
qed simp

lemma decode_EncodeActors:
  "\<forall>x \<in> set actors. x \<noteq> [] \<and> actorsSeparator \<notin> set x \<Longrightarrow> decodeActors (EncodeActors actors) = actors"
  unfolding decodeActors_def EncodeActors_def by (rule split_join_filter)

lemma managerNames_nonempty: "x \<in> set (managerNames es) \<Longrightarrow> x \<noteq> []"
  by (induction es) (auto simp: Let_def split: json.splits option.splits if_splits)

lemma ExtractActors_nonempty: "x \<in> set (ExtractActors u obj) \<Longrightarrow> x \<noteq> []"
proof (cases "uNestedFieldNoCopy u [''metadata'', ''managedFields''] obj")
  case (Inr r)
  assume "x \<in> set (ExtractActors u obj)"
  then show ?thesis using Inr
    by (cases r; cases "the r") (auto simp: ExtractActors_def dest: managerNames_nonempty)
qed (simp add: ExtractActors_def)

section \<open>Stripping\<close>

lemma stripField_other: "k \<noteq> ''annotations'' \<Longrightarrow> stripField b (k, v) = stripField False (k, v)"
  by (simp add: stripField_def)

lemma stripField_volatile: "k \<in> set volatileFields \<Longrightarrow> stripField b (k, v) = None"
  by (simp add: stripField_def)

lemma stripMeta_append: "stripMeta b (m @ m') = stripMeta b m @ stripMeta b m'"
  by (induction m) (auto split: option.splits)

lemma stripMeta_mdel: "f \<in> set volatileFields \<Longrightarrow> stripMeta b (mdel f m) = stripMeta b m"
  by (induction m) (auto simp: stripField_volatile split: option.splits)

lemma stripMeta_no_annotations:
  "''annotations'' \<notin> set (map fst m) \<Longrightarrow> stripMeta b m = stripMeta False m"
proof (induction m)
  case (Cons e m)
  then show ?case by (cases e) (auto simp: stripField_other [of _ b] split: option.splits)
qed simp

lemma stringMap_Some: "stringMap ann = Some a \<Longrightarrow> ann = map (map_prod id JStr) a"
  by (induction ann arbitrary: a rule: stringMap.induct) (auto split: json.splits)

lemma mput_absent: "k \<notin> set (map fst m) \<Longrightarrow> mput k v m = m @ [(k, v)]"
  by (induction m) auto

lemma mdel_if_absent: "k \<notin> set (map fst m) \<Longrightarrow> mdel_if (\<lambda>n. n = k) m = m"
  by (induction m) (auto simp: mdel_if_def)

lemma mdel_if_put_absent: "k \<notin> set (map fst m) \<Longrightarrow> mdel_if (\<lambda>n. n = k) (map (map_prod id f) (mput k v m)) = map (map_prod id f) m"
  by (induction m) (auto simp: mdel_if_def)

lemma length_put_absent: "k \<notin> set (map fst m) \<Longrightarrow> length (mput k v m) = Suc (length m)"
  by (simp add: mput_absent)

text \<open>Adding the actors annotation to a string map and stripping it again restores the metadata,
  unless the object carried an empty annotations map.\<close>

definition annotations_ok :: "jobj \<Rightarrow> bool" where
  "annotations_ok m \<longleftrightarrow>
     (case mget m ''annotations'' of
        None \<Rightarrow> True
      | Some (JObj ann) \<Rightarrow> ann \<noteq> [] \<and> stringMap ann \<noteq> None \<and> ActorsAnnotation \<notin> set (map fst ann)
      | Some _ \<Rightarrow> False)"

lemma annotations_okE:
  assumes "annotations_ok m"
  obtains "mget m ''annotations'' = None"
  | ann a0 where "mget m ''annotations'' = Some (JObj ann)" "ann \<noteq> []" "stringMap ann = Some a0"
      "ann = map (map_prod id JStr) a0" "ActorsAnnotation \<notin> set (map fst a0)"
proof (cases "mget m ''annotations''")
  case None
  then show ?thesis by (rule that)
next
  case (Some v)
  then obtain ann a0 where v: "v = JObj ann" "ann \<noteq> []" "stringMap ann = Some a0"
      "ActorsAnnotation \<notin> set (map fst ann)"
    using assms by (auto simp: annotations_ok_def split: json.splits)
  then show ?thesis using that(2) [of ann a0] Some stringMap_Some [OF v(3)] by simp
qed

lemma stripMeta_mput_annotations:
  assumes "distinct (map fst m)" "mget m ''annotations'' = Some v"
    and "stripField True (''annotations'', x) = Some (''annotations'', v)"
  shows "stripMeta True (mput ''annotations'' x m) = stripMeta False m"
  using assms
proof (induction m)
  case (Cons e m)
  obtain k w where e: "e = (k, w)" by (cases e)
  show ?case
  proof (cases "k = ''annotations''")
    case True
    then have "stripMeta True m = stripMeta False m"
      using Cons.prems(1) by (intro stripMeta_no_annotations) (simp add: e)
    moreover have "stripField False (''annotations'', v) = Some (''annotations'', v)"
      by (simp add: stripField_def volatileFields_def)
    ultimately show ?thesis
      using Cons.prems(2,3) True by (simp add: e)
  next
    case False
    then have same: "stripField True (k, w) = stripField False (k, w)" by (rule stripField_other)
    have "stripMeta True (mput ''annotations'' x m) = stripMeta False m"
      using Cons False by (simp add: e)
    then show ?thesis using same False by (simp add: e split: option.splits)
  qed
qed simp

lemma strip_actors_annotation:
  assumes "distinct (map fst m)" "annotations_ok m"
    and "a = (case mget m ''annotations'' of Some (JObj ann) \<Rightarrow> the (stringMap ann) | _ \<Rightarrow> [])"
  shows "stripMeta True
      (mput ''annotations'' (JObj (map (map_prod id JStr) (mput ActorsAnnotation enc a))) m) =
    stripMeta False m"
  using assms(2)
proof (cases rule: annotations_okE)
  case 1
  then have "''annotations'' \<notin> set (map fst m)" by (simp add: map_of_eq_None_iff)
  then show ?thesis
    using 1 assms(3)
    by (simp add: mput_absent stripMeta_append stripMeta_no_annotations [of m True]
        stripField_def [of True "(''annotations'', _)"] volatileFields_def)
next
  case (2 ann a0)
  have "length (mput ActorsAnnotation enc a0) \<noteq> 1"
    using 2(2,4,5) by (simp add: length_put_absent)
  then have "stripField True (''annotations'', JObj (map (map_prod id JStr) (mput ActorsAnnotation enc a0))) =
      Some (''annotations'', JObj ann)"
    using mdel_if_put_absent [OF 2(5), of JStr enc] by (simp add: stripField_def volatileFields_def 2(4))
  then show ?thesis
    using stripMeta_mput_annotations [OF assms(1) 2(1)] assms(3) 2 by simp
qed

section \<open>The transform is invisible to normalization\<close>

definition with_meta :: "jobj \<Rightarrow> jobj \<Rightarrow> jobj" where
  "with_meta obj m = mput ''metadata'' (JObj m) obj"

lemma metaOf_with_meta [simp]: "metaOf (with_meta obj m) = Some m"
  by (simp add: metaOf_def with_meta_def)

lemma with_meta_twice [simp]: "with_meta (with_meta obj m) m' = with_meta obj m'"
  by (simp add: with_meta_def)

lemma strip_with_meta: "stripVolatileFields (with_meta obj m) b = with_meta obj (stripMeta b m)"
  by (simp add: stripVolatileFields_def with_meta_def)

lemma with_metaOf: "metaOf obj = Some m \<Longrightarrow> with_meta obj m = obj"
  by (auto simp: with_meta_def metaOf_def mput_same split: option.splits json.splits)

lemma metaString_with_meta: "metaString f (with_meta obj m) = (case mget m f of Some (JStr s) \<Rightarrow> s | _ \<Rightarrow> '''')"
  by (simp add: metaString_def)

lemma metaStringMap_with_meta:
  "metaStringMap f (with_meta obj m) = (case mget m f of Some (JObj a) \<Rightarrow> stringMap a | _ \<Rightarrow> None)"
  by (simp add: metaStringMap_def)

lemma groupVersionOf_with_meta [simp]: "groupVersionOf (with_meta obj m) = groupVersionOf obj"
  by (simp add: groupVersionOf_def with_meta_def)

lemma nested_with_meta:
  "uapi_ok u \<Longrightarrow> uNestedFieldNoCopy u [''metadata'', ''managedFields''] (with_meta obj m) = Inr (mget m ''managedFields'')"
  by (simp add: uapi_ok_def uapi_doc_def with_meta_def)

lemma remove_with_meta:
  "uapi_ok u \<Longrightarrow> uRemoveNestedField u [''metadata'', ''managedFields''] (with_meta obj m) =
     with_meta obj (mdel ''managedFields'' m)"
  by (simp add: uapi_ok_def uapi_doc_def with_meta_def)

lemma set_annotations_with_meta:
  "uapi_ok u \<Longrightarrow> a \<noteq> [] \<Longrightarrow> uSetAnnotations u a (with_meta obj m) =
     with_meta obj (mput ''annotations'' (JObj (map (map_prod id JStr) a)) m)"
  by (simp add: uapi_ok_def uapi_doc_def with_meta_def metaOf_def)

lemmas accessors_with_meta =
  metaString_with_meta metaStringMap_with_meta nested_with_meta remove_with_meta set_annotations_with_meta

lemma uapi_ok_get:
  assumes "uapi_ok u"
  shows "uGetUID u o' = metaString ''uid'' o'" "uGetResourceVersion u o' = metaString ''resourceVersion'' o'"
    "uGetVersion u o' = groupVersionOf o'" "uGetLabels u o' = metaStringMap ''labels'' o'"
    "uGetAnnotations u o' = metaStringMap ''annotations'' o'"
  using assms by (simp_all add: uapi_ok_def uapi_doc_def)

lemma stringMap_put:
  "stringMap (map (map_prod id JStr) a) = Some a"
  by (induction a) auto

lemma mput_not_Nil [simp]: "mput k v m \<noteq> []"
  by (cases m) auto

lemma normalize_transform_meta:
  assumes ok: "uapi_ok u" and dist: "distinct (map fst m)" and ann: "annotations_ok m"
    and mf: "mget m ''managedFields'' = Some raw"
    and sep: "\<forall>x \<in> set (ExtractActors u (with_meta obj m)). actorsSeparator \<notin> set x"
  shows "normalizeObject u (TransformObject u (with_meta obj m)) pol = normalizeObject u (with_meta obj m) pol"
proof -
  let ?o = "with_meta obj m"
  let ?actors = "ExtractActors u ?o"
  let ?a = "case mget m ''annotations'' of Some (JObj ann) \<Rightarrow> the (stringMap ann) | _ \<Rightarrow> []"
  let ?m1 = "mput ''annotations'' (JObj (map (map_prod id JStr) (mput ActorsAnnotation (EncodeActors ?actors) ?a))) m"
  have get: "(case metaStringMap ''annotations'' ?o of None \<Rightarrow> [] | Some a \<Rightarrow> a) = ?a"
    using ann by (auto simp: metaStringMap_with_meta annotations_ok_def split: option.splits json.splits)
  have no_actors: "\<not> hasActorsAnnotation u ?o" "objectActors u ?o = ?actors"
  proof -
    have "mget ?a ActorsAnnotation = None"
      using ann
    proof (cases rule: annotations_okE)
      case (2 ann' a0)
      then show ?thesis by (simp add: map_of_eq_None_iff)
    qed simp
    then show "\<not> hasActorsAnnotation u ?o" "objectActors u ?o = ?actors"
      using get ann
      by (auto simp: hasActorsAnnotation_def objectActors_def uapi_ok_get [OF ok] mhas_def
          metaStringMap_with_meta annotations_ok_def split: option.splits json.splits)
  qed
  show ?thesis
  proof (cases "?actors = []")
    case True
    have t: "TransformObject u ?o = with_meta obj (mdel ''managedFields'' m)"
      using True mf by (simp add: TransformObject_def accessors_with_meta ok)
    have "hasActorsAnnotation u (with_meta obj (mdel ''managedFields'' m)) = hasActorsAnnotation u ?o"
      by (simp add: hasActorsAnnotation_def uapi_ok_get [OF ok] accessors_with_meta)
    moreover have "objectActors u (with_meta obj (mdel ''managedFields'' m)) = ?actors"
      using no_actors(1) True
      by (auto simp: hasActorsAnnotation_def objectActors_def uapi_ok_get [OF ok] accessors_with_meta ok mhas_def
          ExtractActors_def split: option.splits)
    ultimately show ?thesis
      using no_actors
      by (simp add: normalizeObject_def t uapi_ok_get [OF ok] accessors_with_meta strip_with_meta
          stripMeta_mdel volatileFields_def split: option.split)
  next
    case False
    have t: "TransformObject u ?o = with_meta obj (mdel ''managedFields'' ?m1)"
      using False mf get by (simp add: TransformObject_def accessors_with_meta ok uapi_ok_get [OF ok] Let_def)
    have new: "metaStringMap ''annotations'' (with_meta obj (mdel ''managedFields'' ?m1)) =
        Some (mput ActorsAnnotation (EncodeActors ?actors) ?a)"
      by (simp add: metaStringMap_with_meta stringMap_put)
    have "hasActorsAnnotation u (with_meta obj (mdel ''managedFields'' ?m1))"
      "objectActors u (with_meta obj (mdel ''managedFields'' ?m1)) = ?actors"
      using new sep ExtractActors_nonempty [of _ u ?o]
      by (auto simp: hasActorsAnnotation_def objectActors_def uapi_ok_get [OF ok] mhas_def decode_EncodeActors)
    then show ?thesis
      using no_actors strip_actors_annotation [OF dist ann refl, of "EncodeActors ?actors"]
      by (simp add: normalizeObject_def t uapi_ok_get [OF ok] accessors_with_meta strip_with_meta
          stripMeta_mdel volatileFields_def split: option.split)
  qed
qed

section \<open>Properties\<close>

text \<open>C36. Redaction happens before hashing: two objects whose stripped contents differ at most
  at positions a path of the policy selects are normalized to the same bytes and the same
  hash (or both fail to marshal), so a change confined to a redacted value is deduplicated
  away and can never show in a row's data, diff or hash.\<close>

theorem redacted_change_invisible:
  assumes "p \<in> set (policyPaths pol)"
    and "same_outside (rpSegments p)
           (JObj (stripVolatileFields o1 (hasActorsAnnotation u o1)))
           (JObj (stripVolatileFields o2 (hasActorsAnnotation u o2)))"
  shows "NormalizedJSON u o1 pol = NormalizedJSON u o2 pol \<and> ObjectHash u o1 pol = ObjectHash u o2 pol"
proof -
  have "Redact_Apply pol (JObj (stripVolatileFields o1 (hasActorsAnnotation u o1))) =
      Redact_Apply pol (JObj (stripVolatileFields o2 (hasActorsAnnotation u o2)))"
    unfolding Redact_Apply_def
    by (metis applyPath_red fold_applyPath_first [OF assms(1)] red_same_outside [OF assms(2)])
  then show ?thesis
    by (simp add: NormalizedJSON_def ObjectHash_def normalizeObject_def split: option.splits)
qed

theorem redacted_change_invisible_witness:
  "ObjectHash uapi_doc [(''data'', JObj [(''password'', JStr ''hunter2'')])]
     (Some [\<lparr>rpRaw = ''data.password'', rpSegments = [\<lparr>segName = ''data'', segWildcard = False\<rparr>,
        \<lparr>segName = ''password'', segWildcard = False\<rparr>]\<rparr>]) =
   ObjectHash uapi_doc [(''data'', JObj [(''password'', JInt 12345)])]
     (Some [\<lparr>rpRaw = ''data.password'', rpSegments = [\<lparr>segName = ''data'', segWildcard = False\<rparr>,
        \<lparr>segName = ''password'', segWildcard = False\<rparr>]\<rparr>])"
  using redacted_change_invisible [of
      "\<lparr>rpRaw = ''data.password'', rpSegments = [\<lparr>segName = ''data'', segWildcard = False\<rparr>,
        \<lparr>segName = ''password'', segWildcard = False\<rparr>]\<rparr>"
      "Some [\<lparr>rpRaw = ''data.password'', rpSegments = [\<lparr>segName = ''data'', segWildcard = False\<rparr>,
        \<lparr>segName = ''password'', segWildcard = False\<rparr>]\<rparr>]"
      "[(''data'', JObj [(''password'', JStr ''hunter2'')])]" uapi_doc
      "[(''data'', JObj [(''password'', JInt 12345)])]"]
  by (simp add: policyPaths_def stripVolatileFields_def)



text \<open>Volatile metadata never makes an object look changed: two versions of an object whose
  metadata agree outside managedFields, resourceVersion and generation have the same
  normalized bytes and hash.\<close>

theorem volatile_fields_ignored:
  assumes "uapi_ok u" "mdel_if (\<lambda>f. f \<in> set volatileFields) m = mdel_if (\<lambda>f. f \<in> set volatileFields) m'"
  shows "NormalizedJSON u (with_meta obj m) pol = NormalizedJSON u (with_meta obj m') pol \<and>
    ObjectHash u (with_meta obj m) pol = ObjectHash u (with_meta obj m') pol"
proof -
  have strip: "stripMeta b (mdel_if (\<lambda>f. f \<in> set volatileFields) x) = stripMeta b x" for b x
  proof (induction x)
    case (Cons e x)
    then show ?case
      by (cases e) (auto simp: mdel_if_def stripField_volatile split: option.splits)
  qed (simp add: mdel_if_def)
  have ann: "mget x ''annotations'' = mget (mdel_if (\<lambda>f. f \<in> set volatileFields) x) ''annotations''" for x :: jobj
    by (simp add: volatileFields_def)
  have "hasActorsAnnotation u (with_meta obj m) = hasActorsAnnotation u (with_meta obj m')"
    unfolding hasActorsAnnotation_def uapi_ok_get [OF assms(1)] metaStringMap_with_meta
    using ann [of m] ann [of m'] assms(2) by simp
  moreover have "stripMeta b m = stripMeta b m'" for b
    using strip [of b m] strip [of b m'] assms(2) by simp
  ultimately show ?thesis
    by (simp add: NormalizedJSON_def ObjectHash_def normalizeObject_def strip_with_meta split: option.splits)
qed

theorem volatile_fields_ignored_witness:
  "ObjectHash uapi_doc (with_meta [] [(''resourceVersion'', JStr ''1'')]) None =
   ObjectHash uapi_doc (with_meta [] [(''generation'', JInt 4)]) None"
  using volatile_fields_ignored [of uapi_doc "[(''resourceVersion'', JStr ''1'')]" "[(''generation'', JInt 4)]" "[]" None]
  by (simp add: uapi_ok_def mdel_if_def volatileFields_def)


definition label_policy :: RedactionPolicy where
  "label_policy = Some [\<lparr>rpRaw = ''metadata.labels.tenant'', rpSegments =
     [\<lparr>segName = ''metadata'', segWildcard = False\<rparr>, \<lparr>segName = ''labels'', segWildcard = False\<rparr>,
      \<lparr>segName = ''tenant'', segWildcard = False\<rparr>]\<rparr>]"

lemma label_policy_norm:
  "normalizeObject uapi_doc [(''metadata'', JObj [(''labels'', JObj [(''tenant'', JStr ''acme'')])])] label_policy \<noteq> None"
  by (simp add: normalizeObject_def label_policy_def policyPaths_def Redact_Apply_def applyPath_red
      stripVolatileFields_def stripField_def volatileFields_def red_Cons_obj redStep_def
      commaList_def member_def)


end
