(* ===== verification/Sink.thy ===== *)
theory Sink
imports Identity
begin

text \<open>
  The data types of a sink (\<open>internal/sink/record.go\<close>, \<open>sink.go\<close>, \<open>scope.go\<close>): the row, the
  write job with its commit callback, scope filters and known states, scope events.  Instants
  are integers (nanoseconds).  The commit callback of a job is first-order data of the type
  parameter; the component that creates a job says how its callback runs.
\<close>

record Record =
  rTimestamp :: int
  rClusterID :: string
  rEventType :: string
  rAPIGroup :: string
  rAPIVersion :: string
  rKind :: string
  rNamespace :: string
  rName :: string
  rUID :: string
  rResourceVersion :: string
  rLabels :: "(string, string) gomap"
  rActors :: "string list"
  rData :: string
  rDiff :: string
  rSHA256 :: string

definition zeroRecord :: Record where
  "zeroRecord = \<lparr>rTimestamp = 0, rClusterID = '''', rEventType = '''', rAPIGroup = '''', rAPIVersion = '''',
     rKind = '''', rNamespace = '''', rName = '''', rUID = '''', rResourceVersion = '''', rLabels = [],
     rActors = [], rData = '''', rDiff = '''', rSHA256 = ''''\<rparr>"

record 'c Job =
  jRecord :: Record
  jCommit :: 'c

record ScopeFilter =
  sfClusterID :: string
  sfAPIGroup :: string
  sfKind :: string
  sfNamespace :: string

record KnownState =
  ksNamespace :: string
  ksName :: string
  ksUID :: string
  ksSHA256 :: string
  ksAPIVersion :: string
  ksTS :: int

datatype ScopeAction = ScopeActionStarted | ScopeActionStopped

record ScopeEvent =
  seAction :: ScopeAction
  seScope :: ScopeFilter
  seAPIVersion :: string
  seRuleRef :: string
  seTS :: int

end
