(* ===== verification/Pipeline.thy ===== *)
theory Pipeline
imports HashCache Normalize Sink
begin

text \<open>
  The pipeline (\<open>internal/pipeline/pipeline.go\<close>, \<open>process.go\<close>): per-sink state, the Process
  handler with its upsert, delete and close-out paths, and the commit callbacks the sink's
  workers run later.  Everything the pipeline only calls is in the environment record \<open>Env\<close>:
  the watch cache, the sink router, the redaction registry, the clock, the zstd codec, the
  JSON diff library and the outcome of each hand-off to a writer.  A sinkState is shared by
  pointer with the callbacks that captured it, so states live in a heap and the registry maps
  a sink's name to an address.  Calls on the work queue and on the metrics are recorded as a
  trace of effects.
\<close>

section \<open>State\<close>

record sinkState =
  ssCache :: hashCache
  ssCloseOuts :: "(string, Record list) gomap"
  ssWarm :: "ScopeKey list"

definition emptySinkState :: sinkState where
  "emptySinkState = \<lparr>ssCache = [], ssCloseOuts = [], ssWarm = []\<rparr>"

text \<open>The commit callbacks, with the variables each closure captured.\<close>

datatype Commit =
    CommitUpsert nat Key string "64 word" CacheEntry "CacheEntry option"
  | CommitDelete nat Key string "64 word"
  | CommitCloseOut nat Key string Record

type_synonym PJob = "Commit Job"

datatype Effect =
    QAddRateLimited Key
  | QForget Key
  | QDone Key
  | MDropped string
  | MDedupSkip
  | MCacheEntries string nat
  | MSafeMode string ScopeKey nat
  | MSafeModeDelete string ScopeKey
  | MDeleteSink string

record Writer =
  wID :: nat
  wCheckpointEvery :: "int option"

record Pipeline =
  pStates :: "(string, nat) gomap"
  pHeap :: "sinkState list"
  pJobs :: "PJob list"
  pTicks :: nat
  pEffects :: "Effect list"

definition Pipeline_New :: Pipeline where
  "Pipeline_New = \<lparr>pStates = [], pHeap = [], pJobs = [], pTicks = 0, pEffects = []\<rparr>"

definition DefaultWorkers :: int where "DefaultWorkers = 8"

definition workersFor :: "int \<Rightarrow> int" where
  "workersFor w = (if w \<le> 0 then DefaultWorkers else w)"

text \<open>The constructor: it insists on a lister and a router and yields the worker count beside the
  empty pipeline.\<close>

datatype newError = ListerRequired | RouterRequired

definition New :: "bool \<Rightarrow> bool \<Rightarrow> int \<Rightarrow> newError + (int \<times> Pipeline)" where
  "New hasLister hasRouter workers =
     (if \<not> hasLister then Inl ListerRequired
      else if \<not> hasRouter then Inl RouterRequired
      else Inr (workersFor workers, Pipeline_New))"

section \<open>Environment\<close>

record Env =
  eClusterID :: string
  eGet :: "Key \<Rightarrow> string + (jobj option \<times> bool)"
  eRedactions :: "(Key \<Rightarrow> RedactionPolicy option) option"
  eWriterFor :: "string \<Rightarrow> Writer option"
  eEnqueueErr :: "nat \<Rightarrow> string option"
  eNow :: "nat \<Rightarrow> int"
  eUapi :: uapi
  eEncoder :: "(string \<Rightarrow> string) option"
  eDecoder :: "(string \<Rightarrow> string option) option"
  eCompareJSON :: "string \<Rightarrow> string \<Rightarrow> json option"
  eMarshalPatch :: "json \<Rightarrow> string option"

datatype processError =
    LookupFailed string
  | SinkUnavailable
  | RedactionUnavailable
  | MarshalFailed
  | EnqueueFailed string

definition effect :: "Effect \<Rightarrow> Pipeline \<Rightarrow> Pipeline" where
  "effect x p = p\<lparr>pEffects := pEffects p @ [x]\<rparr>"

definition timeNow :: "Env \<Rightarrow> Pipeline \<Rightarrow> int \<times> Pipeline" where
  "timeNow e p = (eNow e (pTicks p), p\<lparr>pTicks := pTicks p + 1\<rparr>)"

text \<open>The contract of \<open>sink.Writer.Enqueue\<close>: it returns an error, or takes over the job, whose
  callback it will run exactly once.\<close>

definition Enqueue :: "Env \<Rightarrow> Writer \<Rightarrow> PJob \<Rightarrow> Pipeline \<Rightarrow> string option \<times> Pipeline" where
  "Enqueue e writer job p =
     (let err = eEnqueueErr e (pTicks p); p = p\<lparr>pTicks := pTicks p + 1\<rparr>
      in case err of
           Some x \<Rightarrow> (Some x, p)
         | None \<Rightarrow> (None, p\<lparr>pJobs := pJobs p @ [job]\<rparr>))"

section \<open>Sink states\<close>

definition stateAt :: "nat \<Rightarrow> Pipeline \<Rightarrow> sinkState" where
  "stateAt a p = (if a < length (pHeap p) then pHeap p ! a else emptySinkState)"

definition modifyState :: "nat \<Rightarrow> (sinkState \<Rightarrow> sinkState) \<Rightarrow> Pipeline \<Rightarrow> Pipeline" where
  "modifyState a f p = p\<lparr>pHeap := (pHeap p)[a := f (stateAt a p)]\<rparr>"

definition setCache :: "nat \<Rightarrow> hashCache \<Rightarrow> Pipeline \<Rightarrow> Pipeline" where
  "setCache a c = modifyState a (\<lambda>st. st\<lparr>ssCache := c\<rparr>)"

abbreviation cacheAt :: "nat \<Rightarrow> Pipeline \<Rightarrow> hashCache" where
  "cacheAt a p \<equiv> ssCache (stateAt a p)"

definition registry_get :: "string \<Rightarrow> Pipeline \<Rightarrow> nat \<times> Pipeline" where
  "registry_get name p =
     (case mget (pStates p) name of
        Some a \<Rightarrow> (a, p)
      | None \<Rightarrow> (let a = length (pHeap p)
                 in (a, p\<lparr>pStates := mput name a (pStates p), pHeap := pHeap p @ [emptySinkState]\<rparr>)))"

definition registry_lookup :: "string \<Rightarrow> Pipeline \<Rightarrow> nat option" where
  "registry_lookup name p = mget (pStates p) name"

definition RemoveSink :: "string \<Rightarrow> Pipeline \<Rightarrow> Pipeline" where
  "RemoveSink name p = effect (MDeleteSink name) (p\<lparr>pStates := mdel name (pStates p)\<rparr>)"

definition recordCacheEntries :: "string \<Rightarrow> nat \<Rightarrow> Pipeline \<Rightarrow> Pipeline" where
  "recordCacheEntries sinkName a p = effect (MCacheEntries sinkName (Len (cacheAt a p))) p"

definition EvictScope :: "string \<Rightarrow> ScopeKey \<Rightarrow> Pipeline \<Rightarrow> Pipeline" where
  "EvictScope name scope p =
     (case registry_lookup name p of
        None \<Rightarrow> p
      | Some a \<Rightarrow>
          let p = modifyState a (\<lambda>st. st\<lparr>ssWarm := removeAll scope (ssWarm st)\<rparr>) p;
              p = effect (MSafeModeDelete name scope) p;
              p = setCache a (snd (DeletePrefix (scopeKeyPrefix scope) (cacheAt a p))) p
          in recordCacheEntries name a p)"

definition MarkScopeWarm :: "string \<Rightarrow> ScopeKey \<Rightarrow> Pipeline \<Rightarrow> Pipeline" where
  "MarkScopeWarm name scope p =
     (case registry_get name p of (a, p) \<Rightarrow>
        effect (MSafeMode name scope 0)
          (modifyState a (\<lambda>st. st\<lparr>ssWarm := List.insert scope (ssWarm st)\<rparr>) p))"

definition scopeWarm :: "sinkState \<Rightarrow> Key \<Rightarrow> bool" where
  "scopeWarm st key =
     (let scope = Scope key in scope \<in> set (ssWarm st) \<or> scope\<lparr>sNamespace := ''''\<rparr> \<in> set (ssWarm st))"

definition recordScopeUnwarmed :: "Key \<Rightarrow> Pipeline \<Rightarrow> Pipeline" where
  "recordScopeUnwarmed key = effect (MSafeMode (kSink key) (Scope key) 1)"

section \<open>Close-out retries\<close>

definition closeOuts_Add :: "string \<Rightarrow> Record \<Rightarrow> (string, Record list) gomap \<Rightarrow> (string, Record list) gomap" where
  "closeOuts_Add key record q =
     mput key ((case mget q key of None \<Rightarrow> [] | Some rs \<Rightarrow> rs) @ [record]) q"

definition closeOuts_TakeAll :: "string \<Rightarrow> (string, Record list) gomap \<Rightarrow> Record list \<times> (string, Record list) gomap" where
  "closeOuts_TakeAll key q = ((case mget q key of None \<Rightarrow> [] | Some rs \<Rightarrow> rs), mdel key q)"

definition addCloseOut :: "nat \<Rightarrow> string \<Rightarrow> Record \<Rightarrow> Pipeline \<Rightarrow> Pipeline" where
  "addCloseOut a objectKey record =
     modifyState a (\<lambda>st. st\<lparr>ssCloseOuts := closeOuts_Add objectKey record (ssCloseOuts st)\<rparr>)"

definition enqueueCloseOut :: "Env \<Rightarrow> Key \<Rightarrow> nat \<Rightarrow> Writer \<Rightarrow> string \<Rightarrow> Record \<Rightarrow> Pipeline \<Rightarrow> Pipeline" where
  "enqueueCloseOut e key a writer objectKey record p =
     (case Enqueue e writer \<lparr>jRecord = record, jCommit = CommitCloseOut a key objectKey record\<rparr> p of
        (None, p) \<Rightarrow> p
      | (Some err, p) \<Rightarrow> effect (QAddRateLimited key) (addCloseOut a objectKey record p))"

definition retryPendingCloseOuts :: "Env \<Rightarrow> Key \<Rightarrow> nat \<Rightarrow> Writer \<Rightarrow> string \<Rightarrow> Pipeline \<Rightarrow> Pipeline" where
  "retryPendingCloseOuts e key a writer objectKey p =
     (let (records, q) = closeOuts_TakeAll objectKey (ssCloseOuts (stateAt a p));
          p = modifyState a (\<lambda>st. st\<lparr>ssCloseOuts := q\<rparr>) p
      in fold (enqueueCloseOut e key a writer objectKey) records p)"

section \<open>Deletes\<close>

definition deletedRecord :: "Env \<Rightarrow> Key \<Rightarrow> CacheEntry \<Rightarrow> int \<Rightarrow> Record" where
  "deletedRecord e key entry ts =
     zeroRecord\<lparr>rTimestamp := ts, rClusterID := eClusterID e, rEventType := ''Deleted'',
       rAPIGroup := kGroup key, rAPIVersion := ceAPIVersion entry, rKind := kKind key,
       rNamespace := kNamespace key, rName := kName key, rUID := ceUID entry\<rparr>"

definition emitDelete ::
    "Env \<Rightarrow> Key \<Rightarrow> nat \<Rightarrow> Writer \<Rightarrow> string \<Rightarrow> Pipeline \<Rightarrow>
     (deleteClaimOutcome \<times> processError option) \<times> Pipeline" where
  "emitDelete e key a writer expectedUID p =
     (let objectKey = cacheKey key;
          ((entry, version, outcome), c) = ReserveDelete objectKey expectedUID (cacheAt a p);
          p = setCache a c p
      in if outcome \<noteq> deleteClaimed then ((outcome, None), p)
         else
           let (ts, p) = timeNow e p;
               record = deletedRecord e key entry ts
           in case Enqueue e writer \<lparr>jRecord = record, jCommit = CommitDelete a key objectKey version\<rparr> p of
                (Some err, p) \<Rightarrow>
                  ((deleteClaimed, Some (EnqueueFailed err)),
                   setCache a (UnclaimDelete objectKey version (cacheAt a p)) p)
              | (None, p) \<Rightarrow> ((deleteClaimed, None), p))"

definition forgetEphemeral :: "Key \<Rightarrow> nat \<Rightarrow> Pipeline \<Rightarrow> Pipeline" where
  "forgetEphemeral key a p =
     (let objectKey = cacheKey key;
          ((_, version, outcome), c) = ReserveDelete objectKey '''' (cacheAt a p);
          p = setCache a c p
      in if outcome \<noteq> deleteClaimed then p
         else case DeleteIfCurrent objectKey version (cacheAt a p) of
                (True, c) \<Rightarrow> recordCacheEntries (kSink key) a (setCache a c p)
              | (False, c) \<Rightarrow> setCache a c p)"

section \<open>Upserts\<close>

definition checkpointEveryFor :: "Writer \<Rightarrow> int" where
  "checkpointEveryFor w = (case wCheckpointEvery w of None \<Rightarrow> 0 | Some n \<Rightarrow> n)"

datatype checkpointReason = checkpointReasonCount | checkpointReasonSize

definition checkpointDue :: "int \<Rightarrow> int \<Rightarrow> string \<Rightarrow> string \<Rightarrow> checkpointReason option" where
  "checkpointDue every modifiedRun diffBytes fullJSON =
     (if every \<le> 0 then None
      else if modifiedRun \<ge> every then Some checkpointReasonCount
      else if length diffBytes > length fullJSON then Some checkpointReasonSize
      else None)"

text \<open>The row an upsert assembles: its event type, its diff, whether the data column carries the
  full state, and the diff-only run it leaves behind.\<close>

record rowPlan =
  rpEventType :: string
  rpDiff :: string
  rpFull :: bool
  rpRun :: int

definition fullRow :: "string \<Rightarrow> rowPlan" where
  "fullRow t = \<lparr>rpEventType = t, rpDiff = '''', rpFull = True, rpRun = 0\<rparr>"

definition modifiedRow :: "Env \<Rightarrow> Writer \<Rightarrow> bool \<Rightarrow> CacheEntry \<Rightarrow> normalizedObject \<Rightarrow> rowPlan" where
  "modifiedRow e writer ephemeral cached norm =
     (if ephemeral then fullRow ''Modified''
      else if ceJSON cached = None then fullRow ''Modified''
      else case decodeBaseline (eDecoder e) cached of
             Inl _ \<Rightarrow> fullRow ''Modified''
           | Inr baseline \<Rightarrow>
               (case eCompareJSON e (case baseline of None \<Rightarrow> '''' | Some b \<Rightarrow> b) (nJSON norm) of
                  None \<Rightarrow> fullRow ''Modified''
                | Some patch \<Rightarrow>
                    (case eMarshalPatch e patch of
                       None \<Rightarrow> fullRow ''Modified''
                     | Some patchBytes \<Rightarrow>
                         if checkpointDue (checkpointEveryFor writer)
                              (ceModifiedSinceCheckpoint cached + 1) patchBytes (nJSON norm) \<noteq> None
                         then \<lparr>rpEventType = ''Checkpoint'', rpDiff = patchBytes, rpFull = True, rpRun = 0\<rparr>
                         else \<lparr>rpEventType = ''Modified'', rpDiff = patchBytes, rpFull = False,
                               rpRun = ceModifiedSinceCheckpoint cached + 1\<rparr>)))"

text \<open>The close-out of a superseded incarnation, when its death can be claimed.\<close>

definition closeReincarnation :: "Env \<Rightarrow> Key \<Rightarrow> nat \<Rightarrow> Writer \<Rightarrow> string \<Rightarrow> CacheEntry \<Rightarrow> Pipeline \<Rightarrow> Pipeline" where
  "closeReincarnation e key a writer objectKey cached p =
     (if key_ephemeral key then p
      else
        let ((claimed, _, outcome), c) = ReserveDelete objectKey (ceUID cached) (cacheAt a p);
            p = setCache a c p
        in if outcome \<noteq> deleteClaimed then p
           else let (ts, p) = timeNow e p
                in enqueueCloseOut e key a writer objectKey (deletedRecord e key claimed ts) p)"

text \<open>Deduplication and reincarnation: None is a duplicate; otherwise the planned row and the
  entry to fall back to if the write fails.\<close>

definition planUpsert ::
    "Env \<Rightarrow> Key \<Rightarrow> nat \<Rightarrow> Writer \<Rightarrow> string \<Rightarrow> normalizedObject \<Rightarrow> Pipeline \<Rightarrow>
     (rowPlan \<times> CacheEntry option) option \<times> Pipeline" where
  "planUpsert e key a writer objectKey norm p =
     (case Load objectKey (cacheAt a p) of
        Some cached \<Rightarrow>
          if ceUID cached \<noteq> '''' \<and> ceUID cached \<noteq> nUID norm then
            (Some (fullRow ''Added'', None), closeReincarnation e key a writer objectKey cached p)
          else if ceHash cached = nHash norm then (None, effect MDedupSkip p)
          else (Some (modifiedRow e writer (key_ephemeral key) cached norm, Some cached), p)
      | None \<Rightarrow>
          if \<not> key_ephemeral key \<and> \<not> scopeWarm (stateAt a p) key
          then (Some (fullRow ''Snapshot'', None), recordScopeUnwarmed key p)
          else (Some (fullRow ''Added'', None), p))"

definition confirmedEntryFor :: "Env \<Rightarrow> Key \<Rightarrow> normalizedObject \<Rightarrow> rowPlan \<Rightarrow> CacheEntry" where
  "confirmedEntryFor e key norm row =
     (let (baseline, enc) =
            (if key_ephemeral key then (None, encodingRaw)
             else case compressBaseline (eEncoder e) (nJSON norm) of (b, enc, _) \<Rightarrow> (Some b, enc))
      in \<lparr>ceHash = nHash norm, ceJSON = baseline, ceEncoding = enc, ceUID = nUID norm,
          ceAPIVersion = nAPIVersion norm, ceModifiedSinceCheckpoint = rpRun row,
          ceVersion = 0, cePendingDelete = False\<rparr>)"

definition upsertRecord :: "Env \<Rightarrow> Key \<Rightarrow> normalizedObject \<Rightarrow> rowPlan \<Rightarrow> int \<Rightarrow> Record" where
  "upsertRecord e key norm row ts =
     \<lparr>rTimestamp = ts, rClusterID = eClusterID e, rEventType = rpEventType row, rAPIGroup = kGroup key,
      rAPIVersion = nAPIVersion norm, rKind = kKind key, rNamespace = kNamespace key, rName = kName key,
      rUID = nUID norm, rResourceVersion = nResourceVersion norm, rLabels = nLabels norm,
      rActors = nActors norm, rData = (if rpFull row then nJSON norm else ''''), rDiff = rpDiff row,
      rSHA256 = nHash norm\<rparr>"

definition revertVersion :: "string \<Rightarrow> 64 word \<Rightarrow> CacheEntry option \<Rightarrow> hashCache \<Rightarrow> hashCache" where
  "revertVersion objectKey version revert c =
     (case revert of
        Some entry \<Rightarrow> snd (CommitIfCurrent objectKey version entry c)
      | None \<Rightarrow> snd (DeleteIfCurrent objectKey version c))"

definition writeUpsert ::
    "Env \<Rightarrow> Key \<Rightarrow> nat \<Rightarrow> Writer \<Rightarrow> string \<Rightarrow> normalizedObject \<Rightarrow> rowPlan \<Rightarrow> CacheEntry option \<Rightarrow>
     Pipeline \<Rightarrow> processError option \<times> Pipeline" where
  "writeUpsert e key a writer objectKey norm row revert p =
     (let confirmed = confirmedEntryFor e key norm row;
          (version, c) = Reserve objectKey confirmed (cacheAt a p);
          p = recordCacheEntries (kSink key) a (setCache a c p);
          (ts, p) = timeNow e p
      in case Enqueue e writer \<lparr>jRecord = upsertRecord e key norm row ts,
                                jCommit = CommitUpsert a key objectKey version confirmed revert\<rparr> p of
           (Some err, p) \<Rightarrow>
             (Some (EnqueueFailed err), setCache a (revertVersion objectKey version revert (cacheAt a p)) p)
         | (None, p) \<Rightarrow> (None, p))"

definition redactionFor :: "Env \<Rightarrow> Key \<Rightarrow> RedactionPolicy option" where
  "redactionFor e key = (case eRedactions e of None \<Rightarrow> Some None | Some r \<Rightarrow> r key)"

definition processUpsert ::
    "Env \<Rightarrow> Key \<Rightarrow> nat \<Rightarrow> Writer \<Rightarrow> jobj \<Rightarrow> string \<Rightarrow> Pipeline \<Rightarrow> processError option \<times> Pipeline" where
  "processUpsert e key a writer obj objectKey p =
     (case redactionFor e key of
        None \<Rightarrow> (Some RedactionUnavailable, p)
      | Some policy \<Rightarrow>
          (case normalizeObject (eUapi e) obj policy of
             None \<Rightarrow> (Some MarshalFailed, p)
           | Some norm \<Rightarrow>
               (case planUpsert e key a writer objectKey norm p of
                  (None, p) \<Rightarrow> (None, p)
                | (Some (row, revert), p) \<Rightarrow> writeUpsert e key a writer objectKey norm row revert p)))"

section \<open>The handler\<close>

definition Process :: "Env \<Rightarrow> Key \<Rightarrow> Pipeline \<Rightarrow> processError option \<times> Pipeline" where
  "Process e key p =
     (case eGet e key of
        Inl err \<Rightarrow> (Some (LookupFailed err), p)
      | Inr (found, scopeActive) \<Rightarrow>
          if \<not> scopeActive then (None, effect (MDropped ''scope_stopped'') p)
          else if found = None \<and> key_ephemeral key then
            (case registry_get (kSink key) (effect (MDropped ''ephemeral_delete'') p) of
               (a, p) \<Rightarrow> (None, forgetEphemeral key a p))
          else
            (case eWriterFor e (kSink key) of
               None \<Rightarrow> (Some SinkUnavailable, p)
             | Some writer \<Rightarrow>
                 let (a, p) = registry_get (kSink key) p;
                     objectKey = cacheKey key;
                     p = retryPendingCloseOuts e key a writer objectKey p
                 in case found of
                      None \<Rightarrow> (case emitDelete e key a writer '''' p of ((_, err), p) \<Rightarrow> (err, p))
                    | Some obj \<Rightarrow> processUpsert e key a writer obj objectKey p))"

definition processNext :: "Env \<Rightarrow> Key \<Rightarrow> Pipeline \<Rightarrow> Pipeline" where
  "processNext e key p =
     (case Process e key p of
        (Some err, p) \<Rightarrow> effect (QDone key) (effect (QAddRateLimited key) p)
      | (None, p) \<Rightarrow> effect (QDone key) (effect (QForget key) p))"

section \<open>Commit callbacks\<close>

definition runCommit :: "Commit \<Rightarrow> bool \<Rightarrow> Pipeline \<Rightarrow> Pipeline" where
  "runCommit c ok p =
     (case c of
        CommitUpsert a key objectKey version confirmed revert \<Rightarrow>
          if ok then setCache a (snd (CommitIfCurrent objectKey version confirmed (cacheAt a p))) p
          else effect (QAddRateLimited key) (setCache a (revertVersion objectKey version revert (cacheAt a p)) p)
      | CommitDelete a key objectKey version \<Rightarrow>
          if ok then recordCacheEntries (kSink key) a
                       (setCache a (snd (DeleteIfCurrent objectKey version (cacheAt a p))) p)
          else effect (QAddRateLimited key) (setCache a (UnclaimDelete objectKey version (cacheAt a p)) p)
      | CommitCloseOut a key objectKey record \<Rightarrow>
          if ok then p else effect (QAddRateLimited key) (addCloseOut a objectKey record p))"

text \<open>A worker settles one job it holds: the job leaves the sink and its callback runs.\<close>

definition settleJob :: "nat \<Rightarrow> bool \<Rightarrow> Pipeline \<Rightarrow> Pipeline" where
  "settleJob i ok p =
     (if i < length (pJobs p)
      then runCommit (jCommit (pJobs p ! i)) ok (p\<lparr>pJobs := take i (pJobs p) @ drop (Suc i) (pJobs p)\<rparr>)
      else p)"

section \<open>Frame lemmas\<close>

named_theorems pipe_simps

lemma effect_sel [pipe_simps]:
  "pStates (effect x p) = pStates p" "pHeap (effect x p) = pHeap p" "pJobs (effect x p) = pJobs p"
  "pTicks (effect x p) = pTicks p" "pEffects (effect x p) = pEffects p @ [x]" "stateAt a (effect x p) = stateAt a p"
  by (simp_all add: effect_def stateAt_def)

lemma stateAt_cong [pipe_simps]:
  "stateAt a (p\<lparr>pTicks := n\<rparr>) = stateAt a p" "stateAt a (p\<lparr>pJobs := j\<rparr>) = stateAt a p"
  "stateAt a (p\<lparr>pStates := s\<rparr>) = stateAt a p" "stateAt a (p\<lparr>pEffects := x\<rparr>) = stateAt a p"
  by (simp_all add: stateAt_def)

lemma modifyState_sel [pipe_simps]:
  "pStates (modifyState a f p) = pStates p" "pJobs (modifyState a f p) = pJobs p"
  "pTicks (modifyState a f p) = pTicks p" "pEffects (modifyState a f p) = pEffects p"
  "length (pHeap (modifyState a f p)) = length (pHeap p)"
  by (simp_all add: modifyState_def)

lemma stateAt_modifyState [pipe_simps]:
  "stateAt b (modifyState a f p) = (if b = a \<and> a < length (pHeap p) then f (stateAt a p) else stateAt b p)"
  by (simp add: modifyState_def stateAt_def)

lemma setCache_sel [pipe_simps]:
  "pStates (setCache a c p) = pStates p" "pJobs (setCache a c p) = pJobs p"
  "pTicks (setCache a c p) = pTicks p" "pEffects (setCache a c p) = pEffects p"
  "length (pHeap (setCache a c p)) = length (pHeap p)"
  by (simp_all add: setCache_def pipe_simps)

lemma stateAt_setCache [pipe_simps]:
  "stateAt b (setCache a c p) =
     (if b = a \<and> a < length (pHeap p) then (stateAt a p)\<lparr>ssCache := c\<rparr> else stateAt b p)"
  by (simp add: setCache_def pipe_simps)

lemma recordCacheEntries_sel [pipe_simps]:
  "pStates (recordCacheEntries s a p) = pStates p" "pHeap (recordCacheEntries s a p) = pHeap p"
  "pJobs (recordCacheEntries s a p) = pJobs p" "pTicks (recordCacheEntries s a p) = pTicks p"
  "stateAt b (recordCacheEntries s a p) = stateAt b p"
  by (simp_all add: recordCacheEntries_def pipe_simps)

lemma addCloseOut_sel [pipe_simps]:
  "pStates (addCloseOut a k r p) = pStates p" "pJobs (addCloseOut a k r p) = pJobs p"
  "pTicks (addCloseOut a k r p) = pTicks p" "length (pHeap (addCloseOut a k r p)) = length (pHeap p)"
  "ssCache (stateAt b (addCloseOut a k r p)) = ssCache (stateAt b p)"
  "ssWarm (stateAt b (addCloseOut a k r p)) = ssWarm (stateAt b p)"
  by (simp_all add: addCloseOut_def pipe_simps)

lemma timeNow_eq [pipe_simps]: "timeNow e p = (eNow e (pTicks p), p\<lparr>pTicks := pTicks p + 1\<rparr>)"
  by (simp add: timeNow_def)

lemma Enqueue_cases:
  obtains err where "Enqueue e w job p = (Some err, p\<lparr>pTicks := pTicks p + 1\<rparr>)" "eEnqueueErr e (pTicks p) = Some err"
  | "Enqueue e w job p = (None, p\<lparr>pTicks := pTicks p + 1, pJobs := pJobs p @ [job]\<rparr>)" "eEnqueueErr e (pTicks p) = None"
  by (cases "eEnqueueErr e (pTicks p)") (auto simp: Enqueue_def)

text \<open>An environment whose writers take every job.\<close>

definition accepting :: "Env \<Rightarrow> bool" where
  "accepting e \<longleftrightarrow> (\<forall>n. eEnqueueErr e n = None)"

lemma Enqueue_accepting [pipe_simps]:
  "accepting e \<Longrightarrow> Enqueue e w job p = (None, p\<lparr>pTicks := pTicks p + 1, pJobs := pJobs p @ [job]\<rparr>)"
  by (simp add: accepting_def Enqueue_def)

text \<open>A registered sink has an address of its own inside the heap.\<close>

definition registry_wf :: "Pipeline \<Rightarrow> bool" where
  "registry_wf p \<longleftrightarrow>
     (\<forall>s a. mget (pStates p) s = Some a \<longrightarrow> a < length (pHeap p)) \<and>
     (\<forall>s s' a. mget (pStates p) s = Some a \<and> mget (pStates p) s' = Some a \<longrightarrow> s = s')"

lemma registry_wf_cong: "pStates p' = pStates p \<Longrightarrow> length (pHeap p') = length (pHeap p) \<Longrightarrow> registry_wf p' = registry_wf p"
  by (simp add: registry_wf_def)

lemma registry_get_spec:
  assumes "registry_get s p = (a, p')" "registry_wf p"
  shows "registry_wf p' \<and> mget (pStates p') s = Some a \<and> a < length (pHeap p') \<and>
         (\<forall>b. stateAt b p' = stateAt b p) \<and> pJobs p' = pJobs p \<and> pTicks p' = pTicks p \<and> pEffects p' = pEffects p \<and>
         (\<forall>t. t \<noteq> s \<longrightarrow> mget (pStates p') t = mget (pStates p) t)"
proof (cases "mget (pStates p) s")
  case None
  have p': "p' = p\<lparr>pStates := mput s a (pStates p), pHeap := pHeap p @ [emptySinkState]\<rparr>" and a: "a = length (pHeap p)"
    using assms(1) None by (auto simp: registry_get_def Let_def)
  have "stateAt b p' = stateAt b p" for b
    by (auto simp: p' stateAt_def nth_append)
  moreover have "registry_wf p'"
    using assms(2) unfolding registry_wf_def p' a
    by (auto simp: mget_mput less_Suc_eq split: if_splits)
  ultimately show ?thesis by (simp add: p' a mget_mput)
next
  case (Some b)
  then show ?thesis using assms by (auto simp: registry_get_def registry_wf_def)
qed

section \<open>Runs\<close>

text \<open>Everything that happens to a pipeline: a worker processes a key, a sink worker settles a job
  it holds, a scope is evicted, marked warm or seeded with a last known state, a sink goes; and
  what the warm coordinator does to single objects: the claim of a dead incarnation by its UID
  and the close-out of an incarnation that history shows was never closed.\<close>

record reincarnation =
  riNamespace :: string
  riName :: string
  riUID :: string
  riAPIVersion :: string
  riTS :: int

definition closeOutRecord :: "reincarnation \<Rightarrow> string \<Rightarrow> Key \<Rightarrow> Record" where
  "closeOutRecord r clusterID key =
     zeroRecord\<lparr>rTimestamp := riTS r, rClusterID := clusterID, rEventType := ''Deleted'',
       rAPIGroup := kGroup key, rAPIVersion := riAPIVersion r, rKind := kKind key,
       rNamespace := kNamespace key, rName := kName key, rUID := riUID r\<rparr>"

definition claimDead :: "Env \<Rightarrow> Key \<Rightarrow> string \<Rightarrow> Pipeline \<Rightarrow> Pipeline" where
  "claimDead e key uid p =
     (case eWriterFor e (kSink key) of
        None \<Rightarrow> p
      | Some w \<Rightarrow> (case registry_get (kSink key) p of (a, p) \<Rightarrow> snd (emitDelete e key a w uid p)))"

definition closePrior :: "Env \<Rightarrow> Key \<Rightarrow> reincarnation \<Rightarrow> Pipeline \<Rightarrow> Pipeline" where
  "closePrior e key r p =
     (case eWriterFor e (kSink key) of
        None \<Rightarrow> p
      | Some w \<Rightarrow> (case registry_get (kSink key) p of (a, p) \<Rightarrow>
                     enqueueCloseOut e key a w (cacheKey key) (closeOutRecord r (eClusterID e) key) p))"

definition seedEntry :: "string \<Rightarrow> string \<Rightarrow> CacheEntry" where
  "seedEntry hash uid = zeroEntry\<lparr>ceHash := hash, ceJSON := None, ceUID := uid\<rparr>"

definition seedKey :: "string \<Rightarrow> string \<Rightarrow> CacheEntry \<Rightarrow> Pipeline \<Rightarrow> Pipeline" where
  "seedKey sinkName objectKey entry p =
     (case registry_get sinkName p of (a, p) \<Rightarrow> setCache a (StoreIfAbsent objectKey entry (cacheAt a p)) p)"

datatype pipeStep =
    RProcess Env Key
  | RSettle nat bool
  | REvict string ScopeKey
  | RWarm string ScopeKey
  | RSeed string string string string
  | RRemove string
  | RClaim Env Key string
  | RClose Env Key reincarnation

fun pipe_exec :: "pipeStep \<Rightarrow> Pipeline \<Rightarrow> Pipeline" where
  "pipe_exec (RProcess e key) p = processNext e key p"
| "pipe_exec (RSettle i ok) p = settleJob i ok p"
| "pipe_exec (REvict s scope) p = EvictScope s scope p"
| "pipe_exec (RWarm s scope) p = MarkScopeWarm s scope p"
| "pipe_exec (RSeed s k hash uid) p = seedKey s k (seedEntry hash uid) p"
| "pipe_exec (RRemove s) p = RemoveSink s p"
| "pipe_exec (RClaim e key uid) p = claimDead e key uid p"
| "pipe_exec (RClose e key r) p = closePrior e key r p"

text \<open>Runs under a condition on the environment; claims and close-outs never concern Events.\<close>

fun stepOk :: "(Env \<Rightarrow> Key \<Rightarrow> bool) \<Rightarrow> pipeStep \<Rightarrow> bool" where
  "stepOk envOk (RProcess e key) = envOk e key"
| "stepOk envOk (RClaim e key uid) = (envOk e key \<and> \<not> key_ephemeral key)"
| "stepOk envOk (RClose e key r) = (envOk e key \<and> \<not> key_ephemeral key)"
| "stepOk envOk _ = True"

inductive pipeline_reach :: "(Env \<Rightarrow> Key \<Rightarrow> bool) \<Rightarrow> Pipeline \<Rightarrow> bool" for envOk where
  reach_init: "pipeline_reach envOk Pipeline_New"
| reach_step: "pipeline_reach envOk p \<Longrightarrow> stepOk envOk s \<Longrightarrow> pipeline_reach envOk (pipe_exec s p)"

section \<open>Laws of entries and rows\<close>

text \<open>A law \<open>P\<close> of cache entries and a law \<open>R\<close> of rows hold of a pipeline when \<open>P\<close> holds of every
  entry of every cache and of every entry a pending callback may store, and \<open>R\<close> of every row handed
  to a writer and of every row waiting for a retry.\<close>

definition cache_all :: "(string \<Rightarrow> CacheEntry \<Rightarrow> bool) \<Rightarrow> hashCache \<Rightarrow> bool" where
  "cache_all P c \<longleftrightarrow> (\<forall>k e. mget c k = Some e \<longrightarrow> P k e)"

definition rows_all :: "(Record \<Rightarrow> bool) \<Rightarrow> (string, Record list) gomap \<Rightarrow> bool" where
  "rows_all R q \<longleftrightarrow> (\<forall>k rs. mget q k = Some rs \<longrightarrow> (\<forall>r \<in> set rs. R r))"

definition commit_all :: "(string \<Rightarrow> CacheEntry \<Rightarrow> bool) \<Rightarrow> (Record \<Rightarrow> bool) \<Rightarrow> Commit \<Rightarrow> bool" where
  "commit_all P R c \<longleftrightarrow>
     (case c of CommitUpsert a key k v confirmed revert \<Rightarrow> P k confirmed \<and> (\<forall>x. revert = Some x \<longrightarrow> P k x)
              | CommitDelete a key k v \<Rightarrow> True
              | CommitCloseOut a key k r \<Rightarrow> R r)"

definition pipeline_ok :: "(string \<Rightarrow> CacheEntry \<Rightarrow> bool) \<Rightarrow> (Record \<Rightarrow> bool) \<Rightarrow> Pipeline \<Rightarrow> bool" where
  "pipeline_ok P R p \<longleftrightarrow>
     (\<forall>a. cache_all P (cacheAt a p)) \<and> (\<forall>a. rows_all R (ssCloseOuts (stateAt a p))) \<and>
     (\<forall>job \<in> set (pJobs p). R (jRecord job) \<and> commit_all P R (jCommit job))"

lemma rows_Add: "rows_all R q \<Longrightarrow> R r \<Longrightarrow> rows_all R (closeOuts_Add k r q)"
  by (cases "mget q k") (auto simp: rows_all_def closeOuts_Add_def)

text \<open>The object a handler run sees, normalized under the policy in force.\<close>

definition sees :: "Env \<Rightarrow> Key \<Rightarrow> normalizedObject \<Rightarrow> bool" where
  "sees e key norm \<longleftrightarrow>
     (\<exists>obj policy. eGet e key = Inr (Some obj, True) \<and> redactionFor e key = Some policy \<and>
        normalizeObject (eUapi e) obj policy = Some norm)"

locale pipeline_law =
  fixes P :: "string \<Rightarrow> CacheEntry \<Rightarrow> bool" and R :: "Record \<Rightarrow> bool" and envOk :: "Env \<Rightarrow> Key \<Rightarrow> bool"
  assumes version_free: "P k entry \<Longrightarrow> P k (entry\<lparr>ceVersion := v\<rparr>)"
    and claim_free: "P k entry \<Longrightarrow> P k (entry\<lparr>cePendingDelete := b\<rparr>)"
    and seed_ok: "P k (seedEntry h u)"
    and full_ok: "envOk e key \<Longrightarrow> sees e key norm \<Longrightarrow>
           P (cacheKey key) (confirmedEntryFor e key norm (fullRow t)) \<and>
           (t \<in> {''Added'', ''Snapshot''} \<longrightarrow> R (upsertRecord e key norm (fullRow t) ts))"
    and modified_ok: "envOk e key \<Longrightarrow> sees e key norm \<Longrightarrow> eWriterFor e (kSink key) = Some w \<Longrightarrow>
           P (cacheKey key) cached \<Longrightarrow>
           P (cacheKey key) (confirmedEntryFor e key norm (modifiedRow e w (key_ephemeral key) cached norm)) \<and>
           R (upsertRecord e key norm (modifiedRow e w (key_ephemeral key) cached norm) ts)"
    and deleted_ok: "envOk e key \<Longrightarrow> \<not> key_ephemeral key \<Longrightarrow> P (cacheKey key) entry \<Longrightarrow>
           R (deletedRecord e key entry ts)"
    and closed_ok: "envOk e key \<Longrightarrow> \<not> key_ephemeral key \<Longrightarrow> R (closeOutRecord r (eClusterID e) key)"
begin

lemma cache_ReserveDelete: "cache_all P c \<Longrightarrow> cache_all P (snd (ReserveDelete k uid c))"
  unfolding cache_all_def ReserveDelete_def
  by (auto split: option.splits intro: version_free claim_free)

lemma cache_Reserve: "cache_all P c \<Longrightarrow> P k e \<Longrightarrow> cache_all P (snd (Reserve k e c))"
  unfolding cache_all_def Reserve_def by (auto simp: Let_def intro: version_free)

lemma cache_Commit: "cache_all P c \<Longrightarrow> P k e \<Longrightarrow> cache_all P (snd (CommitIfCurrent k v e c))"
  unfolding cache_all_def CommitIfCurrent_def by (auto simp: Let_def split: option.splits intro: version_free)

lemma cache_Delete: "cache_all P c \<Longrightarrow> cache_all P (snd (DeleteIfCurrent k v c))"
  unfolding cache_all_def DeleteIfCurrent_def by (auto simp: Let_def split: option.splits)

lemma cache_Unclaim: "cache_all P c \<Longrightarrow> cache_all P (UnclaimDelete k v c)"
  unfolding cache_all_def UnclaimDelete_def by (auto simp: Let_def split: option.splits intro: claim_free)

lemma cache_revert: "cache_all P c \<Longrightarrow> (\<And>x. r = Some x \<Longrightarrow> P k x) \<Longrightarrow> cache_all P (revertVersion k v r c)"
  by (auto simp: revertVersion_def cache_Commit cache_Delete split: option.splits)

lemma cache_Store: "cache_all P c \<Longrightarrow> P k e \<Longrightarrow> cache_all P (StoreIfAbsent k e c)"
  unfolding cache_all_def StoreIfAbsent_def by (auto simp: Let_def split: option.splits intro: version_free)

lemma cache_DeletePrefix: "cache_all P c \<Longrightarrow> cache_all P (snd (DeletePrefix pre c))"
  unfolding cache_all_def DeletePrefix_def by (auto split: if_splits)

lemmas cache_ops = cache_ReserveDelete cache_Reserve cache_Commit cache_Delete cache_Unclaim cache_revert
  cache_Store cache_DeletePrefix

lemma claimed_ok:
  assumes "cache_all P c" "ReserveDelete k uid c = ((entry, v, deleteClaimed), c')"
  shows "P k entry"
  using assms by (auto simp: ReserveDelete_def cache_all_def Let_def split: option.splits if_splits)

lemma ok_setCache: "pipeline_ok P R p \<Longrightarrow> cache_all P c \<Longrightarrow> pipeline_ok P R (setCache a c p)"
  by (simp add: pipeline_ok_def pipe_simps)

lemma ok_frame:
  "pipeline_ok P R (effect x p) = pipeline_ok P R p"
  "pipeline_ok P R (p\<lparr>pTicks := n\<rparr>) = pipeline_ok P R p"
  "pipeline_ok P R (recordCacheEntries s a p) = pipeline_ok P R p"
  "pipeline_ok P R (p\<lparr>pStates := t\<rparr>) = pipeline_ok P R p"
  by (simp_all add: pipeline_ok_def pipe_simps)

lemma ok_cache: "pipeline_ok P R p \<Longrightarrow> cache_all P (cacheAt a p)"
  by (simp add: pipeline_ok_def)

lemma ok_modify_warm: "pipeline_ok P R (modifyState a (\<lambda>st. st\<lparr>ssWarm := f (ssWarm st)\<rparr>) p) = pipeline_ok P R p"
  by (auto simp: pipeline_ok_def pipe_simps)

lemma ok_addCloseOut: "pipeline_ok P R p \<Longrightarrow> R r \<Longrightarrow> pipeline_ok P R (addCloseOut a k r p)"
  by (simp add: pipeline_ok_def addCloseOut_def pipe_simps rows_Add)

lemma ok_get: "pipeline_ok P R p \<Longrightarrow> pipeline_ok P R (snd (registry_get s p))"
  by (auto simp: pipeline_ok_def registry_get_def Let_def stateAt_def nth_append emptySinkState_def cache_all_def
      rows_all_def less_Suc_eq split: option.splits if_splits)

lemma ok_Enqueue:
  assumes "pipeline_ok P R p" "R (jRecord job)" "commit_all P R (jCommit job)"
  shows "pipeline_ok P R (snd (Enqueue e w job p))"
  by (cases rule: Enqueue_cases [of e w job p])
     (use assms in \<open>auto simp: ok_frame pipeline_ok_def pipe_simps\<close>)

lemma ok_enqueueCloseOut: "pipeline_ok P R p \<Longrightarrow> R r \<Longrightarrow> pipeline_ok P R (enqueueCloseOut e key a w k r p)"
  using ok_Enqueue [of p "\<lparr>jRecord = r, jCommit = CommitCloseOut a key k r\<rparr>" e w]
  by (auto simp: enqueueCloseOut_def commit_all_def ok_frame ok_addCloseOut split: prod.splits option.splits)

lemma ok_retry:
  assumes "pipeline_ok P R p"
  shows "pipeline_ok P R (retryPendingCloseOuts e key a w k p)"
proof -
  have fold: "pipeline_ok P R q \<Longrightarrow> \<forall>r \<in> set rs. R r \<Longrightarrow> pipeline_ok P R (fold (enqueueCloseOut e key a w k) rs q)" for rs q
    by (induction rs arbitrary: q) (simp_all add: ok_enqueueCloseOut)
  have rows: "rows_all R (ssCloseOuts (stateAt a p))" using assms by (simp add: pipeline_ok_def)
  then have "pipeline_ok P R (modifyState a (\<lambda>st. st\<lparr>ssCloseOuts := mdel k (ssCloseOuts (stateAt a p))\<rparr>) p)"
    using assms by (auto simp: pipeline_ok_def pipe_simps rows_all_def)
  then show ?thesis
    using rows by (auto simp: retryPendingCloseOuts_def closeOuts_TakeAll_def rows_all_def Let_def
        split: option.splits intro!: fold)
qed

lemma ok_claim:
  assumes "pipeline_ok P R p" "ReserveDelete k uid (cacheAt a p) = (r, c)"
  shows "pipeline_ok P R (setCache a c p)"
  using assms cache_ReserveDelete [OF ok_cache [OF assms(1)], of k uid a] by (auto intro: ok_setCache)

end

context pipeline_law
begin

lemma ok_emitDelete:
  assumes "pipeline_ok P R p" "envOk e key" "\<not> key_ephemeral key"
  shows "pipeline_ok P R (snd (emitDelete e key a w uid p))"
proof -
  obtain entry v out c where rd: "ReserveDelete (cacheKey key) uid (cacheAt a p) = ((entry, v, out), c)"
    by (metis prod_cases3 surj_pair)
  define p1 where "p1 = (setCache a c p)\<lparr>pTicks := pTicks p + 1\<rparr>"
  define job where "job = \<lparr>jRecord = deletedRecord e key entry (eNow e (pTicks p)), jCommit = CommitDelete a key (cacheKey key) v\<rparr>"
  have p1: "pipeline_ok P R p1"
    by (simp add: p1_def ok_frame ok_claim [OF assms(1) rd])
  obtain r p2 where en: "Enqueue e w job p1 = (r, p2)" by fastforce
  have p2: "pipeline_ok P R p2" if "out = deleteClaimed"
    using ok_Enqueue [OF p1, of job e w] en rd that claimed_ok [OF ok_cache [OF assms(1)], of "cacheKey key" uid a]
    by (simp add: job_def commit_all_def deleted_ok assms)
  have "snd (emitDelete e key a w uid p) =
      (if out \<noteq> deleteClaimed then setCache a c p
       else if r = None then p2 else setCache a (UnclaimDelete (cacheKey key) v (cacheAt a p2)) p2)"
    using rd en by (auto simp: emitDelete_def pipe_simps p1_def job_def Let_def split: option.splits)
  then show ?thesis
    using p2 ok_claim [OF assms(1) rd] by (simp add: ok_setCache cache_Unclaim ok_cache)
qed

lemma ok_forget:
  assumes "pipeline_ok P R p"
  shows "pipeline_ok P R (forgetEphemeral key a p)"
proof -
  obtain entry v out c where rd: "ReserveDelete (cacheKey key) '''' (cacheAt a p) = ((entry, v, out), c)"
    by (metis prod_cases3 surj_pair)
  define p1 where "p1 = setCache a c p"
  have p1: "pipeline_ok P R p1" by (simp add: p1_def ok_claim [OF assms rd])
  obtain b d where dl: "DeleteIfCurrent (cacheKey key) v (cacheAt a p1) = (b, d)" by fastforce
  have "pipeline_ok P R (setCache a d p1)"
    using cache_Delete [OF ok_cache [OF p1], of "cacheKey key" v a] dl by (simp add: ok_setCache p1)
  then show ?thesis
    using rd dl p1 by (cases b) (simp_all add: forgetEphemeral_def Let_def ok_frame flip: p1_def)
qed

lemma ok_closeReincarnation:
  assumes "pipeline_ok P R p" "envOk e key"
  shows "pipeline_ok P R (closeReincarnation e key a w (cacheKey key) cached p)"
proof -
  obtain entry v out c where rd: "ReserveDelete (cacheKey key) (ceUID cached) (cacheAt a p) = ((entry, v, out), c)"
    by (metis prod_cases3 surj_pair)
  show ?thesis
    using ok_claim [OF assms(1) rd] assms rd claimed_ok [OF ok_cache [OF assms(1)], of "cacheKey key" "ceUID cached" a]
    by (auto simp: closeReincarnation_def rd Let_def pipe_simps ok_frame intro!: ok_enqueueCloseOut deleted_ok)
qed

lemma ok_writeUpsert:
  assumes "pipeline_ok P R p" "P k (confirmedEntryFor e key norm row)" "\<And>x. revert = Some x \<Longrightarrow> P k x"
    and "\<And>ts. R (upsertRecord e key norm row ts)"
  shows "pipeline_ok P R (snd (writeUpsert e key a w k norm row revert p))"
proof -
  define conf where "conf = confirmedEntryFor e key norm row"
  obtain v c where rs: "Reserve k conf (cacheAt a p) = (v, c)" by fastforce
  define p1 where "p1 = (recordCacheEntries (kSink key) a (setCache a c p))\<lparr>pTicks := pTicks p + 1\<rparr>"
  define job where "job = \<lparr>jRecord = upsertRecord e key norm row (eNow e (pTicks p)), jCommit = CommitUpsert a key k v conf revert\<rparr>"
  have "cache_all P c"
    using cache_Reserve [OF ok_cache [OF assms(1)], of k conf a] rs assms(2) by (simp add: conf_def)
  then have p1: "pipeline_ok P R p1"
    by (simp add: p1_def ok_frame ok_setCache assms(1))
  obtain r p2 where en: "Enqueue e w job p1 = (r, p2)" by fastforce
  have p2: "pipeline_ok P R p2"
    using ok_Enqueue [OF p1, of job e w] en assms(2-4) by (simp add: job_def commit_all_def conf_def)
  have "snd (writeUpsert e key a w k norm row revert p) =
      (if r = None then p2 else setCache a (revertVersion k v revert (cacheAt a p2)) p2)"
    using rs en by (auto simp: writeUpsert_def pipe_simps p1_def job_def Let_def conf_def split: option.splits)
  then show ?thesis
    using p2 assms(3) by (simp add: ok_setCache cache_revert ok_cache)
qed

lemma ok_processUpsert:
  assumes "pipeline_ok P R p" "envOk e key" "eWriterFor e (kSink key) = Some w" "eGet e key = Inr (Some obj, True)"
  shows "pipeline_ok P R (snd (processUpsert e key a w obj (cacheKey key) p))"
proof -
  have "pipeline_ok P R (snd (case planUpsert e key a w (cacheKey key) norm p of
          (None, p) \<Rightarrow> (None, p)
        | (Some (row, revert), p) \<Rightarrow> writeUpsert e key a w (cacheKey key) norm row revert p))"
    if sees: "sees e key norm" for norm
  proof (cases "mget (cacheAt a p) (cacheKey key)")
    case None
    then show ?thesis
      using assms full_ok [OF assms(2) sees]
      by (auto simp: planUpsert_def Load_def recordScopeUnwarmed_def ok_frame intro!: ok_writeUpsert)
  next
    case (Some cached)
    have "P (cacheKey key) cached" using ok_cache [OF assms(1), of a] Some by (simp add: cache_all_def)
    with Some show ?thesis
      using assms full_ok [OF assms(2) sees] modified_ok [OF assms(2) sees assms(3)]
      by (auto simp: planUpsert_def Load_def ok_frame intro!: ok_writeUpsert ok_closeReincarnation)
  qed
  then show ?thesis
    using assms(1,4) by (auto simp: processUpsert_def sees_def split: option.splits)
qed

end

context pipeline_law
begin

lemma ok_Process:
  assumes "pipeline_ok P R p" "envOk e key"
  shows "pipeline_ok P R (snd (Process e key p))"
proof -
  obtain a q where g: "registry_get (kSink key) p = (a, q)" by fastforce
  obtain b r where g': "registry_get (kSink key) (effect (MDropped ''ephemeral_delete'') p) = (b, r)" by fastforce
  have q: "pipeline_ok P R q" using ok_get [OF assms(1), of "kSink key"] g by simp
  have r: "pipeline_ok P R r"
    using ok_get [of "effect (MDropped ''ephemeral_delete'') p" "kSink key"] g' assms(1) by (simp add: ok_frame)
  have "pipeline_ok P R s'"
    if "emitDelete e key a w uid (retryPendingCloseOuts e key a w k q) = (x, s')" "\<not> key_ephemeral key" for w uid k x s'
    using ok_emitDelete [OF ok_retry [OF q] assms(2) that(2), of a w uid e key a w k] that(1) by simp
  then show ?thesis
    using assms q r ok_processUpsert ok_retry
    by (auto simp: Process_def g g' ok_frame ok_forget Let_def split: sum.split prod.split option.split)
qed

lemma ok_runCommit: "pipeline_ok P R p \<Longrightarrow> commit_all P R c \<Longrightarrow> pipeline_ok P R (runCommit c ok p)"
  by (auto simp: runCommit_def ok_frame commit_all_def split: Commit.splits
      intro!: ok_setCache cache_ops ok_cache ok_addCloseOut)

lemma ok_settle:
  assumes "pipeline_ok P R p"
  shows "pipeline_ok P R (settleJob i ok p)"
proof (cases "i < length (pJobs p)")
  case True
  define js where "js = take i (pJobs p) @ drop (Suc i) (pJobs p)"
  have "set js \<subseteq> set (pJobs p)" by (auto simp: js_def dest: in_set_takeD in_set_dropD)
  then have "pipeline_ok P R (p\<lparr>pJobs := js\<rparr>)" using assms by (auto simp: pipeline_ok_def pipe_simps)
  moreover have "commit_all P R (jCommit (pJobs p ! i))" using assms True by (auto simp: pipeline_ok_def)
  ultimately show ?thesis using True ok_runCommit by (simp add: settleJob_def flip: js_def)
qed (simp add: settleJob_def assms)

lemma ok_exec:
  assumes "pipeline_ok P R p" "stepOk envOk s"
  shows "pipeline_ok P R (pipe_exec s p)"
proof (cases s)
  case (RProcess e key)
  then show ?thesis
    using ok_Process [OF assms(1), of e key] assms(2)
    by (auto simp: processNext_def ok_frame split: prod.splits option.splits)
next
  case (RSettle i ok)
  then show ?thesis by (simp add: ok_settle assms)
next
  case (REvict t scope)
  then show ?thesis
    using assms(1)
    by (auto simp: EvictScope_def Let_def ok_frame ok_modify_warm split: option.splits
        intro!: ok_setCache cache_DeletePrefix ok_cache)
next
  case (RWarm t scope)
  then show ?thesis
    using ok_get [OF assms(1), of t]
    by (auto simp: MarkScopeWarm_def ok_frame ok_modify_warm split: prod.splits)
next
  case (RSeed t k h u)
  then show ?thesis
    using ok_get [OF assms(1), of t]
    by (auto simp: seedKey_def seed_ok split: prod.splits intro!: ok_setCache cache_Store ok_cache)
next
  case (RRemove t)
  then show ?thesis by (simp add: RemoveSink_def ok_frame assms)
next
  case (RClaim e key uid)
  then show ?thesis
    using ok_get [OF assms(1), of "kSink key"] assms
    by (auto simp: claimDead_def split: option.splits prod.splits intro: ok_emitDelete)
next
  case (RClose e key r)
  then show ?thesis
    using ok_get [OF assms(1), of "kSink key"] assms
    by (auto simp: closePrior_def split: option.splits prod.splits intro: ok_enqueueCloseOut closed_ok)
qed

lemma ok_reach: "pipeline_reach envOk p \<Longrightarrow> pipeline_ok P R p"
proof (induction rule: pipeline_reach.induct)
  case reach_init
  then show ?case
    by (simp add: pipeline_ok_def Pipeline_New_def stateAt_def emptySinkState_def cache_all_def rows_all_def)
next
  case (reach_step p s)
  then show ?case by (auto intro: ok_exec)
qed

end

section \<open>Laws of every run\<close>

text \<open>A checkpoint bounds every diff-only run below the writer's cadence.\<close>

definition run_below :: "int \<Rightarrow> string \<Rightarrow> CacheEntry \<Rightarrow> bool" where
  "run_below n k entry \<longleftrightarrow> 0 \<le> ceModifiedSinceCheckpoint entry \<and> (0 < n \<longrightarrow> ceModifiedSinceCheckpoint entry < n)"

definition cadence :: "int \<Rightarrow> Env \<Rightarrow> Key \<Rightarrow> bool" where
  "cadence n e key \<longleftrightarrow> (\<forall>w. eWriterFor e (kSink key) = Some w \<longrightarrow> wCheckpointEvery w = Some n)"

lemma modifiedRow_run:
  assumes "0 \<le> ceModifiedSinceCheckpoint cached" "wCheckpointEvery w = Some n"
  shows "0 \<le> rpRun (modifiedRow e w eph cached norm) \<and> (0 < n \<longrightarrow> rpRun (modifiedRow e w eph cached norm) < n)"
  using assms
  by (auto simp: modifiedRow_def fullRow_def checkpointDue_def checkpointEveryFor_def
      split: sum.split option.split if_splits)

lemma confirmedEntryFor_sel:
  "ceModifiedSinceCheckpoint (confirmedEntryFor e key norm row) = rpRun row"
  "ceHash (confirmedEntryFor e key norm row) = nHash norm"
  "ceUID (confirmedEntryFor e key norm row) = nUID norm"
  "ceAPIVersion (confirmedEntryFor e key norm row) = nAPIVersion norm"
  "cePendingDelete (confirmedEntryFor e key norm row) = False"
  "ceJSON (confirmedEntryFor e key norm row) = None \<longleftrightarrow> key_ephemeral key"
  by (simp_all add: confirmedEntryFor_def split: prod.splits)

interpretation bounded_runs: pipeline_law "run_below n" "\<lambda>r. True" "cadence n" for n
  by unfold_locales
    (auto simp: run_below_def seedEntry_def zeroEntry_def confirmedEntryFor_sel fullRow_def cadence_def
      dest: modifiedRow_run)



text \<open>Events: no baseline is cached for them and no row ever claims that one was deleted; a
  Deleted row of any other kind carries no content.\<close>

definition event_entry :: "string \<Rightarrow> CacheEntry \<Rightarrow> bool" where
  "event_entry k entry \<longleftrightarrow> (\<forall>key. wf_key key \<and> key_ephemeral key \<and> k = cacheKey key \<longrightarrow> ceJSON entry = None)"

definition deletion_row :: "Record \<Rightarrow> bool" where
  "deletion_row r \<longleftrightarrow> (rEventType r = ''Deleted'' \<longrightarrow>
     \<not> ephemeralKind (rAPIGroup r) (rKind r) \<and> rData r = '''' \<and> rDiff r = '''' \<and> rSHA256 r = '''')"

lemma modifiedRow_type: "rpEventType (modifiedRow e w eph cached norm) \<in> {''Modified'', ''Checkpoint''}"
  by (auto simp: modifiedRow_def fullRow_def split: sum.split option.split)

lemma ephemeral_same_cacheKey:
  "wf_key key \<Longrightarrow> wf_key key' \<Longrightarrow> cacheKey key' = cacheKey key \<Longrightarrow> key_ephemeral key' = key_ephemeral key"
  by (simp add: cacheKey_eq_iff key_ephemeral_def)

lemma event_entry_confirmed: "wf_key key \<Longrightarrow> event_entry (cacheKey key) (confirmedEntryFor e key norm row)"
  unfolding event_entry_def confirmedEntryFor_sel by (metis ephemeral_same_cacheKey)

lemma deletion_row_upsert: "rpEventType row \<noteq> ''Deleted'' \<Longrightarrow> deletion_row (upsertRecord e key norm row ts)"
  by (simp add: deletion_row_def upsertRecord_def)

interpretation events: pipeline_law event_entry deletion_row "\<lambda>e key. wf_key key"
proof (unfold_locales, goal_cases)
  case (5 e key norm w cached ts)
  then show ?case
    using modifiedRow_type [of e w "key_ephemeral key" cached norm]
    by (auto intro: event_entry_confirmed deletion_row_upsert)
next
  case (4 e key norm t ts)
  then show ?case by (auto simp: fullRow_def intro!: event_entry_confirmed deletion_row_upsert)
qed (simp_all add: event_entry_def seedEntry_def deletion_row_def deletedRecord_def zeroRecord_def key_ephemeral_def closeOutRecord_def)

text \<open>C5. No run ever hands a writer a Deleted row for a Kubernetes Event, nor keeps one for a retry,
  nor spends memory on a baseline for one; and a Deleted row never carries content.\<close>

theorem events_never_deleted:
  assumes "pipeline_reach (\<lambda>e key. wf_key key) p"
  shows "(\<forall>job \<in> set (pJobs p). rEventType (jRecord job) = ''Deleted'' \<longrightarrow>
            \<not> ephemeralKind (rAPIGroup (jRecord job)) (rKind (jRecord job)) \<and> rData (jRecord job) = '''' \<and>
            rDiff (jRecord job) = '''') \<and>
         (\<forall>a k rs. mget (ssCloseOuts (stateAt a p)) k = Some rs \<longrightarrow>
            (\<forall>r \<in> set rs. rEventType r = ''Deleted'' \<longrightarrow> \<not> ephemeralKind (rAPIGroup r) (rKind r))) \<and>
         (\<forall>a key entry. wf_key key \<and> key_ephemeral key \<and> mget (cacheAt a p) (cacheKey key) = Some entry \<longrightarrow>
            ceJSON entry = None)"
proof -
  have ok: "pipeline_ok event_entry deletion_row p" by (rule events.ok_reach [OF assms])
  have "deletion_row (jRecord job)" if "job \<in> set (pJobs p)" for job
    using ok that by (simp add: pipeline_ok_def)
  moreover have "deletion_row r" if "mget (ssCloseOuts (stateAt a p)) k = Some rs" "r \<in> set rs" for a k rs r
    using ok that unfolding pipeline_ok_def rows_all_def by blast
  moreover have "event_entry k entry" if "mget (cacheAt a p) k = Some entry" for a k entry
    using ok that unfolding pipeline_ok_def cache_all_def by blast
  ultimately show ?thesis
    unfolding deletion_row_def event_entry_def by blast
qed

text \<open>A small environment for concrete runs: every sink has a writer that takes every job and asks
  for a checkpoint every tenth row, and the patch of two states is the text of the new one.\<close>

definition sampleEnv :: "(Key \<Rightarrow> string + (jobj option \<times> bool)) \<Rightarrow> Env" where
  "sampleEnv look = \<lparr>eClusterID = ''c'', eGet = look, eRedactions = None,
     eWriterFor = (\<lambda>s. Some \<lparr>wID = 0, wCheckpointEvery = Some 10\<rparr>), eEnqueueErr = (\<lambda>n. None), eNow = int,
     eUapi = uapi_doc, eEncoder = None, eDecoder = Some (\<lambda>y. Some (drop 4 y)), eCompareJSON = (\<lambda>a b. Some (JStr b)),
     eMarshalPatch = (\<lambda>v. case v of JStr s \<Rightarrow> Some s | _ \<Rightarrow> None)\<rparr>"

definition sampleKey :: Key where
  "sampleKey = \<lparr>kSink = ''s'', kGroup = '''', kKind = ''Pod'', kNamespace = ''ns'', kName = ''a''\<rparr>"

lemma wf_sampleKey: "wf_key sampleKey" by (simp add: wf_key_def sampleKey_def)

theorem events_never_deleted_witness:
  "let p = pipe_exec (RProcess (sampleEnv (\<lambda>k. Inr (None, True))) sampleKey)
             (pipe_exec (RSeed ''s'' (cacheKey sampleKey) ''h'' ''u'') Pipeline_New)
   in map (rEventType \<circ> jRecord) (pJobs p) = [''Deleted''] \<and>
      (\<forall>job \<in> set (pJobs p). \<not> ephemeralKind (rAPIGroup (jRecord job)) (rKind (jRecord job)))"
proof -
  define p where "p = pipe_exec (RProcess (sampleEnv (\<lambda>k. Inr (None, True))) sampleKey)
             (pipe_exec (RSeed ''s'' (cacheKey sampleKey) ''h'' ''u'') Pipeline_New)"
  have "pipeline_reach (\<lambda>e key. wf_key key) p"
    unfolding p_def by (intro pipeline_reach.intros) (simp_all add: wf_sampleKey)
  note law = events_never_deleted [OF this]
  have "map (rEventType \<circ> jRecord) (pJobs p) = [''Deleted'']"
    unfolding p_def by code_simp
  then have "map (rEventType \<circ> jRecord) (pJobs p) = [''Deleted''] \<and>
      (\<forall>job \<in> set (pJobs p). \<not> ephemeralKind (rAPIGroup (jRecord job)) (rKind (jRecord job)))"
    using law by (cases "pJobs p") auto
  then show ?thesis unfolding Let_def p_def .
qed

text \<open>What a row may show under a path that every policy in force redacts.\<close>

definition redacted_row :: "redactionPath \<Rightarrow> Record \<Rightarrow> bool" where
  "redacted_row q r \<longleftrightarrow>
     rData r = '''' \<or> (\<exists>v. marshal v = Some (rData r) \<and> set (select (rpSegments q) v) \<subseteq> {sentinel})"

definition covered_by :: "redactionPath \<Rightarrow> Env \<Rightarrow> Key \<Rightarrow> bool" where
  "covered_by q e key \<longleftrightarrow> (\<forall>policy. redactionFor e key = Some policy \<longrightarrow> q \<in> set (policyPaths policy))"

lemma redacted_upsert:
  assumes "covered_by q e key" "sees e key norm"
  shows "redacted_row q (upsertRecord e key norm row ts)"
proof -
  obtain obj policy v where v: "redactionFor e key = Some policy" "v = Redact_Apply policy obj" "marshal v = Some (nJSON norm)"
    using assms(2) unfolding sees_def normalizeObject_def by (auto split: option.splits)
  have "q \<in> set (policyPaths policy)" using assms(1) v(1) by (simp add: covered_by_def)
  then have "red (rpSegments q) v = v"
    using fold_applyPath_last [of q "policyPaths policy" obj] by (simp add: v(2) Redact_Apply_def applyPath_red)
  then have "set (select (rpSegments q) v) \<subseteq> {sentinel}" using red_fixed_select by blast
  then show ?thesis using v(3) by (auto simp: redacted_row_def upsertRecord_def)
qed

interpretation redaction: pipeline_law "\<lambda>k entry. True" "redacted_row q" "covered_by q" for q
  by unfold_locales (simp_all add: redacted_upsert, simp_all add: redacted_row_def deletedRecord_def closeOutRecord_def zeroRecord_def)

text \<open>In every run in which each policy in force redacts a path, no row carries anything but the
  sentinel under that path: the data column of every row ever handed to a writer is empty or the
  JSON of an object redacted there.\<close>

theorem rows_respect_redaction:
  assumes "pipeline_reach (covered_by q) p" "job \<in> set (pJobs p)"
  shows "rData (jRecord job) = '''' \<or>
    (\<exists>v. marshal v = Some (rData (jRecord job)) \<and> set (select (rpSegments q) v) \<subseteq> {sentinel})"
proof -
  have "pipeline_ok (\<lambda>k entry. True) (redacted_row q) p" by (rule redaction.ok_reach [OF assms(1)])
  then show ?thesis using assms(2) by (simp add: pipeline_ok_def redacted_row_def)
qed

theorem rows_respect_redaction_witness:
  "let p = pipe_exec (RProcess (sampleEnv (\<lambda>k. Inr (None, True))) sampleKey)
             (pipe_exec (RSeed ''s'' (cacheKey sampleKey) ''h'' ''u'') Pipeline_New)
   in length (pJobs p) = 1 \<and>
      (\<forall>job \<in> set (pJobs p). rData (jRecord job) = '''' \<or>
         (\<exists>v. marshal v = Some (rData (jRecord job)) \<and> set (select (rpSegments lastAppliedPath) v) \<subseteq> {sentinel}))"
proof -
  define p where "p = pipe_exec (RProcess (sampleEnv (\<lambda>k. Inr (None, True))) sampleKey)
             (pipe_exec (RSeed ''s'' (cacheKey sampleKey) ''h'' ''u'') Pipeline_New)"
  have "covered_by lastAppliedPath (sampleEnv look) key" for look key
    by (simp add: covered_by_def redactionFor_def sampleEnv_def policyPaths_def builtinRedaction_eq)
  then have "pipeline_reach (covered_by lastAppliedPath) p"
    unfolding p_def by (intro pipeline_reach.intros) auto
  note law = rows_respect_redaction [OF this]
  have "length (pJobs p) = 1"
    unfolding p_def by code_simp
  then show ?thesis using law by (simp add: Let_def flip: p_def del: pipe_exec.simps)
qed

end
