(* ===== verification/History.thy ===== *)
theory History
imports Pipeline
begin

text \<open>
  What a run of the pipeline leaves in a sink: redelivery of a key adds nothing, every Deleted row
  is justified by what the handler saw, a removed sink's callbacks never reach its successor, and
  the rows of an object replay to its current state as long as writes succeed.  The last section
  exhibits the runs in which a failed write breaks that reconstruction.
\<close>

section \<open>Handlers whose writers take every job\<close>

definition pendingAt :: "nat \<Rightarrow> string \<Rightarrow> Pipeline \<Rightarrow> Record list" where
  "pendingAt a k p = (case mget (ssCloseOuts (stateAt a p)) k of None \<Rightarrow> [] | Some rs \<Rightarrow> rs)"

definition closeOutJob :: "nat \<Rightarrow> Key \<Rightarrow> string \<Rightarrow> Record \<Rightarrow> PJob" where
  "closeOutJob a key k r = \<lparr>jRecord = r, jCommit = CommitCloseOut a key k r\<rparr>"

lemma enqueueCloseOut_accepting:
  "accepting e \<Longrightarrow> enqueueCloseOut e key a w k r p = p\<lparr>pTicks := pTicks p + 1, pJobs := pJobs p @ [closeOutJob a key k r]\<rparr>"
  by (simp add: enqueueCloseOut_def Enqueue_accepting closeOutJob_def)

lemma fold_closeOut_accepting:
  assumes "accepting e"
  shows "fold (enqueueCloseOut e key a w k) rs p =
    p\<lparr>pTicks := pTicks p + length rs, pJobs := pJobs p @ map (closeOutJob a key k) rs\<rparr>"
  by (induction rs arbitrary: p) (simp_all add: enqueueCloseOut_accepting [OF assms])

lemma retry_accepting:
  assumes "accepting e" "a < length (pHeap p)"
    and q: "q = retryPendingCloseOuts e key a w k p"
  shows "pStates q = pStates p" "length (pHeap q) = length (pHeap p)"
    and "stateAt b q = (if b = a then (stateAt a p)\<lparr>ssCloseOuts := mdel k (ssCloseOuts (stateAt a p))\<rparr> else stateAt b p)"
    and "pJobs q = pJobs p @ map (closeOutJob a key k) (pendingAt a k p)"
  using assms
  by (simp_all add: retryPendingCloseOuts_def closeOuts_TakeAll_def Let_def fold_closeOut_accepting pipe_simps pendingAt_def)

lemma retry_none:
  assumes "mget (ssCloseOuts (stateAt a p)) k = None"
    and q: "q = retryPendingCloseOuts e key a w k p"
  shows "pStates q = pStates p \<and> length (pHeap q) = length (pHeap p) \<and> stateAt b q = stateAt b p \<and> pJobs q = pJobs p \<and>
    pTicks q = pTicks p"
proof -
  have "mdel k (ssCloseOuts (stateAt a p)) = ssCloseOuts (stateAt a p)"
    using assms(1) by (simp add: map_of_eq_None_iff delete_id)
  then show ?thesis
    using assms(1) by (simp add: q retryPendingCloseOuts_def closeOuts_TakeAll_def pipe_simps)
qed

lemma emitDelete_accepting:
  assumes "accepting e" "a < length (pHeap p)" "emitDelete e key a w '''' p = ((out, err), p')"
  shows "err = None \<and> pStates p' = pStates p \<and> length (pHeap p') = length (pHeap p) \<and>
    stateAt b p' = (if b = a then (stateAt a p)\<lparr>ssCache := snd (ReserveDelete (cacheKey key) '''' (cacheAt a p))\<rparr> else stateAt b p) \<and>
    (out = snd (snd (fst (ReserveDelete (cacheKey key) '''' (cacheAt a p))))) \<and>
    (if out = deleteClaimed then
       pJobs p' = pJobs p @ [\<lparr>jRecord = deletedRecord e key (fst (fst (ReserveDelete (cacheKey key) '''' (cacheAt a p)))) (eNow e (pTicks p)),
         jCommit = CommitDelete a key (cacheKey key) (fst (snd (fst (ReserveDelete (cacheKey key) '''' (cacheAt a p)))))\<rparr>]
     else pJobs p' = pJobs p)"
  using assms
  by (cases "ReserveDelete (cacheKey key) '''' (cacheAt a p)")
     (auto simp: emitDelete_def Let_def pipe_simps split: if_splits)

definition upsertJob ::
    "Env \<Rightarrow> Key \<Rightarrow> nat \<Rightarrow> normalizedObject \<Rightarrow> rowPlan \<Rightarrow> CacheEntry option \<Rightarrow> 64 word \<Rightarrow> int \<Rightarrow> PJob" where
  "upsertJob e key a norm row revert v ts =
     \<lparr>jRecord = upsertRecord e key norm row ts,
      jCommit = CommitUpsert a key (cacheKey key) v (confirmedEntryFor e key norm row) revert\<rparr>"

lemma writeUpsert_accepting:
  assumes "accepting e" "a < length (pHeap p)" "writeUpsert e key a w (cacheKey key) norm row revert p = (err, p')"
  defines "rs \<equiv> Reserve (cacheKey key) (confirmedEntryFor e key norm row) (cacheAt a p)"
  shows "err = None" "pStates p' = pStates p" "length (pHeap p') = length (pHeap p)"
    and "stateAt b p' = (if b = a then (stateAt a p)\<lparr>ssCache := snd rs\<rparr> else stateAt b p)"
    and "pJobs p' = pJobs p @ [upsertJob e key a norm row revert (fst rs) (eNow e (pTicks p))]"
  using assms
  by (cases "Reserve (cacheKey key) (confirmedEntryFor e key norm row) (cacheAt a p)";
      simp add: writeUpsert_def Let_def pipe_simps upsertJob_def; auto simp: pipe_simps)+

section \<open>Redelivery\<close>

text \<open>What the handler leaves behind when it succeeds: the key has no pending close-outs, and its
  entry already describes what the watch cache holds.\<close>

definition absorbed :: "Env \<Rightarrow> Key \<Rightarrow> nat \<Rightarrow> Pipeline \<Rightarrow> bool" where
  "absorbed e key a p \<longleftrightarrow>
     mget (ssCloseOuts (stateAt a p)) (cacheKey key) = None \<and>
     (case eGet e key of
        Inr (None, _) \<Rightarrow> (\<forall>entry. mget (cacheAt a p) (cacheKey key) = Some entry \<longrightarrow> cePendingDelete entry)
      | Inr (Some obj, _) \<Rightarrow>
          (\<exists>policy norm entry. redactionFor e key = Some policy \<and> normalizeObject (eUapi e) obj policy = Some norm \<and>
             mget (cacheAt a p) (cacheKey key) = Some entry \<and> ceHash entry = nHash norm \<and> ceUID entry \<in> {'''', nUID norm})
      | _ \<Rightarrow> True)"

definition silent :: "Pipeline \<Rightarrow> Pipeline \<Rightarrow> bool" where
  "silent p p' \<longleftrightarrow> pJobs p' = pJobs p \<and> pStates p' = pStates p \<and> (\<forall>b. stateAt b p' = stateAt b p)"

lemma silent_setCache_same: "c = cacheAt a p \<Longrightarrow> silent p (setCache a c p)"
  by (auto simp: silent_def pipe_simps)

lemma silent_trans: "silent p q \<Longrightarrow> silent q r \<Longrightarrow> silent p r" and silent_refl: "silent p p"
  and silent_effect: "silent p (effect x q) = silent p q"
  by (simp_all add: silent_def pipe_simps)

lemma ReserveDelete_refused:
  "(\<forall>entry. mget c k = Some entry \<longrightarrow> cePendingDelete entry) \<Longrightarrow>
     snd (ReserveDelete k uid c) = c \<and> snd (snd (fst (ReserveDelete k uid c))) \<noteq> deleteClaimed"
  by (cases "mget c k") (simp_all add: ReserveDelete_def)

lemma ReserveDelete_claims:
  "\<forall>entry. mget (snd (ReserveDelete k '''' c)) k = Some entry \<longrightarrow> cePendingDelete entry"
  by (cases "mget c k") (auto simp: ReserveDelete_def Let_def)

lemma emitDelete_silent:
  assumes "\<forall>entry. mget (cacheAt a p) (cacheKey key) = Some entry \<longrightarrow> cePendingDelete entry"
    and "emitDelete e key a w '''' p = ((out, err), p')"
  shows "err = None \<and> silent p p'"
  using assms(2) ReserveDelete_refused [OF assms(1), of "''''"] silent_setCache_same [of _ a p]
  by (cases "ReserveDelete (cacheKey key) '''' (cacheAt a p)") (auto simp: emitDelete_def Let_def split: if_splits)

lemma forget_silent:
  assumes "\<forall>entry. mget (cacheAt a p) (cacheKey key) = Some entry \<longrightarrow> cePendingDelete entry"
  shows "silent p (forgetEphemeral key a p)"
  using ReserveDelete_refused [OF assms(1), of "''''"] silent_setCache_same [of _ a p]
  by (cases "ReserveDelete (cacheKey key) '''' (cacheAt a p)") (auto simp: forgetEphemeral_def Let_def)

lemma absorbed_silent:
  assumes "absorbed e key a p" "mget (pStates p) (kSink key) = Some a" "eWriterFor e (kSink key) \<noteq> None"
    and "\<not> (\<exists>err. eGet e key = Inl err)"
  shows "fst (Process e key p) = None \<and> silent p (snd (Process e key p))"
proof -
  obtain found act where get: "eGet e key = Inr (found, act)" using assms(4) by (cases "eGet e key") auto
  obtain w where w: "eWriterFor e (kSink key) = Some w" using assms(3) by blast
  have g: "registry_get (kSink key) p = (a, p)" "registry_get (kSink key) (effect x p) = (a, effect x p)" for x
    using assms(2) by (simp_all add: registry_get_def pipe_simps)
  define q where "q = retryPendingCloseOuts e key a w (cacheKey key) p"
  have cl: "mget (ssCloseOuts (stateAt a p)) (cacheKey key) = None" using assms(1) by (simp add: absorbed_def)
  have q: "silent p q" using retry_none [OF cl q_def] by (simp add: silent_def)
  then have eqs: "stateAt a q = stateAt a p" by (simp add: silent_def)
  show ?thesis
  proof (cases "act")
    case False
    then show ?thesis by (simp add: Process_def get silent_effect silent_refl)
  next
    case act: True
    show ?thesis
    proof (cases found)
      case None
      then have pend: "\<forall>entry. mget (cacheAt a p) (cacheKey key) = Some entry \<longrightarrow> cePendingDelete entry"
        using assms(1) get by (simp add: absorbed_def)
      show ?thesis
      proof (cases "key_ephemeral key")
        case True
        have "silent (effect (MDropped ''ephemeral_delete'') p) (forgetEphemeral key a (effect (MDropped ''ephemeral_delete'') p))"
          using pend by (intro forget_silent) (simp add: pipe_simps)
        then show ?thesis using True None act by (simp add: Process_def get g silent_def pipe_simps)
      next
        case False
        obtain out err p' where em: "emitDelete e key a w '''' q = ((out, err), p')" by (metis surj_pair)
        have "err = None \<and> silent q p'" using emitDelete_silent [OF _ em] pend eqs by simp
        then show ?thesis
          using False None act em silent_trans [OF q] by (simp add: Process_def get g w flip: q_def)
      qed
    next
      case (Some obj)
      then obtain policy norm entry where norm: "redactionFor e key = Some policy" "normalizeObject (eUapi e) obj policy = Some norm"
        and entry: "mget (cacheAt a q) (cacheKey key) = Some entry" "ceHash entry = nHash norm" "ceUID entry \<in> {'''', nUID norm}"
        using assms(1) get eqs by (auto simp: absorbed_def)
      have "processUpsert e key a w obj (cacheKey key) q = (None, effect MDedupSkip q)"
        using norm entry by (auto simp: processUpsert_def planUpsert_def Load_def)
      then show ?thesis
        using Some act q by (simp add: Process_def get g w silent_effect flip: q_def)
    qed
  qed
qed

lemma closeReincarnation_accepting:
  assumes "accepting e" "a < length (pHeap p)"
    and q: "q = closeReincarnation e key a w k cached p" and rd: "rd = ReserveDelete k (ceUID cached) (cacheAt a p)"
  shows "pStates q = pStates p" "length (pHeap q) = length (pHeap p)"
    and "stateAt b q = (if b = a \<and> \<not> key_ephemeral key then (stateAt a p)\<lparr>ssCache := snd rd\<rparr> else stateAt b p)"
    and "pJobs q = pJobs p @ (if \<not> key_ephemeral key \<and> snd (snd (fst rd)) = deleteClaimed
           then [closeOutJob a key k (deletedRecord e key (fst (fst rd)) (eNow e (pTicks p)))] else [])"
proof -
  obtain entry v out c where "ReserveDelete k (ceUID cached) (cacheAt a p) = ((entry, v, out), c)"
    by (metis prod_cases3 surj_pair)
  then show "pStates q = pStates p" "length (pHeap q) = length (pHeap p)"
    "stateAt b q = (if b = a \<and> \<not> key_ephemeral key then (stateAt a p)\<lparr>ssCache := snd rd\<rparr> else stateAt b p)"
    "pJobs q = pJobs p @ (if \<not> key_ephemeral key \<and> snd (snd (fst rd)) = deleteClaimed
       then [closeOutJob a key k (deletedRecord e key (fst (fst rd)) (eNow e (pTicks p)))] else [])"
    using assms(1,2) unfolding q rd
    by (simp_all add: closeReincarnation_def Let_def pipe_simps enqueueCloseOut_accepting)
qed

lemma planUpsert_cases:
  assumes "planUpsert e key a w k norm p = (r, q)"
  obtains (fresh) t x where "mget (cacheAt a p) k = None" "t \<in> {''Added'', ''Snapshot''}" "r = Some (fullRow t, None)"
      "q = p \<or> q = effect x p"
  | (reborn) cached where "mget (cacheAt a p) k = Some cached" "ceUID cached \<noteq> ''''" "ceUID cached \<noteq> nUID norm"
      "r = Some (fullRow ''Added'', None)" "q = closeReincarnation e key a w k cached p"
  | (duplicate) cached where "mget (cacheAt a p) k = Some cached" "ceUID cached \<in> {'''', nUID norm}"
      "ceHash cached = nHash norm" "r = None" "q = effect MDedupSkip p"
  | (changed) cached where "mget (cacheAt a p) k = Some cached" "ceUID cached \<in> {'''', nUID norm}"
      "ceHash cached \<noteq> nHash norm" "r = Some (modifiedRow e w (key_ephemeral key) cached norm, Some cached)" "q = p"
proof (cases "mget (cacheAt a p) k")
  case None
  then show ?thesis
    using assms fresh by (cases "\<not> key_ephemeral key \<and> \<not> scopeWarm (stateAt a p) key")
      (auto simp: planUpsert_def Load_def recordScopeUnwarmed_def)
next
  case (Some cached)
  show ?thesis
  proof (cases "ceUID cached \<noteq> '''' \<and> ceUID cached \<noteq> nUID norm")
    case True
    then show ?thesis using reborn [OF Some] assms Some by (simp add: planUpsert_def Load_def)
  next
    case False
    then show ?thesis
      using duplicate [OF Some] changed [OF Some] assms Some
      by (cases "ceHash cached = nHash norm") (auto simp: planUpsert_def Load_def)
  qed
qed

lemma ReserveDelete_other: "k' \<noteq> k \<Longrightarrow> mget (snd (ReserveDelete k uid c)) k' = mget c k'"
  by (cases "mget c k") (simp_all add: ReserveDelete_def Let_def)

lemma planUpsert_accepting:
  assumes "accepting e" "a < length (pHeap p)" "planUpsert e key a w k norm p = (r, q)"
  shows "pStates q = pStates p" "length (pHeap q) = length (pHeap p)" "b \<noteq> a \<Longrightarrow> stateAt b q = stateAt b p"
    and "ssCloseOuts (stateAt a q) = ssCloseOuts (stateAt a p)" "ssWarm (stateAt a q) = ssWarm (stateAt a p)"
    and "k' \<noteq> k \<Longrightarrow> mget (cacheAt a q) k' = mget (cacheAt a p) k'"
    and "r = None \<Longrightarrow> \<exists>entry. mget (cacheAt a q) k = Some entry \<and> ceHash entry = nHash norm \<and>
           ceUID entry \<in> {'''', nUID norm}"
  by (cases rule: planUpsert_cases [OF assms(3)];
      auto simp: pipe_simps closeReincarnation_accepting [OF assms(1,2) refl refl] ReserveDelete_other)+

lemma processUpsert_accepting:
  assumes "accepting e" "a < length (pHeap p)" "processUpsert e key a w obj (cacheKey key) p = (None, p')"
  obtains policy norm entry where "redactionFor e key = Some policy" "normalizeObject (eUapi e) obj policy = Some norm"
    and "mget (cacheAt a p') (cacheKey key) = Some entry" "ceHash entry = nHash norm" "ceUID entry \<in> {'''', nUID norm}"
    and "pStates p' = pStates p" "length (pHeap p') = length (pHeap p)"
    and "ssCloseOuts (stateAt a p') = ssCloseOuts (stateAt a p)"
proof -
  obtain policy norm where norm: "redactionFor e key = Some policy" "normalizeObject (eUapi e) obj policy = Some norm"
    using assms(3) by (auto simp: processUpsert_def split: option.splits)
  obtain r q where pl: "planUpsert e key a w (cacheKey key) norm p = (r, q)" by fastforce
  note plan = planUpsert_accepting [OF assms(1,2) pl]
  show ?thesis
  proof (cases r)
    case None
    then have "p' = q" using assms(3) norm pl by (simp add: processUpsert_def)
    then show ?thesis using that [OF norm] plan None by blast
  next
    case (Some rr)
    obtain row revert where rr: "rr = (row, revert)" by fastforce
    have w: "writeUpsert e key a w (cacheKey key) norm row revert q = (None, p')"
      using assms(3) norm pl Some rr by (simp add: processUpsert_def)
    have "a < length (pHeap q)" using plan(2) assms(2) by simp
    note wr = writeUpsert_accepting [OF assms(1) this w]
    have "mget (cacheAt a p') (cacheKey key) =
        Some ((confirmedEntryFor e key norm row)\<lparr>ceVersion := fst (Reserve (cacheKey key) (confirmedEntryFor e key norm row) (cacheAt a q))\<rparr>)"
      using wr(4) [of a] by (simp add: Reserve_def Let_def)
    then show ?thesis
      using that [OF norm] wr plan by (simp add: confirmedEntryFor_sel)
  qed
qed

lemma Process_absorbs:
  assumes "registry_wf p" "accepting e" "eGet e key = Inr (found, True)" "Process e key p = (None, p')"
    and "eWriterFor e (kSink key) = Some w" "found = None \<Longrightarrow> \<not> key_ephemeral key"
  shows "\<exists>a. mget (pStates p') (kSink key) = Some a \<and> absorbed e key a p'"
proof -
  obtain a q where g: "registry_get (kSink key) p = (a, q)" by fastforce
  note get = registry_get_spec [OF g assms(1)]
  define s where "s = retryPendingCloseOuts e key a w (cacheKey key) q"
  have "a < length (pHeap q)" using get by blast
  note re = retry_accepting [OF assms(2) this s_def]
  have s: "a < length (pHeap s)" "mget (pStates s) (kSink key) = Some a"
    "mget (ssCloseOuts (stateAt a s)) (cacheKey key) = None"
    using re get by simp_all
  show ?thesis
  proof (cases found)
    case None
    obtain out err p1 where em: "emitDelete e key a w '''' s = ((out, err), p1)" by (metis surj_pair)
    have "p' = p1" using assms em None by (simp add: Process_def g flip: s_def)
    then show ?thesis
      using emitDelete_accepting [OF assms(2) s(1) em, of a] s assms(3) None ReserveDelete_claims
      by (auto simp: absorbed_def)
  next
    case (Some obj)
    then have "processUpsert e key a w obj (cacheKey key) s = (None, p')"
      using assms by (simp add: Process_def g flip: s_def)
    then obtain policy norm entry where "redactionFor e key = Some policy" "normalizeObject (eUapi e) obj policy = Some norm"
      "mget (cacheAt a p') (cacheKey key) = Some entry" "ceHash entry = nHash norm" "ceUID entry \<in> {'''', nUID norm}"
      "pStates p' = pStates s" "ssCloseOuts (stateAt a p') = ssCloseOuts (stateAt a s)"
      by (rule processUpsert_accepting [OF assms(2) s(1)])
    then show ?thesis using s assms(3) Some by (auto simp: absorbed_def)
  qed
qed

lemma forget_absorbs:
  assumes "a < length (pHeap p)"
  shows "\<forall>entry. mget (cacheAt a (forgetEphemeral key a p)) (cacheKey key) = Some entry \<longrightarrow> cePendingDelete entry"
    and "pStates (forgetEphemeral key a p) = pStates p"
proof -
  have "\<forall>entry. mget (cacheAt a (forgetEphemeral key a p)) (cacheKey key) = Some entry \<longrightarrow> cePendingDelete entry \<and>
      pStates (forgetEphemeral key a p) = pStates p"
    using assms
    by (cases "mget (cacheAt a p) (cacheKey key)")
       (auto simp: forgetEphemeral_def ReserveDelete_def DeleteIfCurrent_def Let_def pipe_simps split: if_splits)
  then show "\<forall>entry. mget (cacheAt a (forgetEphemeral key a p)) (cacheKey key) = Some entry \<longrightarrow> cePendingDelete entry"
    by blast
  show "pStates (forgetEphemeral key a p) = pStates p"
    by (auto simp: forgetEphemeral_def Let_def pipe_simps split: prod.split bool.split)
qed

text \<open>C3. Processing is idempotent under redelivery: when a key was handled without an error, handling
  it again under the same observation hands no further row to any writer and leaves every cache,
  every pending close-out and every warm scope as they were.\<close>

theorem redelivery_is_noop:
  assumes "registry_wf p" "accepting e" "Process e key p = (None, p')"
  shows "fst (Process e key p') = None \<and> pJobs (snd (Process e key p')) = pJobs p' \<and>
    (\<forall>a. stateAt a (snd (Process e key p')) = stateAt a p')"
proof -
  obtain found act where get: "eGet e key = Inr (found, act)" using assms(3) by (cases "eGet e key") (auto simp: Process_def)
  have "fst (Process e key p') = None \<and> silent p' (snd (Process e key p'))"
  proof (cases "act \<and> (found = None \<longrightarrow> \<not> key_ephemeral key)")
    case True
    then obtain w where w: "eWriterFor e (kSink key) = Some w"
      using assms(3) get by (auto simp: Process_def split: option.splits)
    from Process_absorbs [OF assms(1,2) _ assms(3) w] True get show ?thesis
      using absorbed_silent w by auto
  next
    case False
    show ?thesis
    proof (cases act)
      case True
      define p1 where "p1 = effect (MDropped ''ephemeral_delete'') p"
      obtain a q where g: "registry_get (kSink key) p1 = (a, q)" by fastforce
      have "registry_wf p1" using assms(1) by (simp add: p1_def registry_wf_def pipe_simps)
      note wf = registry_get_spec [OF g this]
      have p': "p' = forgetEphemeral key a q"
        using assms(3) False True get g by (auto simp: Process_def p1_def)
      have "a < length (pHeap q)" using wf by blast
      note fg = forget_absorbs [OF this, of key]
      have "registry_get (kSink key) (effect x p') = (a, effect x p')" for x
        using wf fg(2) by (simp add: p' registry_get_def pipe_simps)
      then show ?thesis
        using forget_silent [of a "effect (MDropped ''ephemeral_delete'') p'" key] fg(1) False True get
        by (auto simp: Process_def p' pipe_simps silent_def)
    qed (simp add: Process_def get silent_effect silent_refl)
  qed
  then show ?thesis by (simp add: silent_def)
qed

theorem redelivery_is_noop_witness:
  "let e = sampleEnv (\<lambda>k. Inr (None, True));
       p = seedKey ''s'' (cacheKey sampleKey) (seedEntry ''h'' ''u'') Pipeline_New;
       p' = snd (Process e sampleKey p)
   in length (pJobs p') = 1 \<and> pJobs (snd (Process e sampleKey p')) = pJobs p'"
proof -
  define e where "e = sampleEnv (\<lambda>k. Inr (None, True))"
  define p where "p = seedKey ''s'' (cacheKey sampleKey) (seedEntry ''h'' ''u'') Pipeline_New"
  have "registry_wf p"
    by (simp add: p_def seedKey_def registry_get_def Pipeline_New_def registry_wf_def pipe_simps)
  moreover have "accepting e" by (simp add: e_def sampleEnv_def accepting_def)
  moreover have "fst (Process e sampleKey p) = None" unfolding e_def p_def by code_simp
  then have "Process e sampleKey p = (None, snd (Process e sampleKey p))" by (metis prod.collapse)
  ultimately have "pJobs (snd (Process e sampleKey (snd (Process e sampleKey p)))) = pJobs (snd (Process e sampleKey p))"
    using redelivery_is_noop by blast
  moreover have "length (pJobs (snd (Process e sampleKey p))) = 1" unfolding e_def p_def by code_simp
  ultimately show ?thesis by (simp add: Let_def e_def p_def)
qed

section \<open>Deleted rows\<close>

definition adds :: "PJob set \<Rightarrow> Pipeline \<Rightarrow> Pipeline \<Rightarrow> bool" where
  "adds S p p' \<longleftrightarrow> (\<exists>js. pJobs p' = pJobs p @ js \<and> set js \<subseteq> S)"

lemma adds_none: "pJobs p' = pJobs p \<Longrightarrow> adds S p p'" and adds_mono: "adds S p q \<Longrightarrow> S \<subseteq> T \<Longrightarrow> adds T p q"
  by (auto simp: adds_def)

lemma adds_trans: "adds S p q \<Longrightarrow> adds S q r \<Longrightarrow> adds S p r"
  unfolding adds_def by (metis append.assoc set_append Un_least)

lemma adds_trans_Un: "adds S p q \<Longrightarrow> adds T q r \<Longrightarrow> adds (S \<union> T) p r"
  using adds_trans adds_mono by (metis Un_upper1 Un_upper2)

lemma adds_Enqueue: "adds {job} p (snd (Enqueue e w job p))"
  by (cases rule: Enqueue_cases [of e w job p]) (auto simp: adds_def)

lemma adds_setCache: "adds S p (setCache a c q) = adds S p q" "adds S (setCache a c p) q = adds S p q"
  by (simp_all add: adds_def pipe_simps)

lemma adds_enqueueCloseOut: "adds {closeOutJob a key k r} p (enqueueCloseOut e key a w k r p)"
  using adds_Enqueue [of "closeOutJob a key k r" p e w]
  by (auto simp: enqueueCloseOut_def closeOutJob_def adds_def pipe_simps split: prod.splits option.splits)

lemma enqueueCloseOut_cache [simp]: "ssCache (stateAt b (enqueueCloseOut e key a w k r p)) = ssCache (stateAt b p)"
  by (cases rule: Enqueue_cases [of e w "closeOutJob a key k r" p])
     (simp_all add: enqueueCloseOut_def closeOutJob_def pipe_simps)

lemma fold_closeOut:
  "adds (closeOutJob a key k ` set rs) p (fold (enqueueCloseOut e key a w k) rs p) \<and>
   ssCache (stateAt b (fold (enqueueCloseOut e key a w k) rs p)) = ssCache (stateAt b p)"
proof (induction rs arbitrary: p)
  case (Cons r rs)
  have "adds (closeOutJob a key k ` set (r # rs)) p (enqueueCloseOut e key a w k r p)"
    using adds_enqueueCloseOut by (rule adds_mono) simp
  then show ?case
    using Cons [of "enqueueCloseOut e key a w k r p"] adds_trans adds_mono [OF conjunct1 [OF Cons]]
    by (metis (no_types, lifting) enqueueCloseOut_cache fold_simps(2) image_mono list.set_intros(2) subsetI)
qed (simp add: adds_none)

lemma retry_adds:
  "adds (closeOutJob a key k ` set (pendingAt a k p)) p (retryPendingCloseOuts e key a w k p)"
  "ssCache (stateAt b (retryPendingCloseOuts e key a w k p)) = ssCache (stateAt b p)"
  using fold_closeOut [of a key k "pendingAt a k p" "modifyState a (\<lambda>st. st\<lparr>ssCloseOuts := mdel k (ssCloseOuts (stateAt a p))\<rparr>) p" e w b]
  by (simp_all add: retryPendingCloseOuts_def closeOuts_TakeAll_def pendingAt_def adds_def pipe_simps)

lemma claimed_entry:
  assumes "ReserveDelete k uid c = ((entry, v, deleteClaimed), c')"
  shows "mget c k = Some entry \<and> \<not> cePendingDelete entry \<and> (uid = '''' \<or> ceUID entry = uid)"
  using assms by (cases "mget c k") (auto simp: ReserveDelete_def Let_def split: if_splits)

text \<open>The rows by which the handler may report the entry of a key as gone.\<close>

definition obituaries :: "Env \<Rightarrow> Key \<Rightarrow> nat \<Rightarrow> Pipeline \<Rightarrow> PJob set" where
  "obituaries e key a p =
     {job. \<exists>entry ts. mget (cacheAt a p) (cacheKey key) = Some entry \<and> \<not> cePendingDelete entry \<and>
        jRecord job = deletedRecord e key entry ts}"

lemma obituaries_cong: "cacheAt a q = cacheAt a p \<Longrightarrow> obituaries e key a q = obituaries e key a p"
  by (simp add: obituaries_def)

lemma adds_emitDelete: "adds (obituaries e key a p) p (snd (emitDelete e key a w uid p))"
proof -
  obtain entry v out c where rd: "ReserveDelete (cacheKey key) uid (cacheAt a p) = ((entry, v, out), c)"
    by (metis prod_cases3 surj_pair)
  define job where "job = \<lparr>jRecord = deletedRecord e key entry (eNow e (pTicks p)), jCommit = CommitDelete a key (cacheKey key) v\<rparr>"
  define p1 where "p1 = (setCache a c p)\<lparr>pTicks := pTicks p + 1\<rparr>"
  obtain r p2 where en: "Enqueue e w job p1 = (r, p2)" by fastforce
  have "adds {job} p p2"
    using adds_Enqueue [of job p1 e w] en by (simp add: adds_def p1_def pipe_simps)
  moreover have "job \<in> obituaries e key a p" if "out = deleteClaimed"
    using claimed_entry [of "cacheKey key" uid "cacheAt a p" entry v c] rd that by (auto simp: obituaries_def job_def)
  moreover have "snd (emitDelete e key a w uid p) =
      (if out \<noteq> deleteClaimed then setCache a c p
       else if r = None then p2 else setCache a (UnclaimDelete (cacheKey key) v (cacheAt a p2)) p2)"
    using rd en by (auto simp: emitDelete_def pipe_simps p1_def job_def Let_def split: option.splits)
  ultimately show ?thesis using adds_mono by (auto simp: adds_setCache adds_none)
qed

lemma adds_closeReincarnation:
  "adds (if key_ephemeral key then {} else obituaries e key a p) p (closeReincarnation e key a w (cacheKey key) cached p)"
proof -
  obtain entry v out c where rd: "ReserveDelete (cacheKey key) (ceUID cached) (cacheAt a p) = ((entry, v, out), c)"
    by (metis prod_cases3 surj_pair)
  define job where "job = closeOutJob a key (cacheKey key) (deletedRecord e key entry (eNow e (pTicks p)))"
  have "adds {job} p (enqueueCloseOut e key a w (cacheKey key) (deletedRecord e key entry (eNow e (pTicks p)))
      ((setCache a c p)\<lparr>pTicks := Suc (pTicks p)\<rparr>))"
    using adds_enqueueCloseOut [of a key "cacheKey key" "deletedRecord e key entry (eNow e (pTicks p))"
        "(setCache a c p)\<lparr>pTicks := Suc (pTicks p)\<rparr>" e w]
    by (simp add: adds_def job_def pipe_simps)
  moreover have "job \<in> obituaries e key a p" if "out = deleteClaimed"
    using claimed_entry [of "cacheKey key" "ceUID cached" "cacheAt a p" entry v c] rd that
    by (auto simp: obituaries_def job_def closeOutJob_def)
  ultimately show ?thesis
    using adds_mono rd by (auto simp: closeReincarnation_def Let_def pipe_simps adds_setCache adds_none)
qed

definition sightings :: "PJob set" where
  "sightings = {job. rEventType (jRecord job) \<noteq> ''Deleted''}"

lemma adds_writeUpsert:
  assumes "rpEventType row \<noteq> ''Deleted''"
  shows "adds sightings p (snd (writeUpsert e key a w k norm row revert p))"
proof -
  define conf where "conf = confirmedEntryFor e key norm row"
  obtain v c where rs: "Reserve k conf (cacheAt a p) = (v, c)" by fastforce
  define p1 where "p1 = (recordCacheEntries (kSink key) a (setCache a c p))\<lparr>pTicks := pTicks p + 1\<rparr>"
  define job where "job = \<lparr>jRecord = upsertRecord e key norm row (eNow e (pTicks p)), jCommit = CommitUpsert a key k v conf revert\<rparr>"
  obtain r p2 where en: "Enqueue e w job p1 = (r, p2)" by fastforce
  have "adds {job} p p2"
    using adds_Enqueue [of job p1 e w] en by (simp add: adds_def p1_def pipe_simps)
  moreover have "job \<in> sightings" using assms by (simp add: sightings_def job_def upsertRecord_def)
  moreover have "snd (writeUpsert e key a w k norm row revert p) =
      (if r = None then p2 else setCache a (revertVersion k v revert (cacheAt a p2)) p2)"
    using rs en by (auto simp: writeUpsert_def pipe_simps p1_def job_def Let_def conf_def split: option.splits)
  ultimately show ?thesis using adds_mono by (auto simp: adds_setCache)
qed

definition usurped :: "Env \<Rightarrow> Key \<Rightarrow> jobj \<Rightarrow> nat \<Rightarrow> Pipeline \<Rightarrow> bool" where
  "usurped e key obj a p \<longleftrightarrow> \<not> key_ephemeral key \<and>
     (\<exists>entry. mget (cacheAt a p) (cacheKey key) = Some entry \<and> ceUID entry \<noteq> '''' \<and> uGetUID (eUapi e) obj \<noteq> ceUID entry)"

lemma normalizeObject_UID: "normalizeObject u obj policy = Some norm \<Longrightarrow> nUID norm = uGetUID u obj"
  by (auto simp: normalizeObject_def split: option.splits)

lemma adds_processUpsert:
  "adds (sightings \<union> (if usurped e key obj a p then obituaries e key a p else {})) p
     (snd (processUpsert e key a w obj (cacheKey key) p))"
proof -
  have "adds (sightings \<union> (if usurped e key obj a p then obituaries e key a p else {})) p
     (snd (case planUpsert e key a w (cacheKey key) norm p of
          (None, p) \<Rightarrow> (None, p)
        | (Some (row, revert), p) \<Rightarrow> writeUpsert e key a w (cacheKey key) norm row revert p))"
    if norm: "nUID norm = uGetUID (eUapi e) obj" for norm
  proof -
    obtain r q where pl: "planUpsert e key a w (cacheKey key) norm p = (r, q)" by fastforce
    then show ?thesis
    proof (cases rule: planUpsert_cases)
      case (fresh t x)
      have "rpEventType (fullRow t) \<noteq> ''Deleted''" using fresh(2) by (auto simp: fullRow_def)
      from adds_writeUpsert [OF this, of q e key a w "cacheKey key" norm None] show ?thesis
        using fresh pl by (auto simp: adds_def pipe_simps)
    next
      case (reborn cached)
      have "rpEventType (fullRow ''Added'') \<noteq> ''Deleted''" by (simp add: fullRow_def)
      note w = adds_writeUpsert [OF this, of q e key a w "cacheKey key" norm None]
      have "adds (if key_ephemeral key then {} else obituaries e key a p) p q"
        using adds_closeReincarnation [of key e a p w cached] reborn by simp
      moreover have "(if key_ephemeral key then {} else obituaries e key a p) \<subseteq> (if usurped e key obj a p then obituaries e key a p else {})"
        using reborn norm by (auto simp: usurped_def)
      ultimately have "adds (sightings \<union> (if usurped e key obj a p then obituaries e key a p else {})) p
          (snd (writeUpsert e key a w (cacheKey key) norm (fullRow ''Added'') None q))"
        using adds_trans_Un [OF _ w] by (rule_tac adds_mono) auto
      then show ?thesis using reborn pl by simp
    next
      case (duplicate cached)
      then show ?thesis using pl by (simp add: adds_none pipe_simps)
    next
      case (changed cached)
      have "rpEventType (modifiedRow e w (key_ephemeral key) cached norm) \<noteq> ''Deleted''"
        using modifiedRow_type [of e w "key_ephemeral key" cached norm] by auto
      from adds_writeUpsert [OF this, of p e key a w "cacheKey key" norm "Some cached"] show ?thesis
        using changed pl by (auto intro: adds_mono)
    qed
  qed
  then show ?thesis
    by (auto simp: processUpsert_def adds_none dest!: normalizeObject_UID split: option.splits)
qed

lemma Process_quiet:
  assumes "eGet e key = Inr (found, act)" "\<not> act \<or> found = None \<and> key_ephemeral key \<or> eWriterFor e (kSink key) = None"
  shows "pJobs (snd (Process e key p)) = pJobs p"
proof -
  have forget: "pJobs (forgetEphemeral key b q) = pJobs q" for b q
    by (auto simp: forgetEphemeral_def Let_def pipe_simps split: prod.split bool.split)
  have get: "pJobs (snd (registry_get s q)) = pJobs q" for s q
    by (simp add: registry_get_def Let_def split: option.split)
  obtain b q where g: "registry_get (kSink key) (effect (MDropped ''ephemeral_delete'') p) = (b, q)" by fastforce
  have "pJobs q = pJobs p" using get [of "kSink key" "effect (MDropped ''ephemeral_delete'') p"] g by (simp add: pipe_simps)
  then show ?thesis
    using assms forget [of b q] by (cases "act \<and> found = None \<and> key_ephemeral key") (auto simp: Process_def g pipe_simps)
qed

text \<open>C2. The handler reports an object as gone only for a reason: every Deleted row it hands over either
  repeats a close-out already waiting for a retry, or names the incarnation in the cache entry of
  this very key, of a kind that is not an Event, with no other delete in flight, and the active
  watch cache either no longer holds the object or holds another incarnation of it.\<close>

theorem deleted_rows_justified:
  assumes "registry_wf p" "Process e key p = (r, p')"
    and "job \<in> set (drop (length (pJobs p)) (pJobs p'))" "rEventType (jRecord job) = ''Deleted''"
  shows "\<exists>a. mget (pStates p) (kSink key) = Some a \<and>
    (jRecord job \<in> set (pendingAt a (cacheKey key) p) \<or>
     \<not> key_ephemeral key \<and>
     (\<exists>entry ts. mget (cacheAt a p) (cacheKey key) = Some entry \<and> \<not> cePendingDelete entry \<and>
        jRecord job = deletedRecord e key entry ts \<and>
        (eGet e key = Inr (None, True) \<or>
         (\<exists>obj. eGet e key = Inr (Some obj, True) \<and> ceUID entry \<noteq> '''' \<and> uGetUID (eUapi e) obj \<noteq> ceUID entry))))"
proof -
  obtain found act where get: "eGet e key = Inr (found, act)"
    using assms by (cases "eGet e key") (auto simp: Process_def)
  have "pJobs p' \<noteq> pJobs p" using assms(3) by auto
  then obtain w where act: "act" "found = None \<longrightarrow> \<not> key_ephemeral key" and w: "eWriterFor e (kSink key) = Some w"
    using Process_quiet [OF get, of p] assms(2) by auto
  obtain a q where g: "registry_get (kSink key) p = (a, q)" by fastforce
  note wf = registry_get_spec [OF g assms(1)]
  define s where "s = retryPendingCloseOuts e key a w (cacheKey key) q"
  have pend: "adds (closeOutJob a key (cacheKey key) ` set (pendingAt a (cacheKey key) p)) p s"
    using retry_adds(1) [of a key "cacheKey key" q e w] wf by (simp add: s_def adds_def pendingAt_def)
  have cache: "cacheAt a s = cacheAt a p"
    using retry_adds(2) [of a e key a w "cacheKey key" q] wf by (simp add: s_def)
  define S where "S = closeOutJob a key (cacheKey key) ` set (pendingAt a (cacheKey key) p) \<union> sightings \<union>
    (case found of None \<Rightarrow> obituaries e key a p | Some obj \<Rightarrow> if usurped e key obj a p then obituaries e key a p else {})"
  have "adds S s p'"
  proof (cases found)
    case None
    then have "p' = snd (emitDelete e key a w '''' s)"
      using assms(2) get act w g by (auto simp: Process_def s_def split: prod.splits)
    then show ?thesis
      using adds_emitDelete [of e key a s w "''''"] obituaries_cong [OF cache] None adds_mono by (fastforce simp: S_def)
  next
    case (Some obj)
    then have "p' = snd (processUpsert e key a w obj (cacheKey key) s)"
      using assms(2) get act w g by (auto simp: Process_def s_def Let_def)
    moreover have "usurped e key obj a s = usurped e key obj a p" using cache by (simp add: usurped_def)
    ultimately show ?thesis
      using adds_processUpsert [of e key obj a s w] obituaries_cong [OF cache, of e key] Some
      by (cases "usurped e key obj a p") (simp_all add: S_def, (erule adds_mono, auto)+)
  qed
  moreover have "adds S p s" by (rule adds_mono [OF pend]) (auto simp: S_def)
  ultimately have "adds S p p'" using adds_trans by blast
  then have "job \<in> S" using assms(3) by (auto simp: adds_def)
  moreover have "job \<notin> sightings" using assms(4) by (simp add: sightings_def)
  moreover have reg: "mget (pStates p) (kSink key) = Some a"
    if "mget (cacheAt a p) (cacheKey key) \<noteq> None \<or> pendingAt a (cacheKey key) p \<noteq> []"
    using that g by (auto simp: registry_get_def pendingAt_def stateAt_def emptySinkState_def Let_def split: option.splits)
  ultimately consider (retried) "job \<in> closeOutJob a key (cacheKey key) ` set (pendingAt a (cacheKey key) p)"
    | (gone) "found = None" "job \<in> obituaries e key a p"
    | (other) obj where "found = Some obj" "usurped e key obj a p" "job \<in> obituaries e key a p"
    by (auto simp: S_def split: option.splits if_splits)
  then show ?thesis
  proof cases
    case retried
    then have "jRecord job \<in> set (pendingAt a (cacheKey key) p)" by (auto simp: closeOutJob_def)
    then show ?thesis using reg by fastforce
  next
    case gone
    then show ?thesis using reg get act unfolding obituaries_def by fastforce
  next
    case other
    then show ?thesis using reg get act unfolding obituaries_def usurped_def by fastforce
  qed
qed

theorem deleted_rows_justified_witness:
  "let e = sampleEnv (\<lambda>k. Inr (None, True));
       p = seedKey ''s'' (cacheKey sampleKey) (seedEntry ''h'' ''u'') Pipeline_New
   in \<exists>entry ts. map jRecord (pJobs (snd (Process e sampleKey p))) = [deletedRecord e sampleKey entry ts] \<and>
        mget (cacheAt 0 p) (cacheKey sampleKey) = Some entry"
proof -
  define e where "e = sampleEnv (\<lambda>k. Inr (None, True))"
  define p where "p = seedKey ''s'' (cacheKey sampleKey) (seedEntry ''h'' ''u'') Pipeline_New"
  define p' where "p' = snd (Process e sampleKey p)"
  have wf: "registry_wf p"
    by (simp add: p_def seedKey_def registry_get_def Pipeline_New_def registry_wf_def pipe_simps)
  have st: "mget (pStates p) ''s'' = Some 0 \<and> pJobs p = [] \<and> pendingAt 0 (cacheKey sampleKey) p = []"
    unfolding p_def by code_simp
  have "map (rEventType \<circ> jRecord) (pJobs p') = [''Deleted'']" unfolding p'_def e_def p_def by code_simp
  then obtain job where job: "pJobs p' = [job]" "rEventType (jRecord job) = ''Deleted''" by (auto simp: map_eq_Cons_conv)
  have pr: "Process e sampleKey p = (fst (Process e sampleKey p), p')" by (simp add: p'_def)
  have "job \<in> set (drop (length (pJobs p)) (pJobs p'))" using st job by simp
  from deleted_rows_justified [OF wf pr this job(2)] st
  have "\<exists>entry ts. mget (cacheAt 0 p) (cacheKey sampleKey) = Some entry \<and> jRecord job = deletedRecord e sampleKey entry ts"
    by (auto simp: sampleKey_def)
  then show ?thesis using job(1) unfolding Let_def e_def [symmetric] p_def [symmetric] p'_def [symmetric] by auto
qed

section \<open>Reconstruction of an object's history\<close>

text \<open>How a reader rebuilds an object from its rows: a row with data replaces the state, a diff-only
  row patches it, a Deleted row ends it.\<close>

definition replayRow :: "(string \<Rightarrow> string \<Rightarrow> string option) \<Rightarrow> string option \<Rightarrow> Record \<Rightarrow> string option" where
  "replayRow applyPatch acc r =
     (if rEventType r = ''Deleted'' then None
      else if rData r \<noteq> '''' then Some (rData r)
      else (case acc of None \<Rightarrow> None | Some base \<Rightarrow> applyPatch base (rDiff r)))"

definition replay :: "(string \<Rightarrow> string \<Rightarrow> string option) \<Rightarrow> Record list \<Rightarrow> string option" where
  "replay applyPatch rs = foldl (replayRow applyPatch) None rs"

type_synonym history = "(string \<times> Record) list"

definition rowsOf :: "history \<Rightarrow> Key \<Rightarrow> string \<Rightarrow> Record list" where
  "rowsOf h key uid =
     map snd (filter (\<lambda>(s, r). s = kSink key \<and> rAPIGroup r = kGroup key \<and> rKind r = kKind key \<and>
                              rNamespace r = kNamespace key \<and> rName r = kName key \<and> rUID r = uid) h)"

lemma rowsOf_append: "rowsOf (h @ h') key uid = rowsOf h key uid @ rowsOf h' key uid"
  by (simp add: rowsOf_def)

lemma replay_append: "replay ap (rs @ rs') = foldl (replayRow ap) (replay ap rs) rs'"
  by (simp add: replay_def)

text \<open>What the libraries promise: the codec is one, and a patch applied to the state it was computed
  from gives the state it was computed for.\<close>

definition faithful :: "(string \<Rightarrow> string \<Rightarrow> string option) \<Rightarrow> (string \<Rightarrow> string) \<Rightarrow> (string \<Rightarrow> string option) \<Rightarrow> Env \<Rightarrow> bool" where
  "faithful applyPatch enc dec e \<longleftrightarrow>
     zstd_codec enc dec \<and> eEncoder e \<in> {None, Some enc} \<and> eDecoder e = Some dec \<and>
     (\<forall>x y b j patch d. marshal x = Some b \<and> marshal y = Some j \<and> eCompareJSON e b j = Some patch \<and>
        eMarshalPatch e patch = Some d \<longrightarrow> applyPatch b d = Some j)"

text \<open>Runs in which objects are observed and no write fails: handler runs that find an object with a
  UID and whose writers take every job, jobs settled successfully in any order, scopes warmed.
  The history lists every row a writer took, in order, under the sink's name.\<close>

inductive calm_run ::
    "(string \<Rightarrow> string \<Rightarrow> string option) \<Rightarrow> (string \<Rightarrow> string) \<Rightarrow> (string \<Rightarrow> string option) \<Rightarrow> Pipeline \<Rightarrow> history \<Rightarrow> nat \<Rightarrow> bool"
  for applyPatch enc dec where
  calm_init: "calm_run applyPatch enc dec Pipeline_New [] 0"
| calm_process: "calm_run applyPatch enc dec p h n \<Longrightarrow> faithful applyPatch enc dec e \<Longrightarrow> accepting e \<Longrightarrow> wf_key key \<Longrightarrow>
    eGet e key = Inr (Some obj, True) \<Longrightarrow> uGetUID (eUapi e) obj \<noteq> '''' \<Longrightarrow> Process e key p = (r, p') \<Longrightarrow>
    calm_run applyPatch enc dec p'
      (h @ map (\<lambda>job. (kSink key, jRecord job)) (drop (length (pJobs p)) (pJobs p'))) (Suc n)"
| calm_settle: "calm_run applyPatch enc dec p h n \<Longrightarrow> calm_run applyPatch enc dec (settleJob i True p) h n"
| calm_warm: "calm_run applyPatch enc dec p h n \<Longrightarrow> calm_run applyPatch enc dec (MarkScopeWarm s scope p) h n"

lemma ReserveDelete_version:
  "mget c k = Some cached \<Longrightarrow>
     \<exists>cur. mget (snd (ReserveDelete k uid c)) k = Some cur \<and> ceVersion cur \<in> {ceVersion cached, ceVersion cached + 1}"
  by (auto simp: ReserveDelete_def Let_def)

text \<open>The write of a handler run: its row, what it replaces, and the closing rows before it.\<close>

definition writes ::
    "Env \<Rightarrow> Key \<Rightarrow> Writer \<Rightarrow> normalizedObject \<Rightarrow> CacheEntry option \<Rightarrow> rowPlan \<Rightarrow> PJob list \<Rightarrow> 64 word \<Rightarrow> bool" where
  "writes e key w norm old row closing v \<longleftrightarrow>
     (case old of
        None \<Rightarrow> (\<exists>t. t \<in> {''Added'', ''Snapshot''} \<and> row = fullRow t) \<and> closing = [] \<and> v = 1
      | Some cached \<Rightarrow>
          ceUID cached \<noteq> '''' \<and> ceUID cached \<noteq> nUID norm \<and> row = fullRow ''Added'' \<and>
          (\<forall>job \<in> set closing. (\<exists>ts. jRecord job = deletedRecord e key cached ts) \<and> (\<exists>a k r. jCommit job = CommitCloseOut a key k r)) \<and>
          v \<in> {ceVersion cached + 1, ceVersion cached + 2} \<or>
          ceUID cached \<in> {'''', nUID norm} \<and> row = modifiedRow e w (key_ephemeral key) cached norm \<and> closing = [] \<and>
          v = ceVersion cached + 1)"

lemma processUpsert_write:
  assumes "accepting e" "a < length (pHeap p)" "redactionFor e key = Some policy" "normalizeObject (eUapi e) obj policy = Some norm"
    and "processUpsert e key a w obj (cacheKey key) p = (err, p')"
  shows "pStates p' = pStates p \<and> length (pHeap p') = length (pHeap p) \<and>
    (\<forall>b. b \<noteq> a \<longrightarrow> stateAt b p' = stateAt b p) \<and> ssCloseOuts (stateAt a p') = ssCloseOuts (stateAt a p) \<and>
    (pJobs p' = pJobs p \<and> cacheAt a p' = cacheAt a p \<or>
     (\<exists>row closing revert v ts. writes e key w norm (mget (cacheAt a p) (cacheKey key)) row closing v \<and>
        pJobs p' = pJobs p @ closing @ [upsertJob e key a norm row revert v ts] \<and>
        (\<forall>k. mget (cacheAt a p') k =
           (if k = cacheKey key then Some ((confirmedEntryFor e key norm row)\<lparr>ceVersion := v\<rparr>) else mget (cacheAt a p) k))))"
proof -
  obtain r q where pl: "planUpsert e key a w (cacheKey key) norm p = (r, q)" by fastforce
  note plan = planUpsert_accepting [OF assms(1,2) pl]
  note qc = closeReincarnation_accepting [OF assms(1,2) refl refl]
  show ?thesis
  proof (cases r)
    case None
    then have "p' = q" using assms pl by (simp add: processUpsert_def)
    moreover have "q = effect MDedupSkip p" using None by (cases rule: planUpsert_cases [OF pl]) simp_all
    ultimately show ?thesis by (simp add: pipe_simps)
  next
    case (Some rr)
    obtain row revert where rr: "rr = (row, revert)" by fastforce
    define conf where "conf = confirmedEntryFor e key norm row"
    have w: "writeUpsert e key a w (cacheKey key) norm row revert q = (err, p')"
      using assms pl Some rr by (simp add: processUpsert_def)
    have "a < length (pHeap q)" using plan(2) assms(2) by simp
    note wr = writeUpsert_accepting [OF assms(1) this w]
    define v where "v = fst (Reserve (cacheKey key) conf (cacheAt a q))"
    have cache: "mget (cacheAt a p') k = (if k = cacheKey key then Some (conf\<lparr>ceVersion := v\<rparr>) else mget (cacheAt a q) k)" for k
      using wr(4) [of a] by (simp add: v_def conf_def Reserve_def Let_def)
    have v: "v = (case mget (cacheAt a q) (cacheKey key) of None \<Rightarrow> 1 | Some cur \<Rightarrow> ceVersion cur + 1)"
      by (simp add: v_def Reserve_def Let_def zeroEntry_def split: option.split)
    have "\<exists>closing. pJobs q = pJobs p @ closing \<and> writes e key w norm (mget (cacheAt a p) (cacheKey key)) row closing v"
      using pl
    proof (cases rule: planUpsert_cases)
      case (fresh t x)
      then show ?thesis using Some rr v by (auto simp: writes_def pipe_simps)
    next
      case (reborn cached)
      have "\<exists>cur. mget (cacheAt a q) (cacheKey key) = Some cur \<and> ceVersion cur \<in> {ceVersion cached, ceVersion cached + 1}"
        using ReserveDelete_version [OF reborn(1), of "ceUID cached"] reborn(1) qc(3) [of a] reborn(5) by auto
      then have "v \<in> {ceVersion cached + 1, ceVersion cached + 2}" using v by (auto simp: add.assoc)
      moreover have "fst (fst (ReserveDelete (cacheKey key) (ceUID cached) (cacheAt a p))) = cached"
        if "snd (snd (fst (ReserveDelete (cacheKey key) (ceUID cached) (cacheAt a p)))) = deleteClaimed"
        using that reborn(1) by (auto simp: ReserveDelete_def Let_def split: if_splits)
      ultimately show ?thesis
        using reborn Some rr qc(4) [of key w "cacheKey key" cached]
        by (auto simp: writes_def closeOutJob_def)
    next
      case (duplicate cached)
      then show ?thesis using Some by simp
    next
      case (changed cached)
      then show ?thesis using Some rr v by (auto simp: writes_def)
    qed
    then obtain closing where closing: "pJobs q = pJobs p @ closing"
      "writes e key w norm (mget (cacheAt a p) (cacheKey key)) row closing v" by blast
    then have "pJobs p' = pJobs p @ closing @ [upsertJob e key a norm row revert v (eNow e (pTicks q))]"
      using wr(5) by (simp add: v_def conf_def)
    moreover have "\<forall>k. mget (cacheAt a p') k = (if k = cacheKey key then Some (conf\<lparr>ceVersion := v\<rparr>) else mget (cacheAt a p) k)"
      using cache plan(6) by simp
    moreover have "pStates p' = pStates p" "length (pHeap p') = length (pHeap p)"
      "\<forall>b. b \<noteq> a \<longrightarrow> stateAt b p' = stateAt b p" "ssCloseOuts (stateAt a p') = ssCloseOuts (stateAt a p)"
      using wr(2,3,4) plan(1-4) by simp_all
    ultimately show ?thesis using closing(2) unfolding conf_def by blast
  qed
qed

definition recordLike :: "json \<Rightarrow> bool" where
  "recordLike v \<longleftrightarrow> (case v of JObj m \<Rightarrow> True | JStr s \<Rightarrow> True | _ \<Rightarrow> False)"

lemma recordLike_red: "recordLike v \<Longrightarrow> recordLike (red p v)"
proof (cases p)
  case (Cons s ss)
  assume "recordLike v"
  then show ?thesis
    by (cases v) (simp_all add: Cons recordLike_def red_Cons_obj red_Cons_other split: option.split)
qed (simp add: recordLike_def)

lemma recordLike_Redact: "recordLike v \<Longrightarrow> recordLike (Redact_Apply policy v)"
proof -
  have "recordLike v \<Longrightarrow> recordLike (fold applyPath ps v)" for ps
    by (induction ps arbitrary: v) (simp_all add: applyPath_red recordLike_red)
  then show "recordLike v \<Longrightarrow> recordLike (Redact_Apply policy v)" by (simp add: Redact_Apply_def)
qed

lemma marshal_recordLike: "recordLike v \<Longrightarrow> marshal v = Some s \<Longrightarrow> s \<noteq> ''''"
  by (cases v) (auto simp: recordLike_def commaList_def jsonString_def split: if_splits option.splits)

lemma normalized_text:
  assumes "normalizeObject u obj policy = Some norm"
  shows "nJSON norm \<noteq> '''' \<and> (\<exists>x. marshal x = Some (nJSON norm)) \<and> nHash norm = sha256Hex (nJSON norm)"
proof -
  define v where "v = Redact_Apply policy (JObj (stripVolatileFields obj (hasActorsAnnotation u obj)))"
  have "marshal v = Some (nJSON norm)" "nHash norm = sha256Hex (nJSON norm)"
    using assms by (auto simp: normalizeObject_def v_def split: option.splits)
  moreover have "recordLike v" unfolding v_def by (rule recordLike_Redact) (simp add: recordLike_def)
  ultimately show ?thesis using marshal_recordLike by blast
qed

lemma decode_confirmed:
  assumes "faithful ap enc dec e" "\<not> key_ephemeral key"
  shows "decodeBaseline (Some dec) ((confirmedEntryFor e key norm row)\<lparr>ceVersion := v\<rparr>) = Inr (Some (nJSON norm))"
  using assms
  by (auto simp: faithful_def confirmedEntryFor_def compressBaseline_def decodeBaseline_def zstd_codec_def
      encodingRaw_def encodingZstd_def)

text \<open>The new row extends a replay of the old state to a replay of the new one.\<close>

lemma replay_write:
  assumes "faithful ap enc dec e" "writes e key w norm old row closing v" "normalizeObject u obj policy = Some norm"
    and "\<And>cached. old = Some cached \<Longrightarrow> ceUID cached = nUID norm \<Longrightarrow> \<not> key_ephemeral key \<Longrightarrow>
      \<exists>x base. marshal x = Some base \<and> decodeBaseline (Some dec) cached = Inr (Some base) \<and> acc = Some base"
    and "\<And>cached. old = Some cached \<Longrightarrow> ceUID cached \<noteq> ''''"
  shows "replayRow ap acc (upsertRecord e key norm row ts) = Some (nJSON norm)"
proof -
  note nt = normalized_text [OF assms(3)]
  have full: "replayRow ap acc (upsertRecord e key norm r ts) = Some (nJSON norm)"
    if "rpFull r" "rpEventType r \<noteq> ''Deleted''" for r
    using that nt by (simp add: replayRow_def upsertRecord_def)
  consider t where "row = fullRow t" "t \<in> {''Added'', ''Snapshot''}"
    | cached where "old = Some cached" "ceUID cached = nUID norm" "row = modifiedRow e w (key_ephemeral key) cached norm"
    using assms(2) assms(5) by (auto simp: writes_def split: option.splits)
  then show ?thesis
  proof cases
    case 1
    then show ?thesis using full [of row] by (auto simp: fullRow_def)
  next
    case 2
    show ?thesis
    proof (cases "rpFull row")
      case True
      then show ?thesis
        using full [of row] 2(3) modifiedRow_type [of e w "key_ephemeral key" cached norm] by auto
    next
      case False
      then have eph: "\<not> key_ephemeral key" using 2(3) by (auto simp: modifiedRow_def fullRow_def)
      obtain x base where base: "marshal x = Some base" "decodeBaseline (Some dec) cached = Inr (Some base)" "acc = Some base"
        using assms(4) [OF 2(1,2) eph] by blast
      obtain patch d where "eCompareJSON e base (nJSON norm) = Some patch" "eMarshalPatch e patch = Some d"
        "rpDiff row = d" "rpEventType row = ''Modified''"
        using False 2(3) eph base(2) assms(1)
        by (auto simp: modifiedRow_def fullRow_def faithful_def split: option.splits if_splits)
      then show ?thesis
        using assms(1) base nt False unfolding faithful_def
        by (auto simp: replayRow_def upsertRecord_def)
    qed
  qed
qed

definition grows :: "Pipeline \<Rightarrow> Pipeline \<Rightarrow> bool" where
  "grows p p' \<longleftrightarrow> registry_wf p' \<and>
     (\<forall>t b. mget (pStates p) t = Some b \<longrightarrow> mget (pStates p') t = Some b) \<and>
     (\<forall>t b. mget (pStates p') t = Some b \<longrightarrow> mget (pStates p) t = Some b \<or> stateAt b p = emptySinkState)"

lemma grows_get:
  assumes "registry_get s p = (a, q)" "registry_wf p"
  shows "grows p q"
  using registry_get_spec [OF assms] assms(1)
  by (auto simp: grows_def registry_get_def Let_def stateAt_def split: option.splits if_splits)

lemma grows_cong: "grows p q \<Longrightarrow> pStates q' = pStates q \<Longrightarrow> length (pHeap q') = length (pHeap q) \<Longrightarrow> grows p q'"
  by (simp add: grows_def registry_wf_def)

lemma grows_registered:
  "grows p p' \<Longrightarrow> mget (pStates p') t = Some b \<Longrightarrow> mget (cacheAt b p) k = Some entry \<Longrightarrow> mget (pStates p) t = Some b"
  unfolding grows_def by (metis emptySinkState_def map_of.simps(1) option.discI sinkState.select_convs(1))

lemma Process_found:
  assumes "registry_wf p" "accepting e" "eGet e key = Inr (Some obj, True)" "\<forall>a. ssCloseOuts (stateAt a p) = []"
    and "Process e key p = (r, p')"
  shows "grows p p' \<and> (\<forall>a. ssCloseOuts (stateAt a p') = []) \<and>
    (pJobs p' = pJobs p \<and> (\<forall>b. cacheAt b p' = cacheAt b p) \<or>
     (\<exists>a w policy norm row closing revert v ts. mget (pStates p') (kSink key) = Some a \<and> eWriterFor e (kSink key) = Some w \<and>
        redactionFor e key = Some policy \<and> normalizeObject (eUapi e) obj policy = Some norm \<and>
        writes e key w norm (mget (cacheAt a p) (cacheKey key)) row closing v \<and>
        pJobs p' = pJobs p @ closing @ [upsertJob e key a norm row revert v ts] \<and>
        (\<forall>b. b \<noteq> a \<longrightarrow> cacheAt b p' = cacheAt b p) \<and>
        (\<forall>k. mget (cacheAt a p') k =
           (if k = cacheKey key then Some ((confirmedEntryFor e key norm row)\<lparr>ceVersion := v\<rparr>) else mget (cacheAt a p) k))))"
proof (cases "eWriterFor e (kSink key)")
  case None
  then have "p' = p" using assms by (simp add: Process_def)
  then show ?thesis using assms(1,4) by (simp add: grows_def)
next
  case (Some w)
  obtain a q where g: "registry_get (kSink key) p = (a, q)" by fastforce
  note wf = registry_get_spec [OF g assms(1)]
  define s where "s = retryPendingCloseOuts e key a w (cacheKey key) q"
  have "mget (ssCloseOuts (stateAt a q)) (cacheKey key) = None" using wf assms(4) by simp
  note re = retry_none [OF this s_def]
  have s: "pJobs s = pJobs p" "\<And>b. stateAt b s = stateAt b p" "mget (pStates s) (kSink key) = Some a" "a < length (pHeap s)"
    using re wf by simp_all
  have gs: "grows p s" using grows_cong [OF grows_get [OF g assms(1)]] re by blast
  have up: "processUpsert e key a w obj (cacheKey key) s = (r, p')"
    using assms(3,5) Some by (simp add: Process_def g Let_def flip: s_def)
  show ?thesis
  proof (cases "\<exists>policy norm. redactionFor e key = Some policy \<and> normalizeObject (eUapi e) obj policy = Some norm")
    case False
    then have "p' = s" using up by (auto simp: processUpsert_def split: option.splits)
    then show ?thesis using s gs assms(4) by simp
  next
    case True
    then obtain policy norm where norm: "redactionFor e key = Some policy" "normalizeObject (eUapi e) obj policy = Some norm"
      by blast
    note pw = processUpsert_write [OF assms(2) s(4) norm up]
    have "grows p p'" using grows_cong [OF gs] pw by blast
    moreover have "ssCloseOuts (stateAt b p') = []" for b using pw s(2) assms(4) by (cases "b = a") auto
    moreover have "mget (pStates p') (kSink key) = Some a" using pw s by simp
    moreover have "cacheAt b p' = cacheAt b p" if "b \<noteq> a" for b using pw s(2) that by simp
    moreover have "cacheAt b p' = cacheAt b p" if "cacheAt a p' = cacheAt a s" for b
      using pw s(2) that by (cases "b = a") auto
    ultimately show ?thesis using pw norm Some unfolding s by blast
  qed
qed

definition good_entry ::
    "(string \<Rightarrow> string \<Rightarrow> string option) \<Rightarrow> (string \<Rightarrow> string option) \<Rightarrow> history \<Rightarrow> nat \<Rightarrow> Key \<Rightarrow> CacheEntry \<Rightarrow> bool" where
  "good_entry ap dec h n key entry \<longleftrightarrow>
     ceUID entry \<noteq> '''' \<and> unat (ceVersion entry) \<le> 2 * n \<and>
     (\<not> key_ephemeral key \<longrightarrow>
        (\<exists>x raw. marshal x = Some raw \<and> decodeBaseline (Some dec) entry = Inr (Some raw) \<and>
           sha256Hex raw = ceHash entry \<and> replay ap (rowsOf h key (ceUID entry)) = Some raw))"

definition tracked :: "Pipeline \<Rightarrow> Commit \<Rightarrow> bool" where
  "tracked p c \<longleftrightarrow>
     (case c of
        CommitUpsert a key k v conf revert \<Rightarrow>
          wf_key key \<and> k = cacheKey key \<and> mget (pStates p) (kSink key) = Some a \<and>
          (\<exists>entry. mget (cacheAt a p) k = Some entry \<and> unat v \<le> unat (ceVersion entry) \<and>
             (v = ceVersion entry \<longrightarrow> entry = conf\<lparr>ceVersion := v\<rparr>))
      | CommitDelete a key k v \<Rightarrow> False
      | CommitCloseOut a key k r \<Rightarrow> True)"

definition calm_inv ::
    "(string \<Rightarrow> string \<Rightarrow> string option) \<Rightarrow> (string \<Rightarrow> string option) \<Rightarrow> Pipeline \<Rightarrow> history \<Rightarrow> nat \<Rightarrow> bool" where
  "calm_inv ap dec p h n \<longleftrightarrow>
     registry_wf p \<and> (\<forall>a. ssCloseOuts (stateAt a p) = []) \<and>
     (\<forall>key a entry. mget (pStates p) (kSink key) = Some a \<and> wf_key key \<and> mget (cacheAt a p) (cacheKey key) = Some entry \<longrightarrow>
        good_entry ap dec h n key entry) \<and>
     (\<forall>job \<in> set (pJobs p). tracked p (jCommit job))"

lemma good_entry_frame:
  "good_entry ap dec h n key entry \<Longrightarrow> rowsOf hs key (ceUID entry) = [] \<Longrightarrow> good_entry ap dec (h @ hs) (Suc n) key entry"
  by (simp add: good_entry_def rowsOf_append)

lemma calm_inv_frame:
  assumes "calm_inv ap dec p h n" "grows p p'" "pJobs p' = pJobs p" "\<And>b. cacheAt b p' = cacheAt b p"
    and "\<And>a. ssCloseOuts (stateAt a p') = []"
  shows "calm_inv ap dec p' h (Suc n) \<and> calm_inv ap dec p' h n"
proof -
  have good: "good_entry ap dec h n key entry"
    if "mget (pStates p') (kSink key) = Some a" "wf_key key" "mget (cacheAt a p') (cacheKey key) = Some entry" for key a entry
  proof -
    have "mget (pStates p) (kSink key) = Some a"
      using grows_registered [OF assms(2) that(1)] assms(4) that(3) by simp
    then show ?thesis using assms(1,4) that unfolding calm_inv_def by auto
  qed
  moreover have "tracked p' c" if "tracked p c" for c
    using that assms(2,4) by (auto simp: tracked_def grows_def split: Commit.splits)
  moreover have "good_entry ap dec h (Suc n) key entry" if "good_entry ap dec h n key entry" for key entry
    using good_entry_frame [OF that, of "[]"] by (simp add: rowsOf_def)
  ultimately show ?thesis
    using assms(1,2,3,5) unfolding calm_inv_def grows_def by auto
qed

lemma rowsOf_columns:
  "rowsOf (map (\<lambda>job. (kSink key, jRecord job)) jobs) key' uid = []"
  if "\<forall>job \<in> set jobs. rAPIGroup (jRecord job) = kGroup key \<and> rKind (jRecord job) = kKind key \<and>
        rNamespace (jRecord job) = kNamespace key \<and> rName (jRecord job) = kName key"
    and "kSink key' \<noteq> kSink key \<or> cacheKey key' \<noteq> cacheKey key"
  using that by (auto simp: rowsOf_def filter_empty_conv cacheKey_def)

lemma upsertJob_columns:
  "rAPIGroup (jRecord (upsertJob e key a norm row revert v ts)) = kGroup key"
  "rKind (jRecord (upsertJob e key a norm row revert v ts)) = kKind key"
  "rNamespace (jRecord (upsertJob e key a norm row revert v ts)) = kNamespace key"
  "rName (jRecord (upsertJob e key a norm row revert v ts)) = kName key"
  "rUID (jRecord (upsertJob e key a norm row revert v ts)) = nUID norm"
  by (simp_all add: upsertJob_def upsertRecord_def)

lemma writes_version:
  assumes "writes e key w norm old row closing v" "n < 2 ^ 62"
    and "\<And>cached. old = Some cached \<Longrightarrow> unat (ceVersion cached) \<le> 2 * n"
  shows "unat v \<le> 2 * Suc n \<and> (\<forall>cached. old = Some cached \<longrightarrow> unat (ceVersion cached) < unat v)"
proof (cases old)
  case None
  then have "v = 1" using assms(1) by (simp add: writes_def)
  then show ?thesis using None by simp
next
  case (Some cached)
  have small: "unat (ceVersion cached) + 2 < 2 ^ 64" using assms(2) assms(3) [OF Some] by simp
  have "unat (ceVersion cached + 1) = unat (ceVersion cached) + 1" "unat (ceVersion cached + 2) = unat (ceVersion cached) + 2"
    using small by (simp_all add: unat_word_ariths)
  moreover have "v \<in> {ceVersion cached + 1, ceVersion cached + 2}" using assms(1) Some by (auto simp: writes_def)
  ultimately show ?thesis using assms(3) [OF Some] Some by auto
qed

text \<open>A pending callback stays behind the entry that replaced the one it would confirm.\<close>

lemma tracked_step:
  assumes "grows p p'" "\<And>b. b \<noteq> a \<Longrightarrow> cacheAt b p' = cacheAt b p"
    and "\<And>k. mget (cacheAt a p') k = (if k = k0 then Some (conf\<lparr>ceVersion := v\<rparr>) else mget (cacheAt a p) k)"
    and "\<And>cached. mget (cacheAt a p) k0 = Some cached \<Longrightarrow> unat (ceVersion cached) < unat v"
    and "tracked p c"
  shows "tracked p' c"
proof (cases c)
  case (CommitUpsert b key k v' conf' revert)
  then obtain entry where t: "wf_key key" "k = cacheKey key" "mget (pStates p) (kSink key) = Some b"
    and e: "mget (cacheAt b p) k = Some entry" "unat v' \<le> unat (ceVersion entry)"
      "v' = ceVersion entry \<longrightarrow> entry = conf'\<lparr>ceVersion := v'\<rparr>"
    using assms(5) by (auto simp: tracked_def)
  have reg: "mget (pStates p') (kSink key) = Some b" using assms(1) t(3) by (simp add: grows_def)
  show ?thesis
  proof (cases "b = a \<and> k = k0")
    case True
    then have "unat v' < unat v" using assms(4) e by fastforce
    then show ?thesis using True assms(3) [of k] t reg by (auto simp: CommitUpsert tracked_def)
  next
    case False
    then have "mget (cacheAt b p') k = Some entry" using assms(2) [of b] assms(3) [of k] e(1) by (cases "b = a") auto
    then show ?thesis using t reg e by (simp add: CommitUpsert tracked_def)
  qed
qed (use assms(5) in \<open>simp_all add: tracked_def\<close>)

lemma calm_inv_process:
  assumes inv: "calm_inv ap dec p h n" and n: "n < 2 ^ 62" and env: "faithful ap enc dec e" "accepting e" "wf_key key"
    and get: "eGet e key = Inr (Some obj, True)" "uGetUID (eUapi e) obj \<noteq> ''''" and pr: "Process e key p = (r, p')"
  shows "calm_inv ap dec p' (h @ map (\<lambda>job. (kSink key, jRecord job)) (drop (length (pJobs p)) (pJobs p'))) (Suc n)"
proof -
  have wf: "registry_wf p" and cl: "\<forall>a. ssCloseOuts (stateAt a p) = []" using inv by (simp_all add: calm_inv_def)
  note pf = Process_found [OF wf env(2) get(1) cl pr]
  show ?thesis
  proof (cases "pJobs p' = pJobs p \<and> (\<forall>b. cacheAt b p' = cacheAt b p)")
    case True
    then show ?thesis using calm_inv_frame [OF inv] pf by simp
  next
    case False
    then obtain a w policy norm row closing revert v ts where
      reg: "mget (pStates p') (kSink key) = Some a" and norm: "normalizeObject (eUapi e) obj policy = Some norm"
      and wr: "writes e key w norm (mget (cacheAt a p) (cacheKey key)) row closing v"
      and jobs: "pJobs p' = pJobs p @ closing @ [upsertJob e key a norm row revert v ts]"
      and others: "\<And>b. b \<noteq> a \<Longrightarrow> cacheAt b p' = cacheAt b p"
      and cache: "\<And>k. mget (cacheAt a p') k =
           (if k = cacheKey key then Some ((confirmedEntryFor e key norm row)\<lparr>ceVersion := v\<rparr>) else mget (cacheAt a p) k)"
      using pf by blast
    have gr: "grows p p'" and cl': "\<forall>a. ssCloseOuts (stateAt a p') = []" using pf by blast+
    define job where "job = upsertJob e key a norm row revert v ts"
    define hs where "hs = map (\<lambda>job. (kSink key, jRecord job)) (closing @ [job])"
    have old: "good_entry ap dec h n key' entry"
      if "mget (pStates p') (kSink key') = Some b" "wf_key key'" "mget (cacheAt b p) (cacheKey key') = Some entry" for key' b entry
      using inv grows_registered [OF gr that(1,3)] that unfolding calm_inv_def by blast
    have ver: "unat v \<le> 2 * Suc n" "\<And>cached. mget (cacheAt a p) (cacheKey key) = Some cached \<Longrightarrow> unat (ceVersion cached) < unat v"
      using writes_version [OF wr n] old [OF reg env(3)] by (auto simp: good_entry_def)
    have uid: "nUID norm \<noteq> ''''" using normalizeObject_UID [OF norm] get(2) by simp
    have closing: "\<exists>cached ts. mget (cacheAt a p) (cacheKey key) = Some cached \<and> ceUID cached \<noteq> nUID norm \<and>
        jRecord j = deletedRecord e key cached ts \<and> (\<exists>a k r. jCommit j = CommitCloseOut a key k r)" if "j \<in> set closing" for j
      using wr that by (auto simp: writes_def split: option.splits)
    have cols: "\<forall>j \<in> set (closing @ [job]). rAPIGroup (jRecord j) = kGroup key \<and> rKind (jRecord j) = kKind key \<and>
        rNamespace (jRecord j) = kNamespace key \<and> rName (jRecord j) = kName key"
      using closing by (fastforce simp: job_def upsertJob_columns deletedRecord_def)
    have new: "good_entry ap dec (h @ hs) (Suc n) key ((confirmedEntryFor e key norm row)\<lparr>ceVersion := v\<rparr>)"
    proof -
      have "rowsOf (map (\<lambda>job. (kSink key, jRecord job)) closing) key (nUID norm) = []"
        using closing by (fastforce simp: rowsOf_def filter_empty_conv deletedRecord_def)
      then have rows: "rowsOf (h @ hs) key (nUID norm) = rowsOf h key (nUID norm) @ [jRecord job]"
        by (simp add: hs_def rowsOf_append) (simp add: rowsOf_def job_def upsertJob_columns)
      have "replayRow ap (replay ap (rowsOf h key (nUID norm))) (upsertRecord e key norm row ts) = Some (nJSON norm)"
        if "\<not> key_ephemeral key"
        by (rule replay_write [OF env(1) wr norm]) (use old [OF reg env(3)] in \<open>auto simp: good_entry_def\<close>)
      then show ?thesis
        using rows uid ver(1) decode_confirmed [OF env(1)] normalized_text [OF norm]
        by (auto simp: good_entry_def confirmedEntryFor_sel replay_append job_def upsertJob_def)
    qed
    have good: "good_entry ap dec (h @ hs) (Suc n) key' entry"
      if k: "mget (pStates p') (kSink key') = Some b" "wf_key key'" "mget (cacheAt b p') (cacheKey key') = Some entry" for key' b entry
    proof (cases "b = a \<and> cacheKey key' = cacheKey key")
      case True
      then have "kSink key' = kSink key" using gr k(1) reg unfolding grows_def registry_wf_def by blast
      moreover have "kGroup key' = kGroup key \<and> kKind key' = kKind key \<and> kNamespace key' = kNamespace key \<and> kName key' = kName key"
        using True cacheKey_eq_iff [OF k(2) env(3)] by simp
      ultimately have "key' = key" by (cases key, cases key') auto
      then show ?thesis using new True k(3) cache by simp
    next
      case False
      then have prev: "mget (cacheAt b p) (cacheKey key') = Some entry"
        using k(3) others [of b] cache [of "cacheKey key'"] by (cases "b = a") auto
      have "kSink key' \<noteq> kSink key \<or> cacheKey key' \<noteq> cacheKey key" using False k(1) reg by auto
      from rowsOf_columns [OF cols this] show ?thesis
        using good_entry_frame [OF old [OF k(1,2) prev]] by (simp add: hs_def)
    qed
    have "tracked p' (jCommit j)" if j: "j \<in> set (pJobs p')" for j
    proof -
      consider "tracked p (jCommit j)" | "j = job" | "j \<in> set closing"
        using j inv unfolding jobs job_def calm_inv_def by auto
      then show ?thesis
      proof cases
        case 1
        show ?thesis by (rule tracked_step [OF gr others cache ver(2) 1])
      next
        case 2
        then show ?thesis using env(3) reg cache [of "cacheKey key"] by (simp add: job_def upsertJob_def tracked_def)
      next
        case 3
        then show ?thesis using closing by (fastforce simp: tracked_def)
      qed
    qed
    then show ?thesis
      using gr cl' good unfolding calm_inv_def jobs by (auto simp: hs_def job_def grows_def)
  qed
qed

lemma calm_inv_settle:
  assumes inv: "calm_inv ap dec p h n"
  shows "calm_inv ap dec (settleJob i True p) h n"
proof (cases "i < length (pJobs p)")
  case True
  define c where "c = jCommit (pJobs p ! i)"
  define js where "js = take i (pJobs p) @ drop (Suc i) (pJobs p)"
  define q where "q = settleJob i True p"
  have tr: "tracked p c" using inv True by (simp add: calm_inv_def c_def)
  have q: "q = runCommit c True (p\<lparr>pJobs := js\<rparr>)" using True by (simp add: q_def settleJob_def c_def js_def)
  have reg: "pStates q = pStates p" "length (pHeap q) = length (pHeap p)" "pJobs q = js"
    "\<And>a. ssCloseOuts (stateAt a q) = ssCloseOuts (stateAt a p)"
    using tr by (auto simp: q runCommit_def tracked_def pipe_simps split: Commit.splits)
  have cache: "mget (cacheAt b q) k = mget (cacheAt b p) k" for b k
  proof (cases c)
    case (CommitUpsert a key k' v conf revert)
    then show ?thesis
      using tr by (auto simp: q runCommit_def tracked_def pipe_simps CommitIfCurrent_def)
  qed (use tr in \<open>auto simp: q runCommit_def tracked_def pipe_simps\<close>)
  have "set js \<subseteq> set (pJobs p)" by (auto simp: js_def dest: in_set_takeD in_set_dropD)
  moreover have "tracked q x" if "tracked p x" for x
    using that by (auto simp: tracked_def reg cache split: Commit.splits)
  ultimately have "calm_inv ap dec q h n"
    using inv by (auto simp: calm_inv_def registry_wf_def reg cache)
  then show ?thesis by (simp add: q_def)
qed (use inv in \<open>simp add: settleJob_def\<close>)

lemma calm_inv_run: "calm_run ap enc dec p h n \<Longrightarrow> n < 2 ^ 62 \<Longrightarrow> calm_inv ap dec p h n"
proof (induction rule: calm_run.induct)
  case calm_init
  then show ?case by (simp add: calm_inv_def registry_wf_def Pipeline_New_def stateAt_def emptySinkState_def)
next
  case (calm_process p h n e key obj r p')
  then show ?case by (intro calm_inv_process) simp_all
next
  case (calm_settle p h n i)
  then show ?case by (simp add: calm_inv_settle)
next
  case (calm_warm p h n s scope)
  then have inv: "calm_inv ap dec p h n" by simp
  then have wf: "registry_wf p" by (simp add: calm_inv_def)
  obtain a q where g: "registry_get s p = (a, q)" by fastforce
  note spec = registry_get_spec [OF g wf]
  have "grows p (MarkScopeWarm s scope p)"
    using grows_cong [OF grows_get [OF g wf]] by (simp add: MarkScopeWarm_def g pipe_simps)
  moreover have "pJobs (MarkScopeWarm s scope p) = pJobs p" "cacheAt b (MarkScopeWarm s scope p) = cacheAt b p"
    "ssCloseOuts (stateAt b (MarkScopeWarm s scope p)) = []" for b
    using spec inv by (simp_all add: MarkScopeWarm_def g pipe_simps calm_inv_def)
  ultimately show ?case using calm_inv_frame [OF inv] by blast
qed


definition sampleObj :: jobj where
  "sampleObj = [(''metadata'', JObj [(''uid'', JStr ''u'')])]"

lemma sampleObj_normalizes: "\<exists>norm. normalizeObject uapi_doc sampleObj None = Some norm"
proof -
  have "marshal (Redact_Apply None (JObj (stripVolatileFields sampleObj (hasActorsAnnotation uapi_doc sampleObj)))) \<noteq> None"
    by code_simp
  then show ?thesis by (auto simp: normalizeObject_def)
qed

lemma sampleEnv_faithful:
  "faithful (\<lambda>b d. Some d) (\<lambda>x. zstdMagic @ x) (\<lambda>y. Some (drop 4 y)) (sampleEnv look)" "accepting (sampleEnv look)"
  by (auto simp: faithful_def sampleEnv_def zstd_codec_def zstdMagic_def accepting_def)


end
