(* ===== verification/HistoryLoss.thy ===== *)
theory HistoryLoss
imports History
begin

text \<open>
  Runs in which a failed write loses part of an object's history: the cache advances over writes
  that were never confirmed.
\<close>

lemma settle_at:
  "pJobs p = js @ j # js' \<Longrightarrow> settleJob (length js) ok p = runCommit (jCommit j) ok (p\<lparr>pJobs := js @ js'\<rparr>)"
  by (simp add: settleJob_def)

text \<open>A callback whose version was superseded leaves every entry as it is, whatever the outcome.\<close>

lemma superseded_commit:
  assumes "mget (cacheAt a p) k = Some entry" "ceVersion entry \<noteq> v"
    and "q = runCommit (CommitUpsert a key k v conf revert) ok p"
  shows "pStates q = pStates p" "pJobs q = pJobs p" "length (pHeap q) = length (pHeap p)" "stateAt b q = stateAt b p"
  using assms
  by (auto simp: runCommit_def revertVersion_def CommitIfCurrent_def DeleteIfCurrent_def pipe_simps split: option.split)

text \<open>A handler run that finds a known incarnation in a new state.\<close>

lemma Process_changed_eq:
  assumes wf: "registry_wf p" "mget (pStates p) (kSink key) = Some a" "mget (ssCloseOuts (stateAt a p)) (cacheKey key) = None"
    and cached: "mget (cacheAt a p) (cacheKey key) = Some cached"
    and env: "accepting e" "eGet e key = Inr (Some obj, True)" "redactionFor e key = Some policy"
      "normalizeObject (eUapi e) obj policy = Some norm" "ceUID cached \<in> {'''', nUID norm}" "ceHash cached \<noteq> nHash norm"
      "eWriterFor e (kSink key) = Some w"
  defines "s \<equiv> retryPendingCloseOuts e key a w (cacheKey key) p"
  shows "Process e key p =
    writeUpsert e key a w (cacheKey key) norm (modifiedRow e w (key_ephemeral key) cached norm) (Some cached) s"
proof -
  have "registry_get (kSink key) p = (a, p)" using wf(2) by (simp add: registry_get_def)
  moreover have "stateAt a s = stateAt a p" using retry_none [OF wf(3) s_def [THEN meta_eq_to_obj_eq]] by blast
  then have "planUpsert e key a w (cacheKey key) norm s =
      (Some (modifiedRow e w (key_ephemeral key) cached norm, Some cached), s)"
    using env(5,6) cached by (auto simp: planUpsert_def Load_def)
  ultimately show ?thesis
    using env(2-4,7) by (simp add: Process_def Let_def processUpsert_def flip: s_def)
qed

lemma Process_changed_ok:
  assumes wf: "registry_wf p" "mget (pStates p) (kSink key) = Some a" "mget (ssCloseOuts (stateAt a p)) (cacheKey key) = None"
    and cached: "mget (cacheAt a p) (cacheKey key) = Some cached"
    and env: "accepting e" "eGet e key = Inr (Some obj, True)" "redactionFor e key = Some policy"
      "normalizeObject (eUapi e) obj policy = Some norm" "ceUID cached \<in> {'''', nUID norm}" "ceHash cached \<noteq> nHash norm"
      "eWriterFor e (kSink key) = Some w"
  shows "fst (Process e key p) = None"
  using env(1) unfolding Process_changed_eq [OF wf cached env]
  by (simp add: writeUpsert_def Let_def pipe_simps split: prod.split)

lemma Process_changed:
  assumes wf: "registry_wf p" "mget (pStates p) (kSink key) = Some a" "mget (ssCloseOuts (stateAt a p)) (cacheKey key) = None"
    and cached: "mget (cacheAt a p) (cacheKey key) = Some cached"
    and env: "accepting e" "eGet e key = Inr (Some obj, True)" "redactionFor e key = Some policy"
      "normalizeObject (eUapi e) obj policy = Some norm" "ceUID cached \<in> {'''', nUID norm}" "ceHash cached \<noteq> nHash norm"
      "eWriterFor e (kSink key) = Some w"
    and run: "Process e key p = (r, p')"
  shows "\<exists>ts. pStates p' = pStates p \<and> length (pHeap p') = length (pHeap p) \<and>
    pJobs p' = pJobs p @ [upsertJob e key a norm (modifiedRow e w (key_ephemeral key) cached norm) (Some cached) (ceVersion cached + 1) ts] \<and>
    ssCloseOuts (stateAt a p') = ssCloseOuts (stateAt a p) \<and>
    mget (cacheAt a p') (cacheKey key) =
      Some ((confirmedEntryFor e key norm (modifiedRow e w (key_ephemeral key) cached norm))\<lparr>ceVersion := ceVersion cached + 1\<rparr>)"
proof -
  define s where "s = retryPendingCloseOuts e key a w (cacheKey key) p"
  have s: "pStates s = pStates p" "length (pHeap s) = length (pHeap p)" "stateAt a s = stateAt a p" "pJobs s = pJobs p"
    using retry_none [OF wf(3) s_def] by simp_all
  have a: "a < length (pHeap s)" using wf(1,2) s(2) by (simp add: registry_wf_def)
  note wr = writeUpsert_accepting [OF env(1) a Process_changed_eq [OF wf cached env, folded s_def, symmetric, unfolded run]]
  show ?thesis
    by (rule exI [of _ "eNow e (pTicks s)"]) (use wr(2,3,5) wr(4) [of a] s cached in \<open>simp add: Reserve_def Let_def\<close>)
qed

lemma sampleObj_UID: "uGetUID uapi_doc sampleObj = ''u''" by code_simp

lemma sampleKey_not_ephemeral: "\<not> key_ephemeral sampleKey" by code_simp

lemma sampleEnv_sees:
  assumes "normalizeObject uapi_doc sampleObj None = Some norm"
  defines "e \<equiv> sampleEnv (\<lambda>k. Inr (Some sampleObj, True))"
  shows "accepting e" "eGet e k = Inr (Some sampleObj, True)" "redactionFor e k = Some None"
    "normalizeObject (eUapi e) sampleObj None = Some norm" "nUID norm = ''u''" "nHash norm \<noteq> ''h''"
    "eWriterFor e s = Some \<lparr>wID = 0, wCheckpointEvery = Some 10\<rparr>"
proof -
  show "nUID norm = ''u''" using normalizeObject_UID [OF assms(1)] by (simp add: sampleObj_UID)
  have "length (nHash norm) = 64" using normalized_text [OF assms(1)] by (simp add: length_sha256Hex)
  then show "nHash norm \<noteq> ''h''" by auto
qed (use assms in \<open>simp_all add: e_def sampleEnv_def accepting_def redactionFor_def\<close>)



text \<open>C32. A delete claim can leak.  When an object whose deletion is still being written is seen again in
  another state, the new write remembers the claimed entry as the state to fall back to.  If that
  write fails, the fallback restores the claim under a new version: the callback of the delete
  that took the claim can no longer release or complete it, and when the object is gone for good
  the handler hands over no Deleted row and reports success.\<close>

theorem reverted_claim_blocks_delete:
  assumes wf: "registry_wf p" "mget (pStates p) (kSink key) = Some a" "mget (ssCloseOuts (stateAt a p)) (cacheKey key) = None"
    and claimed: "mget (cacheAt a p) (cacheKey key) = Some cached" "cePendingDelete cached"
    and env: "accepting e" "eGet e key = Inr (Some obj, True)" "redactionFor e key = Some policy"
      "normalizeObject (eUapi e) obj policy = Some norm" "ceUID cached \<in> {'''', nUID norm}" "ceHash cached \<noteq> nHash norm"
    and run: "Process e key p = (None, p1)" "p2 = settleJob (length (pJobs p)) False p1"
    and gone: "eGet d key = Inr (None, True)" "\<not> key_ephemeral key" "eWriterFor d (kSink key) \<noteq> None"
  shows "fst (Process d key p2) = None \<and> pJobs (snd (Process d key p2)) = pJobs p2 \<and>
    (\<forall>ok q. q = runCommit (CommitDelete a key (cacheKey key) (ceVersion cached)) ok p2 \<longrightarrow>
       fst (Process d key q) = None \<and> pJobs (snd (Process d key q)) = pJobs q)"
proof -
  obtain w where w: "eWriterFor e (kSink key) = Some w" using env(2) run(1) by (auto simp: Process_def split: option.splits)
  have a: "a < length (pHeap p)" using wf(1,2) by (simp add: registry_wf_def)
  define row where "row = modifiedRow e w (key_ephemeral key) cached norm"
  define conf where "conf = confirmedEntryFor e key norm row"
  define v where "v = ceVersion cached + 1"
  obtain ts where p1: "pStates p1 = pStates p" "length (pHeap p1) = length (pHeap p)"
    "pJobs p1 = pJobs p @ [upsertJob e key a norm row (Some cached) v ts]"
    "ssCloseOuts (stateAt a p1) = ssCloseOuts (stateAt a p)"
    "mget (cacheAt a p1) (cacheKey key) = Some (conf\<lparr>ceVersion := v\<rparr>)"
    using Process_changed [OF wf claimed(1) env w run(1)] unfolding row_def conf_def v_def by metis
  have p2: "p2 = runCommit (CommitUpsert a key (cacheKey key) v conf (Some cached)) False (p1\<lparr>pJobs := pJobs p\<rparr>)"
    unfolding run(2) using settle_at [of p1 "pJobs p" _ "[]" False] p1(3) by (simp add: upsertJob_def conf_def)
  have s2: "mget (pStates p2) (kSink key) = Some a" "mget (ssCloseOuts (stateAt a p2)) (cacheKey key) = None"
    "mget (cacheAt a p2) (cacheKey key) = Some (cached\<lparr>ceVersion := v\<rparr>)"
    using p1 wf(2,3) a by (simp_all add: p2 runCommit_def revertVersion_def CommitIfCurrent_def pipe_simps)
  have stuck: "fst (Process d key q) = None \<and> pJobs (snd (Process d key q)) = pJobs q"
    if "mget (pStates q) (kSink key) = Some a" "mget (ssCloseOuts (stateAt a q)) (cacheKey key) = None"
      "mget (cacheAt a q) (cacheKey key) = Some (cached\<lparr>ceVersion := v\<rparr>)" for q
    using absorbed_silent [of d key a q] that claimed(2) gone by (simp add: absorbed_def silent_def)
  have "v \<noteq> ceVersion cached" by (simp add: v_def)
  then have del: "mget (cacheAt a q) (cacheKey key) = Some (cached\<lparr>ceVersion := v\<rparr>) \<and> mget (pStates q) (kSink key) = Some a \<and>
      mget (ssCloseOuts (stateAt a q)) (cacheKey key) = None"
    if "q = runCommit (CommitDelete a key (cacheKey key) (ceVersion cached)) ok p2" for ok q
    using that s2 by (cases ok) (simp_all add: runCommit_def DeleteIfCurrent_def UnclaimDelete_def pipe_simps)
  show ?thesis
  proof (intro conjI allI impI)
    show "fst (Process d key p2) = None" "pJobs (snd (Process d key p2)) = pJobs p2" using stuck [OF s2] by blast+
  next
    fix ok q
    assume "q = runCommit (CommitDelete a key (cacheKey key) (ceVersion cached)) ok p2"
    note d = del [OF this]
    then show "fst (Process d key q) = None" "pJobs (snd (Process d key q)) = pJobs q" using stuck [of q] by simp_all
  qed
qed

theorem reverted_claim_blocks_delete_witness:
  "let entry = zeroEntry\<lparr>ceHash := ''h'', ceUID := ''u'', ceVersion := 2, cePendingDelete := True\<rparr>;
       p = \<lparr>pStates = [(''s'', 0)], pHeap = [emptySinkState\<lparr>ssCache := [(cacheKey sampleKey, entry)]\<rparr>],
            pJobs = [], pTicks = 0, pEffects = []\<rparr>;
       p2 = settleJob 0 False (snd (Process (sampleEnv (\<lambda>k. Inr (Some sampleObj, True))) sampleKey p))
   in pJobs (snd (Process (sampleEnv (\<lambda>k. Inr (None, True))) sampleKey p2)) = pJobs p2"
proof -
  define entry where "entry = zeroEntry\<lparr>ceHash := ''h'', ceUID := ''u'', ceVersion := 2, cePendingDelete := True\<rparr>"
  define p where "p = \<lparr>pStates = [(''s'', 0)], pHeap = [emptySinkState\<lparr>ssCache := [(cacheKey sampleKey, entry)]\<rparr>],
            pJobs = [], pTicks = 0, pEffects = []\<rparr>"
  define e where "e = sampleEnv (\<lambda>k. Inr (Some sampleObj, True))"
  define d where "d = sampleEnv (\<lambda>k. Inr (None, True))"
  obtain norm where norm: "normalizeObject uapi_doc sampleObj None = Some norm" using sampleObj_normalizes by blast
  have st: "stateAt 0 p = emptySinkState\<lparr>ssCache := [(cacheKey sampleKey, entry)]\<rparr>" by (simp add: p_def stateAt_def)
  have wf: "registry_wf p" "mget (pStates p) (kSink sampleKey) = Some 0" "mget (ssCloseOuts (stateAt 0 p)) (cacheKey sampleKey) = None"
    by (simp_all add: st emptySinkState_def) (simp_all add: p_def registry_wf_def sampleKey_def)
  have claimed: "mget (cacheAt 0 p) (cacheKey sampleKey) = Some entry" "cePendingDelete entry"
    by (simp_all add: st) (simp add: entry_def)
  have env: "accepting e" "eGet e sampleKey = Inr (Some sampleObj, True)" "redactionFor e sampleKey = Some None"
    "normalizeObject (eUapi e) sampleObj None = Some norm" "ceUID entry \<in> {'''', nUID norm}" "ceHash entry \<noteq> nHash norm"
    "eWriterFor e (kSink sampleKey) = Some \<lparr>wID = 0, wCheckpointEvery = Some 10\<rparr>"
    using sampleEnv_sees [OF norm] by (auto simp: e_def entry_def)
  have "fst (Process e sampleKey p) = None" by (rule Process_changed_ok [OF wf claimed(1) env])
  then have pr: "Process e sampleKey p = (None, snd (Process e sampleKey p))" by (metis prod.collapse)
  have "pJobs p = []" by (simp add: p_def)
  then have "pJobs (snd (Process d sampleKey (settleJob 0 False (snd (Process e sampleKey p))))) =
      pJobs (settleJob 0 False (snd (Process e sampleKey p)))"
    using reverted_claim_blocks_delete [OF wf claimed env(1-6) pr refl, of d] sampleKey_not_ephemeral
    by (simp add: d_def sampleEnv_def)
  then show ?thesis unfolding Let_def d_def e_def p_def entry_def .
qed

end
