(* ===== verification/Warm.thy ===== *)
theory Warm
imports History
begin

text \<open>
  The warm coordinator (\<open>internal/pipeline/warm.go\<close>): seeding a scope's baselines from the sink's
  history, the sweep that closes out objects which died unobserved, recovery of unclosed
  incarnations, and the reconciliation of scope epochs at boot.  What the coordinator only asks
  (the history reader, the watch layer's view of scopes, cancellation, the scope-log writer) is in
  the environment record \<open>WEnv\<close>; a retry loop sees one environment per attempt.  A loop that only
  cancellation ends is a partial function: not returning is the value None.
\<close>

section \<open>Scopes, targets and history\<close>

record scopeRef =
  srSink :: string
  srScope :: ScopeKey

definition ref_key :: "scopeRef \<Rightarrow> string \<Rightarrow> string \<Rightarrow> Key" where
  "ref_key r namespace name =
     \<lparr>kSink = srSink r, kGroup = sGroup (srScope r), kKind = sKind (srScope r), kNamespace = namespace, kName = name\<rparr>"

definition ref_filter :: "scopeRef \<Rightarrow> string \<Rightarrow> ScopeFilter" where
  "ref_filter r clusterID =
     \<lparr>sfClusterID = clusterID, sfAPIGroup = sGroup (srScope r), sfKind = sKind (srScope r),
      sfNamespace = sNamespace (srScope r)\<rparr>"

record gcTarget =
  gtNamespace :: string
  gtName :: string
  gtUID :: string

record Reader =
  LastKnownStates :: "ScopeFilter \<Rightarrow> string + KnownState list"
  ScopeWasActive :: "ScopeFilter \<Rightarrow> int \<Rightarrow> string + bool"
  ActiveScopes :: "string \<Rightarrow> string + ScopeFilter list"

record WEnv =
  wPipe :: Env
  wReader :: "string \<Rightarrow> Reader option"
  wSynced :: "string \<Rightarrow> ScopeKey \<Rightarrow> bool"
  wDesired :: "string \<Rightarrow> ScopeKey \<Rightarrow> bool"
  wCancelled :: bool
  wScopeWriter :: "string \<Rightarrow> (ScopeEvent \<Rightarrow> string option) option"
  wNow :: "nat \<Rightarrow> int"

datatype warmError =
    NoStateReader
  | SinkNotLive
  | NoWriter
  | HistoryUnreadable string
  | EvidencePending
  | ErrScopeStopped
  | WatchLookup string
  | ClaimFailed processError
  | Cancelled
  | NoScopeWriter
  | ScopeWriteFailed string

definition readerFor :: "WEnv \<Rightarrow> string \<Rightarrow> warmError + Reader" where
  "readerFor w sinkName =
     (case wReader w sinkName of
        Some reader \<Rightarrow> Inr reader
      | None \<Rightarrow> if eWriterFor (wPipe w) sinkName \<noteq> None then Inl NoStateReader else Inl SinkNotLive)"

section \<open>Retry\<close>

text \<open>\<open>backoff.Retry\<close> with an unbounded back-off: an attempt finishes, fails for good or fails for
  now, and between attempts only cancellation ends the loop.\<close>

datatype 'a attempt = Finished 'a | Permanent warmError | Again warmError

partial_function (option) retry ::
    "(nat \<Rightarrow> bool) \<Rightarrow> (nat \<Rightarrow> 's \<Rightarrow> 'a attempt \<times> 's) \<Rightarrow> nat \<Rightarrow> 's \<Rightarrow> (nat \<times> (warmError + 'a) \<times> 's) option" where
  "retry cancelled attempt n s =
     (case attempt n s of
        (Finished x, s) \<Rightarrow> Some (n, Inr x, s)
      | (Permanent e, s) \<Rightarrow> Some (n, Inl e, s)
      | (Again e, s) \<Rightarrow> if cancelled n then Some (n, Inl Cancelled, s) else retry cancelled attempt (Suc n) s)"

section \<open>Incarnations\<close>

definition identityOf :: "KnownState \<Rightarrow> string \<times> string" where
  "identityOf st = (ksNamespace st, ksName st)"

fun addToGroup :: "KnownState \<Rightarrow> KnownState list list \<Rightarrow> KnownState list list" where
  "addToGroup st [] = [[st]]"
| "addToGroup st (g # gs) =
     (if map identityOf (take 1 g) = [identityOf st] then (g @ [st]) # gs else g # addToGroup st gs)"

definition groupByIdentity :: "KnownState list \<Rightarrow> KnownState list list" where
  "groupByIdentity states = fold addToGroup states []"

definition newer :: "KnownState \<Rightarrow> KnownState \<Rightarrow> KnownState" where
  "newer state current =
     (if ksTS state > ksTS current \<or> (ksTS state = ksTS current \<and> ksUID state > ksUID current) then state else current)"

definition splitIncarnations :: "KnownState list \<Rightarrow> KnownState \<times> KnownState list" where
  "splitIncarnations grp =
     (let current = fold newer (tl grp) (hd grp)
      in (current, filter (\<lambda>state. ksUID state \<noteq> ksUID current) grp))"

definition priorOf :: "KnownState \<Rightarrow> reincarnation" where
  "priorOf st = \<lparr>riNamespace = ksNamespace st, riName = ksName st, riUID = ksUID st,
     riAPIVersion = ksAPIVersion st, riTS = ksTS st\<rparr>"

definition targetOf :: "KnownState \<Rightarrow> gcTarget" where
  "targetOf st = \<lparr>gtNamespace = ksNamespace st, gtName = ksName st, gtUID = ksUID st\<rparr>"

section \<open>Seeding\<close>

definition seedTargets :: "KnownState list \<Rightarrow> gcTarget list" where
  "seedTargets states = map (\<lambda>g. targetOf (fst (splitIncarnations g))) (groupByIdentity states)"

definition seedPriors :: "KnownState list \<Rightarrow> reincarnation list" where
  "seedPriors states = concat (map (\<lambda>g. map priorOf (snd (splitIncarnations g))) (groupByIdentity states))"

definition seedGroup :: "scopeRef \<Rightarrow> KnownState list \<Rightarrow> hashCache \<Rightarrow> hashCache" where
  "seedGroup ref grp c =
     (let (current, _) = splitIncarnations grp
      in StoreIfAbsent (cacheKey (ref_key ref (ksNamespace current) (ksName current)))
           (seedEntry (ksSHA256 current) (ksUID current)) c)"

definition seedAttempt ::
    "WEnv \<Rightarrow> scopeRef \<Rightarrow> Pipeline \<Rightarrow> (gcTarget list \<times> reincarnation list) attempt \<times> Pipeline" where
  "seedAttempt w ref p =
     (case readerFor w (srSink ref) of
        Inl e \<Rightarrow> (if e = NoStateReader then Permanent e else Again e, p)
      | Inr reader \<Rightarrow>
          (case LastKnownStates reader (ref_filter ref (eClusterID (wPipe w))) of
             Inl err \<Rightarrow> (Again (HistoryUnreadable err), p)
           | Inr states \<Rightarrow>
               let (a, p) = registry_get (srSink ref) p;
                   p = setCache a (fold (seedGroup ref) (groupByIdentity states) (cacheAt a p)) p
               in (Finished (seedTargets states, seedPriors states), recordCacheEntries (srSink ref) a p)))"

section \<open>Gates\<close>

partial_function (option) awaitScopeSync :: "(nat \<Rightarrow> WEnv) \<Rightarrow> scopeRef \<Rightarrow> nat \<Rightarrow> (nat \<times> bool) option" where
  "awaitScopeSync w ref n =
     (if wSynced (w n) (srSink ref) (srScope ref) then Some (n, True)
      else if \<not> wDesired (w n) (srSink ref) (srScope ref) then Some (n, False)
      else if wCancelled (w n) then Some (n, False)
      else awaitScopeSync w ref (Suc n))"

definition wasActiveAttempt :: "WEnv \<Rightarrow> scopeRef \<Rightarrow> int \<Rightarrow> Pipeline \<Rightarrow> bool attempt \<times> Pipeline" where
  "wasActiveAttempt w ref epochStart p =
     (case readerFor w (srSink ref) of
        Inl e \<Rightarrow> (if e = NoStateReader then Permanent e else Again e, p)
      | Inr reader \<Rightarrow>
          (case ScopeWasActive reader (ref_filter ref (eClusterID (wPipe w))) epochStart of
             Inl err \<Rightarrow> (Again (HistoryUnreadable err), p)
           | Inr active \<Rightarrow> (Finished active, p)))"

section \<open>Close-outs from history\<close>

fun closeOutLoop :: "WEnv \<Rightarrow> scopeRef \<Rightarrow> nat \<Rightarrow> Writer \<Rightarrow> reincarnation list \<Rightarrow> nat \<Rightarrow> Pipeline \<Rightarrow> nat attempt \<times> Pipeline" where
  "closeOutLoop w ref a writer [] recovered p = (Finished recovered, p)"
| "closeOutLoop w ref a writer (prior # priors) recovered p =
     (if wCancelled w then (Again Cancelled, p)
      else let key = ref_key ref (riNamespace prior) (riName prior)
           in closeOutLoop w ref a writer priors (Suc recovered)
                (enqueueCloseOut (wPipe w) key a writer (cacheKey key)
                   (closeOutRecord prior (eClusterID (wPipe w)) key) p))"

definition closeOutAttempt :: "WEnv \<Rightarrow> scopeRef \<Rightarrow> reincarnation list \<Rightarrow> Pipeline \<Rightarrow> nat attempt \<times> Pipeline" where
  "closeOutAttempt w ref priors p =
     (case eWriterFor (wPipe w) (srSink ref) of
        None \<Rightarrow> (Again NoWriter, p)
      | Some writer \<Rightarrow> (case registry_get (srSink ref) p of (a, p) \<Rightarrow> closeOutLoop w ref a writer priors 0 p))"

definition emitCloseOuts ::
    "(nat \<Rightarrow> WEnv) \<Rightarrow> scopeRef \<Rightarrow> reincarnation list \<Rightarrow> nat \<Rightarrow> Pipeline \<Rightarrow> (nat \<times> nat \<times> Pipeline) option" where
  "emitCloseOuts w ref priors n p =
     (if priors = [] then Some (n, 0, p)
      else map_option (\<lambda>(n, r, p). (n, case r of Inl _ \<Rightarrow> 0 | Inr recovered \<Rightarrow> recovered, p))
             (retry (\<lambda>n. wCancelled (w n)) (\<lambda>n. closeOutAttempt (w n) ref priors) n p))"

section \<open>The sweep\<close>

record gcResult =
  gcZombies :: nat
  gcReincarnated :: "gcTarget list"

definition liveUID :: "Env \<Rightarrow> jobj option \<Rightarrow> string option" where
  "liveUID e found = map_option (uGetUID (eUapi e)) found"

fun gcLoop ::
    "WEnv \<Rightarrow> scopeRef \<Rightarrow> nat \<Rightarrow> Writer \<Rightarrow> gcTarget list \<Rightarrow> gcResult \<Rightarrow> Pipeline \<Rightarrow> (gcResult \<times> unit attempt) \<times> Pipeline" where
  "gcLoop w ref a writer [] result p = ((result, Finished ()), p)"
| "gcLoop w ref a writer (target # targets) result p =
     (if wCancelled w then ((result, Again Cancelled), p)
      else
        let key = ref_key ref (gtNamespace target) (gtName target)
        in case eGet (wPipe w) key of
             Inl err \<Rightarrow> ((result, Again (WatchLookup err)), p)
           | Inr (found, scopeActive) \<Rightarrow>
               if \<not> scopeActive then ((result, Permanent ErrScopeStopped), p)
               else if liveUID (wPipe w) found = Some (gtUID target) then gcLoop w ref a writer targets result p
               else
                 (case emitDelete (wPipe w) key a writer (gtUID target) p of
                    ((outcome, Some err), p) \<Rightarrow> ((result, Again (ClaimFailed err)), p)
                  | ((outcome, None), p) \<Rightarrow>
                      if outcome \<noteq> deleteClaimed then
                        gcLoop w ref a writer targets
                          (if outcome = deleteClaimUIDMismatch \<and> found \<noteq> None \<and>
                              liveUID (wPipe w) found \<noteq> Some (gtUID target)
                           then result\<lparr>gcReincarnated := gcReincarnated result @ [target]\<rparr> else result) p
                      else gcLoop w ref a writer targets (result\<lparr>gcZombies := gcZombies result + 1\<rparr>) p))"

definition emptyGcResult :: gcResult where
  "emptyGcResult = \<lparr>gcZombies = 0, gcReincarnated = []\<rparr>"

definition gcPass :: "WEnv \<Rightarrow> scopeRef \<Rightarrow> gcTarget list \<Rightarrow> Pipeline \<Rightarrow> (gcResult \<times> unit attempt) \<times> Pipeline" where
  "gcPass w ref seeded p =
     (case eWriterFor (wPipe w) (srSink ref) of
        None \<Rightarrow> ((emptyGcResult, Again NoWriter), p)
      | Some writer \<Rightarrow> (case registry_get (srSink ref) p of (a, p) \<Rightarrow> gcLoop w ref a writer seeded emptyGcResult p))"

text \<open>The result of the last attempt is kept whatever ended the retries.\<close>

definition collectAttempt ::
    "WEnv \<Rightarrow> scopeRef \<Rightarrow> gcTarget list \<Rightarrow> gcResult \<times> Pipeline \<Rightarrow> unit attempt \<times> gcResult \<times> Pipeline" where
  "collectAttempt w ref seeded s = (case gcPass w ref seeded (snd s) of ((result, r), p) \<Rightarrow> (r, result, p))"

definition collectZombies ::
    "(nat \<Rightarrow> WEnv) \<Rightarrow> scopeRef \<Rightarrow> gcTarget list \<Rightarrow> nat \<Rightarrow> Pipeline \<Rightarrow> (nat \<times> gcResult \<times> Pipeline) option" where
  "collectZombies w ref seeded n p =
     map_option (\<lambda>(n, _, result, p). (n, result, p))
       (retry (\<lambda>n. wCancelled (w n)) (\<lambda>n. collectAttempt (w n) ref seeded) n (emptyGcResult, p))"

section \<open>Refused reincarnations\<close>

definition indexRows :: "KnownState list \<Rightarrow> (gcTarget, KnownState) gomap" where
  "indexRows states = fold (\<lambda>st. mput (targetOf st) st) (concat (groupByIdentity states)) []"

definition indexCurrent :: "KnownState list \<Rightarrow> (string \<times> string, string) gomap" where
  "indexCurrent states =
     fold (\<lambda>g. let newest = fst (splitIncarnations g) in mput (identityOf newest) (ksUID newest)) (groupByIdentity states) []"

text \<open>The attempt's verdict on one pending target: closed by somebody else, still waiting for the
  successor's row, or provably superseded.\<close>

datatype verdict = Closed | Waiting | Superseded KnownState

definition judge :: "KnownState list \<Rightarrow> gcTarget \<Rightarrow> verdict" where
  "judge states target =
     (case mget (indexRows states) target of
        None \<Rightarrow> Closed
      | Some row \<Rightarrow>
          if mget (indexCurrent states) (gtNamespace target, gtName target) = Some (gtUID target)
          then Waiting else Superseded row)"

definition superseded :: "KnownState list \<Rightarrow> gcTarget list \<Rightarrow> reincarnation list" where
  "superseded states pending =
     concat (map (\<lambda>t. case judge states t of Superseded row \<Rightarrow> [priorOf row] | _ \<Rightarrow> []) pending)"

definition stillWaiting :: "KnownState list \<Rightarrow> gcTarget list \<Rightarrow> gcTarget list" where
  "stillWaiting states pending = filter (\<lambda>t. judge states t = Waiting) pending"

text \<open>The wait for the successor's row gives up when its time budget is spent (\<open>giveUp\<close>).  The order in
  which a Go map yields the pending targets is that of the list.\<close>

partial_function (option) recoverLoop ::
    "(nat \<Rightarrow> WEnv) \<Rightarrow> (nat \<Rightarrow> bool) \<Rightarrow> scopeRef \<Rightarrow> nat \<Rightarrow> gcTarget list \<Rightarrow> nat \<Rightarrow> Pipeline \<Rightarrow> (nat \<times> nat \<times> Pipeline) option" where
  "recoverLoop w giveUp ref n pending recovered p =
     (case readerFor (w n) (srSink ref) of
        Inl e \<Rightarrow>
          if e = NoStateReader \<or> giveUp n \<or> wCancelled (w n) then Some (n, recovered, p)
          else recoverLoop w giveUp ref (Suc n) pending recovered p
      | Inr reader \<Rightarrow>
          (case LastKnownStates reader (ref_filter ref (eClusterID (wPipe (w n)))) of
             Inl err \<Rightarrow>
               if giveUp n \<or> wCancelled (w n) then Some (n, recovered, p)
               else recoverLoop w giveUp ref (Suc n) pending recovered p
           | Inr states \<Rightarrow>
               Option.bind (emitCloseOuts w ref (superseded states pending) n p)
                 (\<lambda>(m, k, p).
                    if stillWaiting states pending = [] \<or> giveUp m \<or> wCancelled (w m) then Some (m, recovered + k, p)
                    else recoverLoop w giveUp ref (Suc m) (stillWaiting states pending) (recovered + k) p)))"

definition recoverRefusedReincarnations ::
    "(nat \<Rightarrow> WEnv) \<Rightarrow> (nat \<Rightarrow> bool) \<Rightarrow> scopeRef \<Rightarrow> gcTarget list \<Rightarrow> nat \<Rightarrow> Pipeline \<Rightarrow> (nat \<times> nat \<times> Pipeline) option" where
  "recoverRefusedReincarnations w giveUp ref refused n p =
     (if refused = [] then Some (n, 0, p) else recoverLoop w giveUp ref n (remdups refused) 0 p)"

declare retry.simps [code] awaitScopeSync.simps [code] recoverLoop.simps [code]

section \<open>The warm of one scope\<close>

definition reconcileHistory ::
    "(nat \<Rightarrow> WEnv) \<Rightarrow> (nat \<Rightarrow> bool) \<Rightarrow> scopeRef \<Rightarrow> gcTarget list \<Rightarrow> reincarnation list \<Rightarrow> nat \<Rightarrow> Pipeline \<Rightarrow> Pipeline option" where
  "reconcileHistory w giveUp ref seeded priors n p =
     Option.bind (emitCloseOuts w ref priors n p)
       (\<lambda>(n, _, p).
          if seeded = [] then Some p
          else Option.bind (collectZombies w ref seeded n p)
                 (\<lambda>(n, result, p).
                    map_option (snd \<circ> snd) (recoverRefusedReincarnations w giveUp ref (gcReincarnated result) n p)))"

text \<open>The second half of a warm: wait for the scope's first sync when there is something to sweep, ask
  the scope log whether the scope was watched before this epoch, then reconcile.\<close>

definition warmGated ::
    "(nat \<Rightarrow> WEnv) \<Rightarrow> (nat \<Rightarrow> bool) \<Rightarrow> scopeRef \<Rightarrow> int \<Rightarrow> gcTarget list \<Rightarrow> reincarnation list \<Rightarrow> nat \<Rightarrow> Pipeline \<Rightarrow> Pipeline option" where
  "warmGated w giveUp ref epochStart seeded priors n p =
     Option.bind (if seeded \<noteq> [] then awaitScopeSync w ref n else Some (n, True))
       (\<lambda>(n, synced).
          if \<not> synced then Some p
          else Option.bind
                 (retry (\<lambda>n. wCancelled (w n)) (\<lambda>n. wasActiveAttempt (w n) ref epochStart) n p)
                 (\<lambda>(n, active, p).
                    if active = Inr True then reconcileHistory w giveUp ref seeded priors n p else Some p))"

definition warm :: "(nat \<Rightarrow> WEnv) \<Rightarrow> (nat \<Rightarrow> bool) \<Rightarrow> scopeRef \<Rightarrow> int \<Rightarrow> Pipeline \<Rightarrow> Pipeline option" where
  "warm w giveUp ref epochStart p =
     Option.bind (retry (\<lambda>n. wCancelled (w n)) (\<lambda>n. seedAttempt (w n) ref) 0 p)
       (\<lambda>(n, r, p).
          case r of
            Inl _ \<Rightarrow> Some p
          | Inr (seeded, priors) \<Rightarrow>
              let p = MarkScopeWarm (srSink ref) (srScope ref) p
              in if scope_ephemeral (srScope ref) then Some p
                 else if seeded = [] \<and> priors = [] then Some p
                 else warmGated w giveUp ref epochStart seeded priors n p)"

section \<open>Coordinator\<close>

record WarmTarget =
  waSink :: string
  waScope :: ScopeKey
  waEpochStart :: int

text \<open>The coordinator's bookkeeping: whether it runs, requests held until it does, the epoch of each
  scope's run, the sinks already reconciled at boot; and a trace of the runs launched and cancelled.\<close>

datatype runEvent = Launched scopeRef int | CancelledRun scopeRef int

record WarmCoordinator =
  wcStarted :: bool
  wcStopped :: bool
  wcPending :: "WarmTarget list"
  wcRuns :: "(scopeRef, int) gomap"
  wcBootDone :: "string list"
  wcTrace :: "runEvent list"

definition NewWarmCoordinator :: WarmCoordinator where
  "NewWarmCoordinator = \<lparr>wcStarted = False, wcStopped = False, wcPending = [], wcRuns = [], wcBootDone = [], wcTrace = []\<rparr>"

definition targetRef :: "WarmTarget \<Rightarrow> scopeRef" where
  "targetRef t = \<lparr>srSink = waSink t, srScope = waScope t\<rparr>"

definition startLocked :: "WarmTarget \<Rightarrow> WarmCoordinator \<Rightarrow> WarmCoordinator" where
  "startLocked target c =
     (let ref = targetRef target;
          launch = (\<lambda>c. c\<lparr>wcRuns := mput ref (waEpochStart target) (wcRuns c),
                           wcTrace := wcTrace c @ [Launched ref (waEpochStart target)]\<rparr>)
      in case mget (wcRuns c) ref of
           None \<Rightarrow> launch c
         | Some epoch \<Rightarrow>
             if \<not> waEpochStart target > epoch then c
             else launch (c\<lparr>wcTrace := wcTrace c @ [CancelledRun ref epoch]\<rparr>))"

definition WarmScope :: "WarmTarget \<Rightarrow> WarmCoordinator \<Rightarrow> WarmCoordinator" where
  "WarmScope target c =
     (if wcStopped c then c
      else if \<not> wcStarted c then c\<lparr>wcPending := wcPending c @ [target]\<rparr>
      else startLocked target c)"

definition cancelRuns :: "(scopeRef \<Rightarrow> bool) \<Rightarrow> WarmCoordinator \<Rightarrow> WarmCoordinator" where
  "cancelRuns sel c =
     c\<lparr>wcRuns := mdel_if sel (wcRuns c),
       wcTrace := wcTrace c @ map (\<lambda>(ref, epoch). CancelledRun ref epoch) (filter (\<lambda>(ref, _). sel ref) (wcRuns c))\<rparr>"

definition StopScope :: "string \<Rightarrow> ScopeKey \<Rightarrow> WarmCoordinator \<Rightarrow> WarmCoordinator" where
  "StopScope sinkName scope c =
     (let ref = \<lparr>srSink = sinkName, srScope = scope\<rparr>; c = cancelRuns (\<lambda>r. r = ref) c
      in c\<lparr>wcPending := filter (\<lambda>t. \<not> (waSink t = srSink ref \<and> waScope t = srScope ref)) (wcPending c)\<rparr>)"

definition ForgetSink :: "string \<Rightarrow> WarmCoordinator \<Rightarrow> WarmCoordinator" where
  "ForgetSink name c =
     (let c = c\<lparr>wcBootDone := removeAll name (wcBootDone c)\<rparr>; c = cancelRuns (\<lambda>r. srSink r = name) c
      in c\<lparr>wcPending := filter (\<lambda>t. waSink t \<noteq> name) (wcPending c)\<rparr>)"

definition StartCoordinator :: "WarmCoordinator \<Rightarrow> WarmCoordinator" where
  "StartCoordinator c = fold startLocked (wcPending c) (c\<lparr>wcStarted := True, wcPending := []\<rparr>)"

definition StopCoordinator :: "WarmCoordinator \<Rightarrow> WarmCoordinator" where
  "StopCoordinator c = cancelRuns (\<lambda>r. True) (c\<lparr>wcStopped := True\<rparr>)"

section \<open>Boot reconciliation\<close>

definition bootReconciled :: "string \<Rightarrow> WarmCoordinator \<Rightarrow> bool" where
  "bootReconciled name c \<longleftrightarrow> name \<in> set (wcBootDone c)"

definition markBootReconciled :: "string \<Rightarrow> WarmCoordinator \<Rightarrow> WarmCoordinator" where
  "markBootReconciled name c = c\<lparr>wcBootDone := List.insert name (wcBootDone c)\<rparr>"

fun closeScopes ::
    "WEnv \<Rightarrow> string \<Rightarrow> (ScopeEvent \<Rightarrow> string option) \<Rightarrow> ScopeFilter list \<Rightarrow> ScopeEvent list \<Rightarrow> warmError option \<times> ScopeEvent list" where
  "closeScopes w sinkName enqueue [] sent = (None, sent)"
| "closeScopes w sinkName enqueue (flt # filters) sent =
     (let scope = \<lparr>sGroup = sfAPIGroup flt, sKind = sfKind flt, sNamespace = sfNamespace flt\<rparr>
      in if wDesired w sinkName scope then closeScopes w sinkName enqueue filters sent
         else let event = \<lparr>seAction = ScopeActionStopped, seScope = flt, seAPIVersion = '''', seRuleRef = '''',
                           seTS = wNow w (length sent)\<rparr>
              in case enqueue event of
                   Some err \<Rightarrow> (Some (ScopeWriteFailed err), sent)
                 | None \<Rightarrow> closeScopes w sinkName enqueue filters (sent @ [event]))"

definition closeOrphanedScopes :: "WEnv \<Rightarrow> string \<Rightarrow> warmError option \<times> ScopeEvent list" where
  "closeOrphanedScopes w sinkName =
     (case readerFor w sinkName of
        Inl e \<Rightarrow> (if e = NoStateReader then None else Some e, [])
      | Inr reader \<Rightarrow>
          (case wScopeWriter w sinkName of
             None \<Rightarrow> (Some NoScopeWriter, [])
           | Some enqueue \<Rightarrow>
               (case ActiveScopes reader (eClusterID (wPipe w)) of
                  Inl err \<Rightarrow> (Some (HistoryUnreadable err), [])
                | Inr scopes \<Rightarrow> closeScopes w sinkName enqueue scopes [])))"

fun reconcileScopeEpochs ::
    "WEnv \<Rightarrow> string list \<Rightarrow> WarmCoordinator \<Rightarrow> (string \<times> ScopeEvent) list \<Rightarrow> WarmCoordinator \<times> (string \<times> ScopeEvent) list" where
  "reconcileScopeEpochs w [] c sent = (c, sent)"
| "reconcileScopeEpochs w (name # names) c sent =
     (if bootReconciled name c then reconcileScopeEpochs w names c sent
      else case closeOrphanedScopes w name of
             (Some err, evs) \<Rightarrow>
               if wCancelled w then (c, sent @ map (Pair name) evs)
               else reconcileScopeEpochs w names c (sent @ map (Pair name) evs)
           | (None, evs) \<Rightarrow>
               reconcileScopeEpochs w names (markBootReconciled name c) (sent @ map (Pair name) evs))"

section \<open>Grouping and classification\<close>

definition firstSeen :: "'a list \<Rightarrow> 'a list" where
  "firstSeen xs = rev (remdups (rev xs))"

lemma firstSeen_simps [simp]: "firstSeen [] = []"
  "firstSeen (xs @ [x]) = (if x \<in> set xs then firstSeen xs else firstSeen xs @ [x])"
  by (simp_all add: firstSeen_def)

lemma set_firstSeen [simp]: "set (firstSeen xs) = set xs" and distinct_firstSeen [simp]: "distinct (firstSeen xs)"
  by (simp_all add: firstSeen_def)

lemma addToGroup_map:
  assumes "\<And>i. i \<in> set ids \<Longrightarrow> f i \<noteq> []" "\<And>i x. i \<in> set ids \<Longrightarrow> x \<in> set (f i) \<Longrightarrow> identityOf x = i" "distinct ids"
  shows "addToGroup st (map f ids) =
    (if identityOf st \<in> set ids then map (\<lambda>i. if i = identityOf st then f i @ [st] else f i) ids
     else map f ids @ [[st]])"
  using assms
proof (induction ids)
  case (Cons i ids)
  have "map identityOf (take 1 (f i)) = [i]"
    using Cons.prems(1,2) [of i] by (cases "f i") auto
  moreover have "map (\<lambda>j. if j = i then f j @ [st] else f j) ids = map f ids"
    using Cons.prems(3) by auto
  ultimately show ?case using Cons by auto
qed simp

text \<open>The groups are the rows of each identity, in the order in which identities first appear.\<close>

lemma groupByIdentity_eq:
  "groupByIdentity states =
     map (\<lambda>i. filter (\<lambda>st. identityOf st = i) states) (firstSeen (map identityOf states))"
proof (induction states rule: rev_induct)
  case (snoc st states)
  have "groupByIdentity (states @ [st]) =
      addToGroup st (map (\<lambda>i. filter (\<lambda>st. identityOf st = i) states) (firstSeen (map identityOf states)))"
    using snoc by (simp add: groupByIdentity_def)
  also have "\<dots> = map (\<lambda>i. filter (\<lambda>s. identityOf s = i) (states @ [st])) (firstSeen (map identityOf (states @ [st])))"
  proof (cases "identityOf st \<in> set (map identityOf states)")
    case True
    then show ?thesis by (subst addToGroup_map) (auto simp: filter_empty_conv)
  next
    case False
    have "identityOf s \<noteq> identityOf st" if "s \<in> set states" for s using False that by (metis imageI list.set_map)
    then have "filter (\<lambda>s. identityOf s = identityOf st) states = []" by (simp add: filter_empty_conv)
    then show ?thesis
      using False by (subst addToGroup_map) (auto simp: filter_empty_conv)
  qed
  finally show ?case .
qed (simp add: groupByIdentity_def)

definition riper :: "KnownState \<Rightarrow> KnownState \<Rightarrow> bool" where
  "riper s t \<longleftrightarrow> ksTS s < ksTS t \<or> (ksTS s = ksTS t \<and> ksUID s \<le> ksUID t)"

lemma riper_refl: "riper s s" and riper_trans: "riper s t \<Longrightarrow> riper t u \<Longrightarrow> riper s u"
  and riper_antisym: "riper s t \<Longrightarrow> riper t s \<Longrightarrow> ksUID s = ksUID t"
  by (auto simp: riper_def)

lemma newer_riper: "riper s (newer s c)" "riper c (newer s c)" "newer s c \<in> {s, c}"
  by (auto simp: riper_def newer_def not_less)

lemma fold_newer_mem: "fold newer ss c \<in> insert c (set ss)"
proof (induction ss arbitrary: c)
  case (Cons s ss)
  have "fold newer ss (newer s c) \<in> insert (newer s c) (set ss)" by (rule Cons)
  then show ?case using newer_riper(3) [of s c] by auto
qed simp

lemma fold_newer_ripest: "riper c (fold newer ss c) \<and> (\<forall>s \<in> set ss. riper s (fold newer ss c))"
proof (induction ss arbitrary: c)
  case (Cons s ss)
  have ih: "riper (newer s c) (fold newer ss (newer s c))" "\<forall>t \<in> set ss. riper t (fold newer ss (newer s c))"
    using Cons by blast+
  have "riper s (fold newer ss (newer s c))" "riper c (fold newer ss (newer s c))"
    using riper_trans [OF _ ih(1)] newer_riper by blast+
  then show ?case using ih(2) by simp
qed (simp add: riper_refl)

text \<open>The current incarnation is the ripest row, and which UID that is depends only on the set of rows.\<close>

lemma current_ripest:
  assumes "grp \<noteq> []"
  shows "fst (splitIncarnations grp) \<in> set grp" "s \<in> set grp \<Longrightarrow> riper s (fst (splitIncarnations grp))"
  using fold_newer_mem [of "tl grp" "hd grp"] fold_newer_ripest [of "hd grp" "tl grp"] assms
  by (cases grp; auto simp: splitIncarnations_def Let_def)+

lemma priors_of_split: "snd (splitIncarnations grp) = filter (\<lambda>s. ksUID (fst (splitIncarnations grp)) \<noteq> ksUID s) grp"
  by (auto simp: splitIncarnations_def Let_def intro: filter_cong)

lemma current_UID_unique:
  assumes "c \<in> set grp" "\<And>s. s \<in> set grp \<Longrightarrow> riper s c"
  shows "ksUID (fst (splitIncarnations grp)) = ksUID c"
  using current_ripest [of grp] assms riper_antisym by (metis empty_iff list.set(1))

text \<open>A row is current when no row of its identity is riper under another UID.\<close>

definition currentRow :: "KnownState set \<Rightarrow> KnownState \<Rightarrow> bool" where
  "currentRow S st \<longleftrightarrow> (\<exists>c \<in> S. identityOf c = identityOf st \<and> ksUID c = ksUID st \<and>
     (\<forall>s \<in> S. identityOf s = identityOf st \<longrightarrow> riper s c))"

lemma split_current:
  assumes "st \<in> set states"
  defines "g \<equiv> filter (\<lambda>s. identityOf s = identityOf st) states"
  shows "ksUID (fst (splitIncarnations g)) = ksUID st \<longleftrightarrow> currentRow (set states) st"
proof -
  have g: "g \<noteq> []" "set g = {s \<in> set states. identityOf s = identityOf st}" using assms by (auto simp: g_def filter_empty_conv)
  note cur = current_ripest [OF g(1)]
  show ?thesis
  proof
    assume "ksUID (fst (splitIncarnations g)) = ksUID st"
    then show "currentRow (set states) st" using cur g(2) by (auto simp: currentRow_def)
  next
    assume "currentRow (set states) st"
    then obtain c where "c \<in> set g" "ksUID c = ksUID st" "\<And>s. s \<in> set g \<Longrightarrow> riper s c"
      using g(2) by (auto simp: currentRow_def)
    then show "ksUID (fst (splitIncarnations g)) = ksUID st" using current_UID_unique by metis
  qed
qed

text \<open>Which incarnations a warm seeds and which it closes out depends only on the set of rows the
  history holds, not on their order: there is exactly one target per name, a row is a prior exactly
  when another row of its name is newer (by time, then by UID) under another UID, and every other
  row is the current incarnation.\<close>

theorem incarnations_classified:
  "distinct (map (\<lambda>t. (gtNamespace t, gtName t)) (seedTargets states)) \<and>
   set (seedTargets states) = targetOf ` {st \<in> set states. currentRow (set states) st} \<and>
   set (seedPriors states) = priorOf ` {st \<in> set states. \<not> currentRow (set states) st}"
proof -
  define ids where "ids = firstSeen (map identityOf states)"
  define rows where "rows = (\<lambda>i. filter (\<lambda>st. identityOf st = i) states)"
  have groups: "groupByIdentity states = map rows ids" by (simp add: groupByIdentity_eq ids_def rows_def)
  have ids: "distinct ids" "set ids = identityOf ` set states" by (simp_all add: ids_def)
  have ne: "rows i \<noteq> []" if "i \<in> set ids" for i using that ids by (auto simp: rows_def filter_empty_conv)
  have row: "st \<in> set (rows i) \<longleftrightarrow> st \<in> set states \<and> identityOf st = i" for st i by (auto simp: rows_def)
  note cur = current_ripest [OF ne]
  have uid: "ksUID (fst (splitIncarnations (rows (identityOf st)))) = ksUID st \<longleftrightarrow> currentRow (set states) st"
    if "st \<in> set states" for st using split_current [OF that] by (simp add: rows_def)
  have tgt: "targetOf s = targetOf t \<longleftrightarrow> identityOf s = identityOf t \<and> ksUID s = ksUID t" for s t
    by (auto simp: targetOf_def identityOf_def)
  have names: "map (\<lambda>t. (gtNamespace t, gtName t)) (seedTargets states) = ids"
    using cur(1) row by (auto simp: seedTargets_def groups targetOf_def identityOf_def intro!: map_idI)
  have t1: "targetOf (fst (splitIncarnations (rows i))) \<in> targetOf ` {st \<in> set states. currentRow (set states) st}"
    if i: "i \<in> set ids" for i
  proof -
    define c where "c = fst (splitIncarnations (rows i))"
    have "c \<in> set states" "identityOf c = i" using cur(1) [OF i] row by (simp_all add: c_def)
    then show ?thesis using uid [of c] by (auto simp: c_def)
  qed
  have t2: "targetOf st \<in> set (seedTargets states)" if st: "st \<in> set states" "currentRow (set states) st" for st
  proof -
    have i: "identityOf st \<in> set ids" using st(1) ids by simp
    have "targetOf (fst (splitIncarnations (rows (identityOf st)))) = targetOf st"
      using uid [OF st(1)] st(2) cur(1) [OF i] row tgt by simp
    then show ?thesis using i unfolding seedTargets_def groups by (metis (no_types, lifting) comp_apply image_eqI list.map_comp list.set_map)
  qed
  have pr: "st \<in> set (snd (splitIncarnations (rows i))) \<longleftrightarrow> st \<in> set states \<and> identityOf st = i \<and> \<not> currentRow (set states) st"
    if "i \<in> set ids" for st i
    using row [of st i] uid [of st] by (auto simp: priors_of_split)
  have "set (seedTargets states) = targetOf ` {st \<in> set states. currentRow (set states) st}"
  proof (intro equalityI subsetI)
    fix t
    assume "t \<in> set (seedTargets states)"
    then show "t \<in> targetOf ` {st \<in> set states. currentRow (set states) st}" using t1 by (auto simp: seedTargets_def groups)
  qed (use t2 in blast)
  moreover have "set (snd (splitIncarnations (rows (identityOf x)))) =
      {st \<in> set states. identityOf st = identityOf x \<and> \<not> currentRow (set states) st}" if "x \<in> set states" for x
    using pr [of "identityOf x"] ids(2) that by blast
  then have "set (seedPriors states) = priorOf ` {st \<in> set states. \<not> currentRow (set states) st}"
    using ids(2) by (auto simp: seedPriors_def groups)
  ultimately show ?thesis using names ids(1) by simp
qed

section \<open>Seeding never clobbers\<close>

lemma seedGroup_keeps: "mget c k = Some entry \<Longrightarrow> mget (seedGroup ref g c) k = Some entry"
  by (auto simp: seedGroup_def StoreIfAbsent_def mhas_def split: prod.split)

lemma seedGroup_new:
  "mget c k = None \<Longrightarrow> mget (seedGroup ref g c) k =
     (let cur = fst (splitIncarnations g) in
      if k = cacheKey (ref_key ref (ksNamespace cur) (ksName cur))
      then Some ((seedEntry (ksSHA256 cur) (ksUID cur))\<lparr>ceVersion := 1\<rparr>) else None)"
  by (auto simp: seedGroup_def StoreIfAbsent_def mhas_def Let_def split: prod.split)

lemma fold_seedGroup_keeps: "mget c k = Some entry \<Longrightarrow> mget (fold (seedGroup ref) gs c) k = Some entry"
  by (induction gs arbitrary: c) (simp_all add: seedGroup_keeps)

lemma fold_seedGroup_new:
  assumes "mget c k = None"
  shows "case mget (fold (seedGroup ref) gs c) k of
      None \<Rightarrow> \<forall>g \<in> set gs. k \<noteq> cacheKey (ref_key ref (ksNamespace (fst (splitIncarnations g))) (ksName (fst (splitIncarnations g))))
    | Some entry \<Rightarrow> \<exists>g \<in> set gs. let cur = fst (splitIncarnations g) in
        k = cacheKey (ref_key ref (ksNamespace cur) (ksName cur)) \<and> entry = (seedEntry (ksSHA256 cur) (ksUID cur))\<lparr>ceVersion := 1\<rparr>"
  using assms
proof (induction gs arbitrary: c)
  case (Cons g gs)
  show ?case
  proof (cases "mget (seedGroup ref g c) k")
    case None
    then show ?thesis using Cons.IH [OF None] Cons.prems by (auto simp: seedGroup_new Let_def split: option.splits if_splits)
  next
    case (Some entry)
    then show ?thesis using fold_seedGroup_keeps [OF Some, of ref gs] Cons.prems by (auto simp: seedGroup_new Let_def split: if_splits)
  qed
qed simp


section \<open>The sweep claims what is gone, once\<close>

lemma emitDelete_cases:
  assumes "a < length (pHeap p)" "emitDelete e key a w uid p = ((out, err), q)"
  obtains (refused) "out \<noteq> deleteClaimed" "err = None" "pJobs q = pJobs p" "\<forall>b. stateAt b q = stateAt b p"
      "length (pHeap q) = length (pHeap p)" "pStates q = pStates p"
      "\<forall>entry. mget (cacheAt a p) (cacheKey key) = Some entry \<longrightarrow> cePendingDelete entry \<or> (uid \<noteq> '''' \<and> ceUID entry \<noteq> uid)"
  | (failed) entry where "out = deleteClaimed" "err \<noteq> None" "mget (cacheAt a p) (cacheKey key) = Some entry"
      "\<not> cePendingDelete entry" "uid = '''' \<or> ceUID entry = uid"
      "pJobs q = pJobs p" "length (pHeap q) = length (pHeap p)" "pStates q = pStates p"
  | (claimed) entry ts v where "out = deleteClaimed" "err = None" "mget (cacheAt a p) (cacheKey key) = Some entry"
      "\<not> cePendingDelete entry" "uid = '''' \<or> ceUID entry = uid"
      "pJobs q = pJobs p @ [\<lparr>jRecord = deletedRecord e key entry ts, jCommit = CommitDelete a key (cacheKey key) v\<rparr>]"
      "length (pHeap q) = length (pHeap p)" "pStates q = pStates p" "\<forall>b. b \<noteq> a \<longrightarrow> stateAt b q = stateAt b p"
      "cacheAt a q = mput (cacheKey key) (entry\<lparr>ceVersion := ceVersion entry + 1, cePendingDelete := True\<rparr>) (cacheAt a p)"
proof -
  obtain entry v out' c where rd: "ReserveDelete (cacheKey key) uid (cacheAt a p) = ((entry, v, out'), c)"
    by (metis prod_cases3 surj_pair)
  show ?thesis
  proof (cases "out' = deleteClaimed")
    case False
    then have "c = cacheAt a p" "\<forall>entry. mget (cacheAt a p) (cacheKey key) = Some entry \<longrightarrow>
        cePendingDelete entry \<or> (uid \<noteq> '''' \<and> ceUID entry \<noteq> uid)"
      using rd by (auto simp: ReserveDelete_def Let_def split: option.splits if_splits)
    then show ?thesis
      using False assms rd by (intro refused) (auto simp: emitDelete_def pipe_simps)
  next
    case True
    note cl = claimed_entry [OF rd [unfolded True]]
    have c: "c = mput (cacheKey key) (entry\<lparr>ceVersion := ceVersion entry + 1, cePendingDelete := True\<rparr>) (cacheAt a p)"
      using rd True cl by (auto simp: ReserveDelete_def Let_def split: if_splits)
    show ?thesis
    proof (cases "eEnqueueErr e (Suc (pTicks p))")
      case None
      then show ?thesis
        using assms rd True cl c by (intro claimed) (auto simp: emitDelete_def Enqueue_def Let_def pipe_simps)
    next
      case (Some x)
      then show ?thesis
        using assms rd True cl by (intro failed) (auto simp: emitDelete_def Enqueue_def Let_def pipe_simps)
    qed
  qed
qed

text \<open>The Deleted rows the sweep may write for a target, judged by the state \<open>p\<close>: the target is cached
  with no delete in flight and under the target's UID, and the watch, which serves the scope, does
  not show that incarnation.\<close>

definition zombieRows :: "WEnv \<Rightarrow> scopeRef \<Rightarrow> nat \<Rightarrow> Pipeline \<Rightarrow> gcTarget \<Rightarrow> PJob set" where
  "zombieRows w ref a p t =
     {job. \<exists>entry ts found. let key = ref_key ref (gtNamespace t) (gtName t) in
        mget (cacheAt a p) (cacheKey key) = Some entry \<and> \<not> cePendingDelete entry \<and> (gtUID t = '''' \<or> ceUID entry = gtUID t) \<and>
        eGet (wPipe w) key = Inr (found, True) \<and> liveUID (wPipe w) found \<noteq> Some (gtUID t) \<and>
        jRecord job = deletedRecord (wPipe w) key entry ts}"

text \<open>A target the sweep has nothing left to do for.\<close>

definition settled :: "WEnv \<Rightarrow> scopeRef \<Rightarrow> nat \<Rightarrow> Pipeline \<Rightarrow> gcTarget \<Rightarrow> bool" where
  "settled w ref a p t \<longleftrightarrow>
     (let key = ref_key ref (gtNamespace t) (gtName t) in
      (\<exists>found. eGet (wPipe w) key = Inr (found, True) \<and>
         (liveUID (wPipe w) found = Some (gtUID t) \<or>
          (\<forall>entry. mget (cacheAt a p) (cacheKey key) = Some entry \<longrightarrow>
             cePendingDelete entry \<or> (gtUID t \<noteq> '''' \<and> ceUID entry \<noteq> gtUID t)))))"

definition only_claims :: "nat \<Rightarrow> Pipeline \<Rightarrow> Pipeline \<Rightarrow> bool" where
  "only_claims a p q \<longleftrightarrow> length (pHeap q) = length (pHeap p) \<and> pStates q = pStates p \<and> (\<forall>b. b \<noteq> a \<longrightarrow> stateAt b q = stateAt b p) \<and>
     (\<forall>k. mget (cacheAt a q) k = mget (cacheAt a p) k \<or> (\<exists>entry. mget (cacheAt a q) k = Some entry \<and> cePendingDelete entry))"

lemma only_claims_trans: "only_claims a p q \<Longrightarrow> only_claims a q r \<Longrightarrow> only_claims a p r"
  unfolding only_claims_def by metis

lemma zombieRows_mono: "only_claims a p q \<Longrightarrow> zombieRows w ref a q t \<subseteq> zombieRows w ref a p t"
  unfolding zombieRows_def only_claims_def Let_def by (smt (verit) Collect_mono option.inject)

lemma settled_mono: "only_claims a p q \<Longrightarrow> settled w ref a p t \<Longrightarrow> settled w ref a q t"
  unfolding settled_def only_claims_def Let_def by (metis option.inject)

text \<open>What one pass over the targets does, whichever way it ends.\<close>

definition swept :: "WEnv \<Rightarrow> scopeRef \<Rightarrow> nat \<Rightarrow> gcTarget list \<Rightarrow> gcResult \<Rightarrow> unit attempt \<Rightarrow> Pipeline \<Rightarrow> gcResult \<Rightarrow> Pipeline \<Rightarrow> bool" where
  "swept w ref a ts result r p result' p' \<longleftrightarrow>
     (\<exists>js. pJobs p' = pJobs p @ js \<and> set js \<subseteq> (\<Union>t \<in> set ts. zombieRows w ref a p t) \<and>
        gcZombies result' = gcZombies result + length js) \<and> pStates p' = pStates p \<and>
     (r = Finished () \<longrightarrow> only_claims a p p' \<and> (\<forall>t \<in> set ts. settled w ref a p' t))"

lemma swept_cons:
  assumes "only_claims a p q" "settled w ref a q t" "swept w ref a ts mid r q result' p'"
    and "\<exists>js. pJobs q = pJobs p @ js \<and> set js \<subseteq> zombieRows w ref a p t \<and> gcZombies mid = gcZombies result + length js"
  shows "swept w ref a (t # ts) result r p result' p'"
proof -
  obtain js ks where js: "pJobs q = pJobs p @ js" "set js \<subseteq> zombieRows w ref a p t" "gcZombies mid = gcZombies result + length js"
    and ks: "pJobs p' = pJobs q @ ks" "set ks \<subseteq> (\<Union>t \<in> set ts. zombieRows w ref a q t)"
      "gcZombies result' = gcZombies mid + length ks"
    using assms(3,4) unfolding swept_def by blast
  have "set (js @ ks) \<subseteq> (\<Union>t \<in> set (t # ts). zombieRows w ref a p t)"
    using js(2) ks(2) zombieRows_mono [OF assms(1)] by fastforce
  moreover have "only_claims a p p'" "\<forall>t' \<in> set (t # ts). settled w ref a p' t'" if "r = Finished ()"
  proof -
    have q: "only_claims a q p'" "\<forall>t \<in> set ts. settled w ref a p' t" using \<open>r = Finished ()\<close> assms(3) by (simp_all add: swept_def)
    show "only_claims a p p'" by (rule only_claims_trans [OF assms(1) q(1)])
    show "\<forall>t' \<in> set (t # ts). settled w ref a p' t'" using settled_mono [OF q(1) assms(2)] q(2) by simp
  qed
  moreover have "pStates p' = pStates p" using assms(1,3) by (simp add: swept_def only_claims_def)
  ultimately show ?thesis unfolding swept_def using js ks by (intro conjI impI exI [of _ "js @ ks"]) auto
qed

lemma swept_stop: "r \<noteq> Finished () \<Longrightarrow> pJobs p' = pJobs p \<Longrightarrow> pStates p' = pStates p \<Longrightarrow> swept w ref a ts result r p result p'"
  by (simp add: swept_def)

lemma gcLoop_swept:
  "gcLoop w ref a writer ts result p = ((result', r), p') \<Longrightarrow> a < length (pHeap p) \<Longrightarrow> swept w ref a ts result r p result' p'"
proof (induction ts arbitrary: result p)
  case Nil
  then show ?case by (auto simp: swept_def only_claims_def)
next
  case (Cons t ts)
  define key where "key = ref_key ref (gtNamespace t) (gtName t)"
  show ?case
  proof (cases "wCancelled w \<or> (\<forall>found. eGet (wPipe w) key \<noteq> Inr (found, True))")
    case True
    then show ?thesis using Cons.prems by (auto simp: key_def Let_def intro!: swept_stop split: sum.splits if_splits)
  next
    case False
    then obtain found where get: "eGet (wPipe w) key = Inr (found, True)" "\<not> wCancelled w" by blast
    have refl: "only_claims a p p" by (simp add: only_claims_def)
    show ?thesis
    proof (cases "liveUID (wPipe w) found = Some (gtUID t)")
      case True
      then have "gcLoop w ref a writer ts result p = ((result', r), p')" using Cons.prems(1) get by (simp add: key_def)
      from Cons.IH [OF this Cons.prems(2)] show ?thesis
        using get True by (intro swept_cons [OF refl]) (auto simp: settled_def key_def Let_def)
    next
      case dead: False
      obtain out err q where em: "emitDelete (wPipe w) key a writer (gtUID t) p = ((out, err), q)" by (metis surj_pair)
      show ?thesis using Cons.prems(2) em
      proof (cases rule: emitDelete_cases)
        case refused
        then have oc: "only_claims a p q" by (simp add: only_claims_def)
        define mid where "mid = (if out = deleteClaimUIDMismatch \<and> found \<noteq> None \<and> liveUID (wPipe w) found \<noteq> Some (gtUID t)
            then result\<lparr>gcReincarnated := gcReincarnated result @ [t]\<rparr> else result)"
        have mid: "gcZombies mid = gcZombies result" "gcLoop w ref a writer ts mid q = ((result', r), p')"
          using Cons.prems(1) get dead em refused(1,2) by (auto simp: mid_def Let_def simp flip: key_def)
        have "settled w ref a q t" using refused get by (auto simp: settled_def key_def Let_def)
        from swept_cons [OF oc this Cons.IH [OF mid(2)]] show ?thesis using refused Cons.prems(2) mid(1) by simp
      next
        case (failed entry)
        then show ?thesis using Cons.prems(1) get dead em by (auto simp: Let_def simp flip: key_def intro!: swept_stop)
      next
        case (claimed entry ts' v)
        then have oc: "only_claims a p q" by (simp add: only_claims_def)
        have st: "settled w ref a q t" using claimed get by (auto simp: settled_def key_def Let_def)
        have next_t: "gcLoop w ref a writer ts (result\<lparr>gcZombies := gcZombies result + 1\<rparr>) q = ((result', r), p')"
          using Cons.prems(1) get dead em claimed(1,2) by (auto simp: Let_def simp flip: key_def)
        have "\<lparr>jRecord = deletedRecord (wPipe w) key entry ts', jCommit = CommitDelete a key (cacheKey key) v\<rparr> \<in> zombieRows w ref a p t"
          using claimed get dead by (force simp: zombieRows_def key_def Let_def)
        with swept_cons [OF oc st Cons.IH [OF next_t]] show ?thesis using claimed Cons.prems(2) by simp
      qed
    qed
  qed
qed

lemma gcPass_swept:
  assumes "registry_wf p" "gcPass w ref seeded p = ((result, r), p')" "eWriterFor (wPipe w) (srSink ref) \<noteq> None"
  obtains a writer q where "eWriterFor (wPipe w) (srSink ref) = Some writer" "registry_get (srSink ref) p = (a, q)"
    "mget (pStates q) (srSink ref) = Some a" "a < length (pHeap q)" "\<forall>b. stateAt b q = stateAt b p" "pJobs q = pJobs p"
    "gcLoop w ref a writer seeded emptyGcResult q = ((result, r), p')" "swept w ref a seeded emptyGcResult r q result p'"
proof -
  obtain writer where wr: "eWriterFor (wPipe w) (srSink ref) = Some writer"
    using assms(3) by blast
  obtain a q where g: "registry_get (srSink ref) p = (a, q)" by fastforce
  have loop: "gcLoop w ref a writer seeded emptyGcResult q = ((result, r), p')" using assms(2) wr g by (simp add: gcPass_def)
  note spec = registry_get_spec [OF g assms(1)]
  show ?thesis by (rule that [OF wr g _ _ _ _ loop gcLoop_swept [OF loop]]) (simp_all add: spec)
qed

text \<open>C26. The sweep never buries the living: every row a pass hands to the writer is the Deleted row of a
  target read from history whose cached entry carried the target's UID with no delete in flight,
  and whose incarnation the watch, serving the scope at that moment, did not show; and the
  zombies it counts are exactly the rows it wrote.\<close>

theorem zombies_justified:
  assumes "registry_wf p" "gcPass w ref seeded p = ((result, r), p')"
  shows "\<exists>js. pJobs p' = pJobs p @ js \<and> gcZombies result = length js \<and>
    (\<forall>job \<in> set js. \<exists>t \<in> set seeded. \<exists>a entry ts found. let key = ref_key ref (gtNamespace t) (gtName t) in
       mget (pStates p') (srSink ref) = Some a \<and> mget (cacheAt a p) (cacheKey key) = Some entry \<and>
       \<not> cePendingDelete entry \<and> (gtUID t = '''' \<or> ceUID entry = gtUID t) \<and>
       eGet (wPipe w) key = Inr (found, True) \<and> liveUID (wPipe w) found \<noteq> Some (gtUID t) \<and>
       jRecord job = deletedRecord (wPipe w) key entry ts)"
proof (cases "eWriterFor (wPipe w) (srSink ref)")
  case None
  then have "pJobs p' = pJobs p \<and> gcZombies result = 0" using assms(2) by (auto simp: gcPass_def emptyGcResult_def)
  then show ?thesis by (intro exI [of _ "[]"]) simp
next
  case (Some writer)
  then have "eWriterFor (wPipe w) (srSink ref) \<noteq> None" by simp
  then obtain a q where g: "mget (pStates q) (srSink ref) = Some a" "\<forall>b. stateAt b q = stateAt b p" "pJobs q = pJobs p"
    and sw: "swept w ref a seeded emptyGcResult r q result p'"
    by (rule gcPass_swept [OF assms])
  from sw obtain js where js: "pJobs p' = pJobs q @ js" "set js \<subseteq> (\<Union>t \<in> set seeded. zombieRows w ref a q t)"
    "gcZombies result = gcZombies emptyGcResult + length js" and st: "pStates p' = pStates q"
    unfolding swept_def by blast
  show ?thesis
  proof (intro exI conjI ballI)
    fix job assume "job \<in> set js"
    then obtain t where t: "t \<in> set seeded" "job \<in> zombieRows w ref a q t" using js(2) by blast
    show "\<exists>t \<in> set seeded. \<exists>a entry ts found. let key = ref_key ref (gtNamespace t) (gtName t) in
       mget (pStates p') (srSink ref) = Some a \<and> mget (cacheAt a p) (cacheKey key) = Some entry \<and>
       \<not> cePendingDelete entry \<and> (gtUID t = '''' \<or> ceUID entry = gtUID t) \<and>
       eGet (wPipe w) key = Inr (found, True) \<and> liveUID (wPipe w) found \<noteq> Some (gtUID t) \<and>
       jRecord job = deletedRecord (wPipe w) key entry ts"
      by (rule bexI [OF _ t(1)], rule exI [of _ a]) (use t(2) g(1,2) st in \<open>simp add: zombieRows_def Let_def\<close>)
  qed (use js g(3) in \<open>simp_all add: emptyGcResult_def\<close>)
qed

definition sampleWEnv :: "(Key \<Rightarrow> string + (jobj option \<times> bool)) \<Rightarrow> Reader \<Rightarrow> WEnv" where
  "sampleWEnv look reader = \<lparr>wPipe = sampleEnv look, wReader = (\<lambda>s. Some reader), wSynced = (\<lambda>s sc. True),
     wDesired = (\<lambda>s sc. True), wCancelled = False, wScopeWriter = (\<lambda>s. Some (\<lambda>ev. None)), wNow = int\<rparr>"

definition sampleRow :: KnownState where
  "sampleRow = \<lparr>ksNamespace = ''ns'', ksName = ''a'', ksUID = ''u'', ksSHA256 = ''h'', ksAPIVersion = ''v1'', ksTS = 5\<rparr>"

definition sampleReader :: Reader where
  "sampleReader = \<lparr>LastKnownStates = (\<lambda>f. Inr [sampleRow]),
     ScopeWasActive = (\<lambda>f t. Inr True), ActiveScopes = (\<lambda>c. Inr [])\<rparr>"

definition sampleRef :: scopeRef where
  "sampleRef = \<lparr>srSink = ''s'', srScope = \<lparr>sGroup = '''', sKind = ''Pod'', sNamespace = ''ns''\<rparr>\<rparr>"

definition sampleTarget :: gcTarget where
  "sampleTarget = \<lparr>gtNamespace = ''ns'', gtName = ''a'', gtUID = ''u''\<rparr>"

lemma samplePipeline_wf: "registry_wf (seedKey ''s'' (cacheKey sampleKey) (seedEntry ''h'' ''u'') Pipeline_New)"
  by (simp add: seedKey_def registry_get_def Pipeline_New_def registry_wf_def pipe_simps)

theorem zombies_justified_witness:
  "let w = sampleWEnv (\<lambda>k. Inr (None, True)) sampleReader;
       p = seedKey ''s'' (cacheKey sampleKey) (seedEntry ''h'' ''u'') Pipeline_New;
       ((result, r), p') = gcPass w sampleRef [sampleTarget] p
   in length (pJobs p') = 1 \<and> gcZombies result = 1"
proof -
  define w where "w = sampleWEnv (\<lambda>k. Inr (None, True)) sampleReader"
  define p where "p = seedKey ''s'' (cacheKey sampleKey) (seedEntry ''h'' ''u'') Pipeline_New"
  obtain result r p' where pass: "gcPass w sampleRef [sampleTarget] p = ((result, r), p')" by (metis surj_pair)
  have "length (pJobs (snd (gcPass w sampleRef [sampleTarget] p))) = 1" "pJobs p = []"
    unfolding w_def p_def by code_simp+
  then have one: "length (pJobs p') = 1" "pJobs p = []" unfolding pass by simp_all
  from zombies_justified [OF samplePipeline_wf [folded p_def] pass] have "\<exists>js. pJobs p' = pJobs p @ js \<and> gcZombies result = length js"
    by blast
  with one have "length (pJobs p') = 1 \<and> gcZombies result = 1" by auto
  then show ?thesis unfolding Let_def w_def [symmetric] p_def [symmetric] pass prod.case .
qed

lemma gcLoop_settled:
  assumes "\<not> wCancelled w \<or> ts = []" "\<forall>t \<in> set ts. settled w ref a p t" "a < length (pHeap p)"
  shows "case gcLoop w ref a writer ts result p of ((again, r), p') \<Rightarrow>
      r = Finished () \<and> gcZombies again = gcZombies result \<and> pJobs p' = pJobs p \<and> (\<forall>b. stateAt b p' = stateAt b p)"
  using assms
proof (induction ts arbitrary: result p)
  case (Cons t ts)
  define key where "key = ref_key ref (gtNamespace t) (gtName t)"
  obtain found where get: "eGet (wPipe w) key = Inr (found, True)" and
    t: "liveUID (wPipe w) found = Some (gtUID t) \<or> (\<forall>entry. mget (cacheAt a p) (cacheKey key) = Some entry \<longrightarrow>
          cePendingDelete entry \<or> (gtUID t \<noteq> '''' \<and> ceUID entry \<noteq> gtUID t))"
    using Cons.prems(2) by (auto simp: settled_def key_def Let_def)
  show ?case
  proof (cases "liveUID (wPipe w) found = Some (gtUID t)")
    case True
    then show ?thesis using Cons.IH [of p result] Cons.prems get by (auto simp flip: key_def)
  next
    case False
    obtain out err q where em: "emitDelete (wPipe w) key a writer (gtUID t) p = ((out, err), q)" by (metis surj_pair)
    have "out \<noteq> deleteClaimed \<and> err = None \<and> pJobs q = pJobs p \<and> (\<forall>b. stateAt b q = stateAt b p) \<and> length (pHeap q) = length (pHeap p)"
      by (cases rule: emitDelete_cases [OF Cons.prems(3) em]) (use t False in auto)
    then have q: "out \<noteq> deleteClaimed" "err = None" "pJobs q = pJobs p" "\<forall>b. stateAt b q = stateAt b p" "length (pHeap q) = length (pHeap p)"
      by blast+
    define mid where "mid = (if out = deleteClaimUIDMismatch \<and> found \<noteq> None \<and> liveUID (wPipe w) found \<noteq> Some (gtUID t)
            then result\<lparr>gcReincarnated := gcReincarnated result @ [t]\<rparr> else result)"
    have eq: "gcLoop w ref a writer (t # ts) result p = gcLoop w ref a writer ts mid q" "gcZombies mid = gcZombies result"
      using Cons.prems(1) get False em q(1,2) by (simp_all add: mid_def Let_def flip: key_def)
    have "\<forall>t \<in> set ts. settled w ref a q t" using Cons.prems(2) q(4) by (simp add: settled_def)
    from Cons.IH [of q mid] this show ?thesis unfolding eq using Cons.prems(1,3) q eq(2) by (auto split: prod.splits)
  qed
qed simp

text \<open>A completed sweep is complete and repeats to nothing: when a pass reaches the end of its
  targets, each of them is live under its UID, or is no longer cached as an unclaimed entry of
  that incarnation; and a second pass under the same observations finishes as well, claims
  nothing, writes no row and changes no sink state.\<close>

theorem sweep_settles:
  assumes "registry_wf p" "gcPass w ref seeded p = ((result, Finished ()), p')"
  shows "(\<exists>a. mget (pStates p') (srSink ref) = Some a \<and>
      (\<forall>t \<in> set seeded. \<exists>found. let key = ref_key ref (gtNamespace t) (gtName t) in
         eGet (wPipe w) key = Inr (found, True) \<and>
         (liveUID (wPipe w) found = Some (gtUID t) \<or>
          (\<forall>entry. mget (cacheAt a p') (cacheKey key) = Some entry \<longrightarrow>
             cePendingDelete entry \<or> (gtUID t \<noteq> '''' \<and> ceUID entry \<noteq> gtUID t))))) \<and>
    (case gcPass w ref seeded p' of ((again, r), p'') \<Rightarrow>
       r = Finished () \<and> gcZombies again = 0 \<and> pJobs p'' = pJobs p' \<and> (\<forall>b. stateAt b p'' = stateAt b p'))"
proof -
  have "eWriterFor (wPipe w) (srSink ref) \<noteq> None" using assms(2) by (cases "eWriterFor (wPipe w) (srSink ref)") (simp_all add: gcPass_def)
  then obtain a writer q where g: "eWriterFor (wPipe w) (srSink ref) = Some writer" "mget (pStates q) (srSink ref) = Some a"
      "a < length (pHeap q)" "gcLoop w ref a writer seeded emptyGcResult q = ((result, Finished ()), p')"
    and sw: "swept w ref a seeded emptyGcResult (Finished ()) q result p'"
    by (rule gcPass_swept [OF assms])
  then have reg: "mget (pStates p') (srSink ref) = Some a" "a < length (pHeap p')"
    and st: "\<forall>t \<in> set seeded. settled w ref a p' t" by (auto simp: swept_def only_claims_def)
  have "\<not> wCancelled w \<or> seeded = []" using g(4) by (cases seeded) auto
  then have "case gcLoop w ref a writer seeded res p' of ((again, r), p'') \<Rightarrow>
      r = Finished () \<and> gcZombies again = gcZombies res \<and> pJobs p'' = pJobs p' \<and> (\<forall>b. stateAt b p'' = stateAt b p')" for res
    using st reg(2) by (rule gcLoop_settled)
  from this [of emptyGcResult] have "case gcPass w ref seeded p' of ((again, r), p'') \<Rightarrow>
      r = Finished () \<and> gcZombies again = 0 \<and> pJobs p'' = pJobs p' \<and> (\<forall>b. stateAt b p'' = stateAt b p')"
    using g(1) reg(1) by (simp add: gcPass_def registry_get_def emptyGcResult_def)
  moreover have "\<forall>t \<in> set seeded. \<exists>found. let key = ref_key ref (gtNamespace t) (gtName t) in
         eGet (wPipe w) key = Inr (found, True) \<and>
         (liveUID (wPipe w) found = Some (gtUID t) \<or>
          (\<forall>entry. mget (cacheAt a p') (cacheKey key) = Some entry \<longrightarrow>
             cePendingDelete entry \<or> (gtUID t \<noteq> '''' \<and> ceUID entry \<noteq> gtUID t)))"
    using st by (simp add: settled_def Let_def)
  ultimately show ?thesis using reg(1) by blast
qed

theorem sweep_settles_witness:
  "let w = sampleWEnv (\<lambda>k. Inr (None, True)) sampleReader;
       p = seedKey ''s'' (cacheKey sampleKey) (seedEntry ''h'' ''u'') Pipeline_New;
       ((result, r), p') = gcPass w sampleRef [sampleTarget] p
   in r = Finished () \<and> pJobs (snd (gcPass w sampleRef [sampleTarget] p')) = pJobs p'"
proof -
  define w where "w = sampleWEnv (\<lambda>k. Inr (None, True)) sampleReader"
  define p where "p = seedKey ''s'' (cacheKey sampleKey) (seedEntry ''h'' ''u'') Pipeline_New"
  obtain result r p' where pass: "gcPass w sampleRef [sampleTarget] p = ((result, r), p')" by (metis surj_pair)
  have "snd (fst (gcPass w sampleRef [sampleTarget] p)) = Finished ()"
    unfolding w_def p_def by code_simp
  then have r: "r = Finished ()" using pass by simp
  have "case gcPass w sampleRef [sampleTarget] p' of ((again, r), p'') \<Rightarrow>
      r = Finished () \<and> gcZombies again = 0 \<and> pJobs p'' = pJobs p' \<and> (\<forall>b. stateAt b p'' = stateAt b p')"
    by (rule conjunct2 [OF sweep_settles [OF samplePipeline_wf [folded p_def] pass [unfolded r]]])
  then have "pJobs (snd (gcPass w sampleRef [sampleTarget] p')) = pJobs p'" by (simp only: case_prod_beta)
  then show ?thesis unfolding Let_def w_def [symmetric] p_def [symmetric] pass prod.case using r by blast
qed


end
