(* ===== verification/WarmRuns.thy ===== *)
theory WarmRuns
imports Warm
begin

text \<open>
  Whole runs of the warm coordinator: what a warm must have learnt before it writes, that a
  cancelled warm returns, that a scope has at most one live run, and the boot reconciliation of
  the scope log.
\<close>

section \<open>The gates of a warm\<close>

text \<open>How the result of a run of attempts relates to its last attempt.\<close>

definition ended :: "(warmError + 'a) \<Rightarrow> 'a attempt \<times> 's \<Rightarrow> 's \<Rightarrow> bool" where
  "ended r out s \<longleftrightarrow> snd out = s \<and> (case r of Inr x \<Rightarrow> fst out = Finished x | Inl _ \<Rightarrow> \<forall>x. fst out \<noteq> Finished x)"

lemma retry_finished:
  fixes I :: "'s \<Rightarrow> bool" and attempt :: "nat \<Rightarrow> 's \<Rightarrow> 'a attempt \<times> 's"
  assumes "retry cancelled attempt n s = Some (m, r, s')" "I s"
    and "\<And>k t e t'. I t \<Longrightarrow> attempt k t = (Again e, t') \<Longrightarrow> I t'"
  shows "n \<le> m \<and> (\<exists>t. I t \<and> ended r (attempt m t) s')"
proof -
  have "I s \<longrightarrow> (\<forall>k t e t'. I t \<longrightarrow> attempt k t = (Again e, t') \<longrightarrow> I t') \<longrightarrow>
      (case res of (m, r, s') \<Rightarrow> n \<le> m \<and> (\<exists>t. I t \<and> ended r (attempt m t) s'))"
    if "retry cancelled attempt n s = Some res" for res
    using that
  proof (rule retry.raw_induct [where P = "\<lambda>cancelled attempt n s res. I s \<longrightarrow>
      (\<forall>k t e t'. I t \<longrightarrow> attempt k t = (Again e, t') \<longrightarrow> I t') \<longrightarrow>
      (case res of (m, r, s') \<Rightarrow> n \<le> m \<and> (\<exists>t. I t \<and> ended r (attempt m t) s'))", rotated])
    fix rec :: "(nat \<Rightarrow> bool) \<Rightarrow> (nat \<Rightarrow> 's \<Rightarrow> 'a attempt \<times> 's) \<Rightarrow> nat \<Rightarrow> 's \<Rightarrow> (nat \<times> (warmError + 'a) \<times> 's) option"
    fix cancelled :: "nat \<Rightarrow> bool" and attempt :: "nat \<Rightarrow> 's \<Rightarrow> 'a attempt \<times> 's" and n s res
    assume IH: "\<And>cancelled attempt n s res. rec cancelled attempt n s = Some res \<Longrightarrow> I s \<longrightarrow>
        (\<forall>k t e t'. I t \<longrightarrow> attempt k t = (Again e, t') \<longrightarrow> I t') \<longrightarrow>
        (case res of (m, r, s') \<Rightarrow> n \<le> m \<and> (\<exists>t. I t \<and> ended r (attempt m t) s'))"
      and body: "(case attempt n s of
            (Finished x, s) \<Rightarrow> Some (n, Inr x, s)
          | (Permanent e, s) \<Rightarrow> Some (n, Inl e, s)
          | (Again e, s) \<Rightarrow> if cancelled n then Some (n, Inl Cancelled, s) else rec cancelled attempt (Suc n) s) = Some res"
    obtain a t where at: "attempt n s = (a, t)" by fastforce
    show "I s \<longrightarrow> (\<forall>k t e t'. I t \<longrightarrow> attempt k t = (Again e, t') \<longrightarrow> I t') \<longrightarrow>
        (case res of (m, r, s') \<Rightarrow> n \<le> m \<and> (\<exists>t. I t \<and> ended r (attempt m t) s'))"
    proof (cases "\<exists>e. a = Again e \<and> \<not> cancelled n")
      case True
      then show ?thesis using IH [of cancelled attempt "Suc n" t res] body at by (fastforce split: prod.splits)
    next
      case False
      then show ?thesis using body at by (cases a) (auto simp: ended_def intro!: exI [of _ s])
    qed
  qed
  from this [OF assms(1)] show ?thesis using assms(2,3) by auto
qed

lemma retry_returns:
  assumes "\<And>k. k \<ge> N \<Longrightarrow> cancelled k"
  shows "retry cancelled attempt n s \<noteq> None"
proof (induction "N - n" arbitrary: n s)
  case 0
  then show ?case using assms [of n] by (subst retry.simps) (auto split: attempt.splits prod.splits)
next
  case (Suc d)
  then show ?case by (subst retry.simps) (auto split: attempt.splits prod.splits)
qed

lemma awaitScopeSync_true:
  assumes "awaitScopeSync w ref n = Some (m, True)"
  shows "n \<le> m \<and> wSynced (w m) (srSink ref) (srScope ref)"
proof -
  have "snd res \<longrightarrow> n \<le> fst res \<and> wSynced (w (fst res)) (srSink ref) (srScope ref)" if "awaitScopeSync w ref n = Some res" for res
    using that
  proof (rule awaitScopeSync.raw_induct [where P = "\<lambda>w ref n res. snd res \<longrightarrow> n \<le> fst res \<and> wSynced (w (fst res)) (srSink ref) (srScope ref)", rotated])
    fix rec w ref n res
    assume IH: "\<And>w ref n res. rec w ref n = Some res \<Longrightarrow> snd res \<longrightarrow> n \<le> fst res \<and> wSynced (w (fst res)) (srSink ref) (srScope ref)"
      and body: "(if wSynced (w n) (srSink ref) (srScope ref) then Some (n, True)
        else if \<not> wDesired (w n) (srSink ref) (srScope ref) then Some (n, False)
        else if wCancelled (w n) then Some (n, False) else rec w ref (Suc n)) = Some res"
    show "snd res \<longrightarrow> n \<le> fst res \<and> wSynced (w (fst res)) (srSink ref) (srScope ref)"
      using body IH [of w ref "Suc n" res] by (auto split: if_splits)
  qed
  from this [OF assms] show ?thesis by simp
qed

lemma awaitScopeSync_returns:
  assumes "\<And>k. k \<ge> N \<Longrightarrow> wCancelled (w k)"
  shows "awaitScopeSync w ref n \<noteq> None"
proof (induction "N - n" arbitrary: n)
  case 0
  then show ?case using assms [of n] by (subst awaitScopeSync.simps) auto
next
  case (Suc d)
  then show ?case by (subst awaitScopeSync.simps) auto
qed

lemma seedAttempt_idle: "seedAttempt w ref p = (Again e, p') \<Longrightarrow> p' = p" "seedAttempt w ref p = (Permanent e, p') \<Longrightarrow> p' = p"
  by (auto simp: seedAttempt_def Let_def split: sum.splits if_splits prod.splits)

lemma seedAttempt_reads:
  assumes "seedAttempt w ref p = (Finished (seeded, priors), p')"
  obtains reader states where "readerFor w (srSink ref) = Inr reader"
    "LastKnownStates reader (ref_filter ref (eClusterID (wPipe w))) = Inr states"
    "seeded = seedTargets states" "priors = seedPriors states" "pJobs p' = pJobs p"
  using assms by (auto simp: seedAttempt_def registry_get_def Let_def pipe_simps split: sum.splits if_splits option.splits)

lemma wasActiveAttempt_idle: "snd (wasActiveAttempt w ref t p) = p"
  by (auto simp: wasActiveAttempt_def split: sum.splits)

lemma MarkScopeWarm_jobs: "pJobs (MarkScopeWarm s scope p) = pJobs p"
  by (auto simp: MarkScopeWarm_def registry_get_def Let_def pipe_simps split: option.splits)

lemma seed_run:
  assumes "retry c (\<lambda>n. seedAttempt (w n) ref) 0 p = Some (n, r, q)"
  shows "ended r (seedAttempt (w n) ref p) q"
  using retry_finished [OF assms, of "\<lambda>t. t = p"] seedAttempt_idle(1) by blast

lemma active_run:
  assumes "retry c (\<lambda>n. wasActiveAttempt (w n) ref t) n p = Some (m, r, q)"
  shows "n \<le> m \<and> q = p \<and> ended r (wasActiveAttempt (w m) ref t p) q"
proof -
  have "n \<le> m \<and> (\<exists>s. s = p \<and> ended r (wasActiveAttempt (w m) ref t s) q)"
    using retry_finished [OF assms, of "\<lambda>s. s = p"] wasActiveAttempt_idle by (metis snd_conv)
  then show ?thesis using wasActiveAttempt_idle by (auto simp: ended_def)
qed

text \<open>C25. The gates of a warm.  A run changes nothing unless the sink's history was read.  And it hands a
  row to the writer only when the scope is not of an ephemeral kind, history was read, the scope
  had synced if there is anything to sweep, and the scope log answered that the scope was being
  watched before this epoch began -- in that order.\<close>

theorem warm_gates:
  assumes "warm w giveUp ref epochStart p = Some p'"
  shows "(p' \<noteq> p \<longrightarrow> (\<exists>n reader states. readerFor (w n) (srSink ref) = Inr reader \<and>
        LastKnownStates reader (ref_filter ref (eClusterID (wPipe (w n)))) = Inr states)) \<and>
    (pJobs p' \<noteq> pJobs p \<longrightarrow> \<not> scope_ephemeral (srScope ref) \<and>
      (\<exists>n k m reader reader' states. n \<le> k \<and> k \<le> m \<and>
         readerFor (w n) (srSink ref) = Inr reader \<and>
         LastKnownStates reader (ref_filter ref (eClusterID (wPipe (w n)))) = Inr states \<and>
         (seedTargets states \<noteq> [] \<longrightarrow> wSynced (w k) (srSink ref) (srScope ref)) \<and>
         readerFor (w m) (srSink ref) = Inr reader' \<and>
         ScopeWasActive reader' (ref_filter ref (eClusterID (wPipe (w m)))) epochStart = Inr True))"
proof -
  obtain n r q where seed: "retry (\<lambda>n. wCancelled (w n)) (\<lambda>n. seedAttempt (w n) ref) 0 p = Some (n, r, q)"
    using assms by (auto simp: warm_def bind_eq_Some_conv)
  note run = seed_run [OF seed]
  show ?thesis
  proof (cases r)
    case (Inl e)
    obtain a where at: "seedAttempt (w n) ref p = (a, q)" "\<forall>x. a \<noteq> Finished x"
      using run Inl by (cases "seedAttempt (w n) ref p") (auto simp: ended_def)
    then have "q = p" using seedAttempt_idle by (cases a) auto
    then show ?thesis using assms seed Inl by (simp add: warm_def)
  next
    case (Inr sp)
    obtain seeded priors where sp: "sp = (seeded, priors)" by fastforce
    then have "seedAttempt (w n) ref p = (Finished (seeded, priors), q)" using run Inr by (simp add: ended_def prod_eq_iff)
    then obtain reader states where read: "readerFor (w n) (srSink ref) = Inr reader"
      "LastKnownStates reader (ref_filter ref (eClusterID (wPipe (w n)))) = Inr states"
      "seeded = seedTargets states" "pJobs q = pJobs p" by (rule seedAttempt_reads)
    define m where "m = MarkScopeWarm (srSink ref) (srScope ref) q"
    have jobs: "pJobs m = pJobs p" by (simp add: m_def MarkScopeWarm_jobs read(4))
    have "\<not> scope_ephemeral (srScope ref) \<and> (\<exists>k l reader'. n \<le> k \<and> k \<le> l \<and>
        (seedTargets states \<noteq> [] \<longrightarrow> wSynced (w k) (srSink ref) (srScope ref)) \<and> readerFor (w l) (srSink ref) = Inr reader' \<and>
        ScopeWasActive reader' (ref_filter ref (eClusterID (wPipe (w l)))) epochStart = Inr True)" if moved: "pJobs p' \<noteq> pJobs p"
    proof -
      have gates: "\<not> scope_ephemeral (srScope ref)" "\<not> (seeded = [] \<and> priors = [])"
        using assms seed Inr sp moved jobs by (auto simp: warm_def m_def [symmetric] split: if_splits)
      have eq: "warmGated w giveUp ref epochStart seeded priors n m = Some p'"
        using assms gates by (auto simp: warm_def seed Inr sp m_def Let_def)
      obtain k synced where sync: "(if seeded \<noteq> [] then awaitScopeSync w ref n else Some (n, True)) = Some (k, synced)"
        and rest: "(if \<not> synced then Some m
           else Option.bind (retry (\<lambda>n. wCancelled (w n)) (\<lambda>n. wasActiveAttempt (w n) ref epochStart) k m)
                  (\<lambda>(n, active, p). if active = Inr True then reconcileHistory w giveUp ref seeded priors n p else Some p)) = Some p'"
        using eq unfolding warmGated_def by (auto simp only: bind_eq_Some_conv prod.case split: prod.splits)
      have k: "synced" "n \<le> k" "seedTargets states \<noteq> [] \<longrightarrow> wSynced (w k) (srSink ref) (srScope ref)"
        using sync rest moved jobs awaitScopeSync_true [of w ref n k] read(3) by (auto split: if_splits)
      obtain l active x where act: "retry (\<lambda>n. wCancelled (w n)) (\<lambda>n. wasActiveAttempt (w n) ref epochStart) k m = Some (l, active, x)"
        and fin: "(if active = Inr True then reconcileHistory w giveUp ref seeded priors l x else Some x) = Some p'"
        using rest k(1) by (auto simp: bind_eq_Some_conv)
      note ar = active_run [OF act]
      then have "active = Inr True" using fin moved jobs by (auto split: if_splits)
      then have "fst (wasActiveAttempt (w l) ref epochStart m) = Finished True" using ar by (simp add: ended_def)
      then obtain reader' where "readerFor (w l) (srSink ref) = Inr reader'"
        "ScopeWasActive reader' (ref_filter ref (eClusterID (wPipe (w l)))) epochStart = Inr True"
        by (auto simp: wasActiveAttempt_def split: sum.splits if_splits)
      then show ?thesis using gates(1) k ar by blast
    qed
    then show ?thesis using read(1,2) by blast
  qed
qed

theorem warm_gates_witness:
  "let w = (\<lambda>n. sampleWEnv (\<lambda>k. Inr (None, True)) sampleReader)
   in \<exists>p'. warm w (\<lambda>n. True) sampleRef 9 Pipeline_New = Some p' \<and> pJobs p' \<noteq> [] \<and>
        (\<exists>m reader. readerFor (w m) ''s'' = Inr reader \<and> ScopeWasActive reader (ref_filter sampleRef ''c'') 9 = Inr True)"
proof -
  define w where "w = (\<lambda>n::nat. sampleWEnv (\<lambda>k. Inr (None, True)) sampleReader)"
  have "map_option (length \<circ> pJobs) (warm w (\<lambda>n. True) sampleRef 9 Pipeline_New) = Some 1 \<and> pJobs Pipeline_New = []"
    unfolding w_def by code_simp
  then obtain p' where p': "warm w (\<lambda>n. True) sampleRef 9 Pipeline_New = Some p'" "pJobs p' \<noteq> pJobs Pipeline_New" "pJobs Pipeline_New = []"
    by (auto simp: length_Suc_conv)
  from warm_gates [OF p'(1)] p'(2) have "\<exists>m reader. readerFor (w m) (srSink sampleRef) = Inr reader \<and>
      ScopeWasActive reader (ref_filter sampleRef (eClusterID (wPipe (w m)))) 9 = Inr True" by blast
  then have "\<exists>m reader. readerFor (w m) ''s'' = Inr reader \<and> ScopeWasActive reader (ref_filter sampleRef ''c'') 9 = Inr True"
    by (simp add: sampleRef_def w_def sampleWEnv_def sampleEnv_def)
  then show ?thesis unfolding Let_def w_def [symmetric] using p' by auto
qed

section \<open>A cancelled warm returns\<close>

lemma emitCloseOuts_returns:
  assumes "\<And>k. k \<ge> N \<Longrightarrow> wCancelled (w k)"
  shows "emitCloseOuts w ref priors n p \<noteq> None" and "emitCloseOuts w ref priors n p = Some (m, k, p') \<Longrightarrow> n \<le> m"
proof -
  have r: "retry (\<lambda>n. wCancelled (w n)) (\<lambda>n. closeOutAttempt (w n) ref priors) n p \<noteq> None"
    by (rule retry_returns) (rule assms)
  then show "emitCloseOuts w ref priors n p \<noteq> None" by (auto simp: emitCloseOuts_def)
  show "emitCloseOuts w ref priors n p = Some (m, k, p') \<Longrightarrow> n \<le> m"
    using retry_finished [of "\<lambda>n. wCancelled (w n)" "\<lambda>n. closeOutAttempt (w n) ref priors" n p m _ p' "\<lambda>_. True"]
    by (auto simp: emitCloseOuts_def split: if_splits)
qed

lemma recoverLoop_returns:
  assumes "\<And>k. k \<ge> N \<Longrightarrow> wCancelled (w k)"
  shows "recoverLoop w giveUp ref n pending recovered p \<noteq> None"
proof (induction "N - n" arbitrary: n pending recovered p rule: less_induct)
  case less
  have rec: "recoverLoop w giveUp ref (Suc m) pending' recovered' p' \<noteq> None" if "n \<le> m" "\<not> wCancelled (w m)" for m pending' recovered' p'
    by (rule less) (use that assms [of m] in linarith)
  show ?case
  proof (subst recoverLoop.simps, cases "readerFor (w n) (srSink ref)", goal_cases)
    case (1 e)
    then show ?case using rec [of n] by auto
  next
    case (2 reader)
    then show ?case
    proof (cases "LastKnownStates reader (ref_filter ref (eClusterID (wPipe (w n))))")
      case (Inl err)
      then show ?thesis using 2 rec [of n] by auto
    next
      case (Inr states)
      obtain m k p' where em: "emitCloseOuts w ref (superseded states pending) n p = Some (m, k, p')"
        using emitCloseOuts_returns(1) [of N w ref "superseded states pending" n p, OF assms] by (metis option.exhaust prod_cases3)
      have "n \<le> m" by (rule emitCloseOuts_returns(2) [of N w, OF assms em])
      then show ?thesis using 2 Inr em rec [of m] by auto
    qed
  qed
qed

lemma bind_returns: "m \<noteq> None \<Longrightarrow> (\<And>x. f x \<noteq> None) \<Longrightarrow> Option.bind m f \<noteq> None"
  by (cases m) auto

text \<open>C28. No warm outlives its cancellation: whatever the reader, the watch and the writer answer, a run
  whose context is cancelled from some moment on returns.\<close>

theorem cancelled_warm_returns:
  assumes "\<And>k. k \<ge> N \<Longrightarrow> wCancelled (w k)"
  shows "\<exists>p'. warm w giveUp ref epochStart p = Some p'"
proof -
  note ret = retry_returns [of N "\<lambda>n. wCancelled (w n)", OF assms]
  have gc: "collectZombies w ref seeded n q \<noteq> None" for seeded n q
    using ret [of "\<lambda>n. collectAttempt (w n) ref seeded"] by (simp add: collectZombies_def)
  have rec: "recoverRefusedReincarnations w giveUp ref ts n q \<noteq> None" for ts n q
    using recoverLoop_returns [of N w, OF assms] by (simp add: recoverRefusedReincarnations_def)
  have hist: "reconcileHistory w giveUp ref seeded priors n q \<noteq> None" for seeded priors n q
  proof -
    obtain m k x where em: "emitCloseOuts w ref priors n q = Some (m, k, x)"
      using emitCloseOuts_returns(1) [of N w ref priors n q, OF assms] by (metis option.exhaust prod_cases3)
    obtain l result y where "collectZombies w ref seeded m x = Some (l, result, y)" using gc by (metis option.exhaust prod_cases3)
    then show ?thesis using em rec [of "gcReincarnated result" l y] by (auto simp: reconcileHistory_def)
  qed
  have act: "Option.bind (retry (\<lambda>n. wCancelled (w n)) (\<lambda>n. wasActiveAttempt (w n) ref epochStart) n q)
     (\<lambda>(n, active, p). if active = Inr True then reconcileHistory w giveUp ref seeded priors n p else Some p) \<noteq> None"
    for n q seeded priors
  proof (rule bind_returns [OF ret])
    fix x :: "nat \<times> (warmError + bool) \<times> Pipeline"
    show "(case x of (n, active, p) \<Rightarrow> if active = Inr True then reconcileHistory w giveUp ref seeded priors n p else Some p) \<noteq> None"
      using hist by (cases x) (simp del: not_None_eq)
  qed
  have gate: "warmGated w giveUp ref epochStart seeded priors n q \<noteq> None"
    for n q and seeded :: "gcTarget list" and priors
    unfolding warmGated_def
  proof (rule bind_returns)
    show "(if seeded \<noteq> [] then awaitScopeSync w ref n else Some (n, True)) \<noteq> None"
      using awaitScopeSync_returns [of N w, OF assms] by (auto simp del: not_None_eq)
  qed (use act in \<open>auto simp del: not_None_eq bind_eq_None_conv split: prod.splits\<close>)
  have "warm w giveUp ref epochStart p \<noteq> None"
    unfolding warm_def Let_def
    by (rule bind_returns [OF ret]) (use gate in \<open>auto split: sum.splits prod.splits\<close>)
  then show ?thesis by simp
qed

theorem cancelled_warm_returns_witness:
  "\<exists>p'. warm (\<lambda>n. (sampleWEnv (\<lambda>k. Inl ''down'') sampleReader)\<lparr>wReader := (\<lambda>s. None), wCancelled := 3 \<le> n\<rparr>)
     (\<lambda>n. False) sampleRef 9 Pipeline_New = Some p'"
  by (rule cancelled_warm_returns [of 3]) simp

section \<open>One live run per scope\<close>

datatype coordStep =
    CWarm WarmTarget
  | CStop string ScopeKey
  | CForget string
  | CMark string
  | CStart
  | CShutdown

fun coord_exec :: "coordStep \<Rightarrow> WarmCoordinator \<Rightarrow> WarmCoordinator" where
  "coord_exec (CWarm t) c = WarmScope t c"
| "coord_exec (CStop s scope) c = StopScope s scope c"
| "coord_exec (CForget s) c = ForgetSink s c"
| "coord_exec (CMark s) c = markBootReconciled s c"
| "coord_exec CStart c = StartCoordinator c"
| "coord_exec CShutdown c = StopCoordinator c"

inductive coord_reach :: "WarmCoordinator \<Rightarrow> bool" where
  coord_new: "coord_reach NewWarmCoordinator"
| coord_step: "coord_reach c \<Longrightarrow> coord_reach (coord_exec step c)"

text \<open>The run a trace leaves alive for a scope; None when the trace launches a second run beside a live
  one, or cancels a run that is not the live one.\<close>

fun traceStep :: "scopeRef \<Rightarrow> runEvent \<Rightarrow> int option \<Rightarrow> int option option" where
  "traceStep ref (Launched r e) live = (if r \<noteq> ref then Some live else if live = None then Some (Some e) else None)"
| "traceStep ref (CancelledRun r e) live = (if r \<noteq> ref then Some live else if live = Some e then Some None else None)"

definition liveRun :: "scopeRef \<Rightarrow> runEvent list \<Rightarrow> int option option" where
  "liveRun ref evs = foldl (\<lambda>acc ev. Option.bind acc (traceStep ref ev)) (Some None) evs"

lemma liveRun_append: "liveRun ref (evs @ evs') = foldl (\<lambda>acc ev. Option.bind acc (traceStep ref ev)) (liveRun ref evs) evs'"
  by (simp add: liveRun_def)

lemma liveRun_snoc [simp]: "liveRun ref (evs @ [ev]) = Option.bind (liveRun ref evs) (traceStep ref ev)"
  by (simp add: liveRun_append)

definition runs_traced :: "WarmCoordinator \<Rightarrow> bool" where
  "runs_traced c \<longleftrightarrow> mwf (wcRuns c) \<and> (\<forall>ref. liveRun ref (wcTrace c) = Some (mget (wcRuns c) ref))"

lemma cancel_trace:
  assumes "mwf runs"
  shows "foldl (\<lambda>acc ev. Option.bind acc (traceStep ref ev)) (Some (mget runs ref))
      (map (\<lambda>(ref, epoch). CancelledRun ref epoch) (filter (\<lambda>(ref, _). sel ref) runs))
    = Some (if sel ref then None else mget runs ref)"
  using assms
proof (induction runs)
  case (Cons kv runs)
  obtain k e where kv: "kv = (k, e)" by fastforce
  have idle: "foldl (\<lambda>acc ev. Option.bind acc (traceStep k ev)) (Some x)
      (map (\<lambda>(ref, epoch). CancelledRun ref epoch) (filter (\<lambda>(ref, _). sel ref) rs)) = Some x"
    if "k \<notin> fst ` set rs" for x and rs :: "(scopeRef, int) gomap"
    using that by (induction rs) (auto split: prod.splits)
  show ?case
  proof (cases "k = ref")
    case True
    then show ?thesis using Cons.prems idle [of runs] by (auto simp: kv)
  next
    case False
    then show ?thesis using Cons by (auto simp: kv)
  qed
qed simp

lemma cancelRuns_traced: "runs_traced c \<Longrightarrow> runs_traced (cancelRuns sel c)"
  by (auto simp: runs_traced_def cancelRuns_def liveRun_append cancel_trace mget_mdel_if)

lemma startLocked_traced: "runs_traced c \<Longrightarrow> runs_traced (startLocked t c)"
  by (auto simp: runs_traced_def startLocked_def Let_def liveRun_append split: option.splits)

lemma runs_traced_cong: "wcRuns c' = wcRuns c \<Longrightarrow> wcTrace c' = wcTrace c \<Longrightarrow> runs_traced c \<Longrightarrow> runs_traced c'"
  by (simp add: runs_traced_def)

lemma coord_reach_traced: "coord_reach c \<Longrightarrow> runs_traced c"
proof (induction rule: coord_reach.induct)
  case coord_new
  then show ?case by (simp add: runs_traced_def NewWarmCoordinator_def liveRun_def)
next
  case (coord_step c step)
  have starts: "runs_traced d \<Longrightarrow> runs_traced (fold startLocked ts d)" for ts d
    by (induction ts arbitrary: d) (simp_all add: startLocked_traced)
  show ?case
  proof (cases step)
    case (CWarm t)
    then show ?thesis using coord_step startLocked_traced by (auto simp: WarmScope_def intro: runs_traced_cong)
  next
    case (CStop s scope)
    then show ?thesis using cancelRuns_traced [OF coord_step.IH] by (auto simp: StopScope_def Let_def intro: runs_traced_cong)
  next
    case (CForget s)
    have "runs_traced (c\<lparr>wcBootDone := removeAll s (wcBootDone c)\<rparr>)" by (rule runs_traced_cong [OF _ _ coord_step.IH]) simp_all
    then show ?thesis using CForget cancelRuns_traced by (auto simp: ForgetSink_def Let_def intro: runs_traced_cong)
  next
    case (CMark s)
    then show ?thesis using coord_step by (auto simp: markBootReconciled_def intro: runs_traced_cong)
  next
    case CStart
    have "runs_traced (c\<lparr>wcStarted := True, wcPending := []\<rparr>)" by (rule runs_traced_cong [OF _ _ coord_step.IH]) simp_all
    then show ?thesis using CStart starts by (simp add: StartCoordinator_def)
  next
    case CShutdown
    have "runs_traced (c\<lparr>wcStopped := True\<rparr>)" by (rule runs_traced_cong [OF _ _ coord_step.IH]) simp_all
    then show ?thesis using CShutdown cancelRuns_traced by (simp add: StopCoordinator_def)
  qed
qed



section \<open>Boot reconciliation closes what nothing wants\<close>

definition stoppedFor :: "WEnv \<Rightarrow> string \<Rightarrow> ScopeFilter list \<Rightarrow> ScopeFilter list" where
  "stoppedFor w sinkName scopes =
     filter (\<lambda>flt. \<not> wDesired w sinkName \<lparr>sGroup = sfAPIGroup flt, sKind = sfKind flt, sNamespace = sfNamespace flt\<rparr>) scopes"

lemma closeScopes_spec:
  assumes "closeScopes w s enq scopes sent = (err, evs)"
  shows "\<exists>new. evs = sent @ new \<and> (\<forall>ev \<in> set new. seAction ev = ScopeActionStopped \<and> seRuleRef ev = '''' \<and> enq ev = None) \<and>
    prefix (map seScope new) (stoppedFor w s scopes) \<and> (err = None \<longrightarrow> map seScope new = stoppedFor w s scopes)"
  using assms
proof (induction scopes arbitrary: sent)
  case (Cons flt scopes)
  define scope where "scope = \<lparr>sGroup = sfAPIGroup flt, sKind = sfKind flt, sNamespace = sfNamespace flt\<rparr>"
  define ev where "ev = \<lparr>seAction = ScopeActionStopped, seScope = flt, seAPIVersion = '''', seRuleRef = '''', seTS = wNow w (length sent)\<rparr>"
  show ?case
  proof (cases "wDesired w s scope")
    case True
    then have "closeScopes w s enq scopes sent = (err, evs)" using Cons.prems by (simp add: scope_def)
    from Cons.IH [OF this] show ?thesis using True by (simp add: stoppedFor_def scope_def)
  next
    case False
    show ?thesis
    proof (cases "enq ev")
      case None
      then have "closeScopes w s enq scopes (sent @ [ev]) = (err, evs)" using Cons.prems False by (simp add: scope_def ev_def)
      from Cons.IH [OF this] obtain new where new: "evs = (sent @ [ev]) @ new"
        "\<forall>ev \<in> set new. seAction ev = ScopeActionStopped \<and> seRuleRef ev = '''' \<and> enq ev = None"
        "prefix (map seScope new) (stoppedFor w s scopes)" "err = None \<longrightarrow> map seScope new = stoppedFor w s scopes" by blast
      have "seAction ev = ScopeActionStopped" "seRuleRef ev = ''''" "seScope ev = flt" by (simp_all add: ev_def)
      then show ?thesis using new False None
        by (intro exI [of _ "ev # new"]) (auto simp: stoppedFor_def scope_def)
    next
      case (Some x)
      then show ?thesis using Cons.prems False by (intro exI [of _ "[]"]) (auto simp: scope_def ev_def Let_def)
    qed
  qed
qed (simp add: stoppedFor_def)

text \<open>C30. At boot a sink is marked reconciled exactly when its log needs no more closing: on success the
  rows written are one Stopped row, with no rule named, for every scope the log shows open and
  nothing wants any more, in the log's order; a failure writes a prefix of them.  A sink's failure
  leaves it unmarked and does not keep the sinks after it from being reconciled.\<close>

theorem boot_closes_orphans:
  assumes "closeOrphanedScopes w s = (err, evs)" "readerFor w s = Inr reader" "ActiveScopes reader (eClusterID (wPipe w)) = Inr scopes"
  shows "(\<forall>ev \<in> set evs. seAction ev = ScopeActionStopped \<and> seRuleRef ev = '''') \<and>
    prefix (map seScope evs) (filter (\<lambda>flt. \<not> wDesired w s \<lparr>sGroup = sfAPIGroup flt, sKind = sfKind flt, sNamespace = sfNamespace flt\<rparr>) scopes) \<and>
    (err = None \<longrightarrow> map seScope evs =
       filter (\<lambda>flt. \<not> wDesired w s \<lparr>sGroup = sfAPIGroup flt, sKind = sfKind flt, sNamespace = sfNamespace flt\<rparr>) scopes) \<and>
    (\<forall>names c sent. \<not> bootReconciled s c \<longrightarrow> \<not> wCancelled w \<longrightarrow>
       reconcileScopeEpochs w (s # names) c sent =
         reconcileScopeEpochs w names (if err = None then markBootReconciled s c else c) (sent @ map (Pair s) evs))"
proof -
  have sel: "(\<forall>ev \<in> set evs. seAction ev = ScopeActionStopped \<and> seRuleRef ev = '''') \<and>
      prefix (map seScope evs) (stoppedFor w s scopes) \<and> (err = None \<longrightarrow> map seScope evs = stoppedFor w s scopes)"
  proof (cases "wScopeWriter w s")
    case None
    then show ?thesis using assms by (auto simp: closeOrphanedScopes_def)
  next
    case (Some enq)
    then have "closeScopes w s enq scopes [] = (err, evs)" using assms by (simp add: closeOrphanedScopes_def)
    from closeScopes_spec [OF this] show ?thesis by auto
  qed
  have "reconcileScopeEpochs w (s # names) c sent =
      reconcileScopeEpochs w names (if err = None then markBootReconciled s c else c) (sent @ map (Pair s) evs)"
    if "\<not> bootReconciled s c" "\<not> wCancelled w" for names c sent
    using that assms(1) by (cases err) simp_all
  then show ?thesis using sel unfolding stoppedFor_def by blast
qed

theorem boot_closes_orphans_witness:
  "let flt = (\<lambda>ns. \<lparr>sfClusterID = ''c'', sfAPIGroup = '''', sfKind = ''Pod'', sfNamespace = ns\<rparr>);
       w = (sampleWEnv (\<lambda>k. Inr (None, True)) (sampleReader\<lparr>ActiveScopes := (\<lambda>c. Inr [flt ''a'', flt ''b'', flt ''c''])\<rparr>))
             \<lparr>wDesired := (\<lambda>s sc. sNamespace sc = ''b'')\<rparr>
   in map seScope (snd (closeOrphanedScopes w ''s'')) = [flt ''a'', flt ''c'']"
proof -
  define flt where "flt = (\<lambda>ns. \<lparr>sfClusterID = ''c'', sfAPIGroup = '''', sfKind = ''Pod'', sfNamespace = ns\<rparr>)"
  define reader where "reader = sampleReader\<lparr>ActiveScopes := (\<lambda>c. Inr [flt ''a'', flt ''b'', flt ''c''])\<rparr>"
  define w where "w = (sampleWEnv (\<lambda>k. Inr (None, True)) reader)\<lparr>wDesired := (\<lambda>s sc. sNamespace sc = ''b'')\<rparr>"
  have r: "readerFor w ''s'' = Inr reader" "ActiveScopes reader (eClusterID (wPipe w)) = Inr [flt ''a'', flt ''b'', flt ''c'']"
    by (simp_all add: readerFor_def w_def sampleWEnv_def reader_def)
  have "fst (closeOrphanedScopes w ''s'') = None" unfolding w_def reader_def flt_def by code_simp
  then obtain evs where c: "closeOrphanedScopes w ''s'' = (None, evs)" by (metis prod.collapse)
  from boot_closes_orphans [OF c r] have "map seScope evs = [flt ''a'', flt ''c'']"
    by (simp add: w_def flt_def)
  then show ?thesis unfolding Let_def flt_def [symmetric] reader_def [symmetric] w_def [symmetric] c by simp
qed

end
