(* ===== verification/Resolver.thy ===== *)
theory Resolver
imports Plan
begin

text \<open>
  Resolution of kinds to resources with a retry gate per kind (\<open>internal/watch/resolver.go\<close>).  The
  REST mapper and its test for "no such kind" are parameters.  Instants and durations are integers
  (nanoseconds); a call reads the clock once at the gate and once more when it parks a failure.
\<close>

section \<open>Data\<close>

record GVR =
  vGroup :: string
  vVersion :: string
  vResource :: string

datatype RuleScope = NamespacedRule | ClusterRule

datatype 'e resolveError =
    ErrKindNotFound GVK 'e
  | ResolveFailed GVK 'e
  | ErrClusterScopedKind GVK GVR

record 'e parkedKind =
  pkErr :: "'e resolveError"
  pkDelay :: int
  pkRetryAt :: int

record 'e Resolver =
  rsParked :: "(GVK, 'e parkedKind) gomap"
  rsBaseDelay :: int
  rsMaxDelay :: int

type_synonym 'e mapper = "GVK \<Rightarrow> 'e + (GVR \<times> bool)"

definition baseRetryDelay :: int where
  "baseRetryDelay = 1000000000"

definition maxRetryDelay :: int where
  "maxRetryDelay = 30 * 1000000000"

definition NewResolver :: "'e Resolver" where
  "NewResolver = \<lparr>rsParked = [], rsBaseDelay = baseRetryDelay, rsMaxDelay = maxRetryDelay\<rparr>"

section \<open>Operations\<close>

definition classify :: "('e \<Rightarrow> bool) \<Rightarrow> GVK \<Rightarrow> 'e \<Rightarrow> 'e resolveError" where
  "classify isNoMatch gvk err = (if isNoMatch err then ErrKindNotFound gvk err else ResolveFailed gvk err)"

definition gatedError :: "GVK \<Rightarrow> int \<Rightarrow> 'e Resolver \<Rightarrow> 'e resolveError option" where
  "gatedError gvk now r =
     (case mget (rsParked r) gvk of
        None \<Rightarrow> None
      | Some parked \<Rightarrow> if \<not> now < pkRetryAt parked then None else Some (pkErr parked))"

definition park :: "GVK \<Rightarrow> 'e resolveError \<Rightarrow> int \<Rightarrow> 'e Resolver \<Rightarrow> 'e Resolver" where
  "park gvk err now r =
     (let delay = (case mget (rsParked r) gvk of
                     None \<Rightarrow> rsBaseDelay r
                   | Some parked \<Rightarrow> min (pkDelay parked * 2) (rsMaxDelay r))
      in r\<lparr>rsParked := mput gvk \<lparr>pkErr = err, pkDelay = delay, pkRetryAt = now + delay\<rparr> (rsParked r)\<rparr>)"

definition unpark :: "GVK \<Rightarrow> 'e Resolver \<Rightarrow> 'e Resolver" where
  "unpark gvk r = r\<lparr>rsParked := mdel gvk (rsParked r)\<rparr>"

definition Resolve ::
    "('e \<Rightarrow> bool) \<Rightarrow> 'e mapper \<Rightarrow> int \<Rightarrow> int \<Rightarrow> GVK \<Rightarrow> 'e Resolver \<Rightarrow> ('e resolveError + (GVR \<times> bool)) \<times> 'e Resolver" where
  "Resolve isNoMatch mapper now later gvk r =
     (case gatedError gvk now r of
        Some err \<Rightarrow> (Inl err, r)
      | None \<Rightarrow>
          (case mapper gvk of
             Inl err \<Rightarrow> (let verdict = classify isNoMatch gvk err in (Inl verdict, park gvk verdict later r))
           | Inr (gvr, namespaced) \<Rightarrow> (Inr (gvr, namespaced), unpark gvk r)))"

definition checkScope :: "GVK \<Rightarrow> GVR \<Rightarrow> bool \<Rightarrow> RuleScope \<Rightarrow> 'e resolveError option" where
  "checkScope gvk gvr namespaced rule =
     (if rule = NamespacedRule \<and> \<not> namespaced then Some (ErrClusterScopedKind gvk gvr) else None)"

definition ResolveForScope ::
    "('e \<Rightarrow> bool) \<Rightarrow> 'e mapper \<Rightarrow> int \<Rightarrow> int \<Rightarrow> GVK \<Rightarrow> RuleScope \<Rightarrow> 'e Resolver \<Rightarrow> ('e resolveError + (GVR \<times> bool)) \<times> 'e Resolver" where
  "ResolveForScope isNoMatch mapper now later gvk rule r =
     (case Resolve isNoMatch mapper now later gvk r of
        (Inl err, r) \<Rightarrow> (Inl err, r)
      | (Inr (gvr, namespaced), r) \<Rightarrow>
          (case checkScope gvk gvr namespaced rule of
             Some err \<Rightarrow> (Inl err, r)
           | None \<Rightarrow> (Inr (gvr, namespaced), r)))"

section \<open>Sequences of calls\<close>

text \<open>A call names a kind, the two clock readings and the mapper of that moment.  \<open>attempts\<close> lists the
  calls for a kind that reach the mapper.\<close>

record 'e resolveCall =
  rcGVK :: GVK
  rcNow :: int
  rcLater :: int
  rcMapper :: "'e mapper"

definition resolve_exec :: "('e \<Rightarrow> bool) \<Rightarrow> 'e resolveCall \<Rightarrow> 'e Resolver \<Rightarrow> 'e Resolver" where
  "resolve_exec isNoMatch c r = snd (Resolve isNoMatch (rcMapper c) (rcNow c) (rcLater c) (rcGVK c) r)"

fun attempts :: "('e \<Rightarrow> bool) \<Rightarrow> GVK \<Rightarrow> 'e resolveCall list \<Rightarrow> 'e Resolver \<Rightarrow> 'e resolveCall list" where
  "attempts isNoMatch gvk [] r = []"
| "attempts isNoMatch gvk (c # cs) r =
     (if rcGVK c = gvk \<and> gatedError gvk (rcNow c) r = None then [c] else []) @
     attempts isNoMatch gvk cs (resolve_exec isNoMatch c r)"

lemma resolve_exec_cfg [simp]:
  "rsBaseDelay (resolve_exec f c r) = rsBaseDelay r" "rsMaxDelay (resolve_exec f c r) = rsMaxDelay r"
  by (auto simp: resolve_exec_def Resolve_def park_def unpark_def Let_def split: option.splits sum.splits)

lemma resolve_exec_other: "rcGVK c \<noteq> gvk \<Longrightarrow> mget (rsParked (resolve_exec f c r)) gvk = mget (rsParked r) gvk"
  by (auto simp: resolve_exec_def Resolve_def park_def unpark_def Let_def split: option.splits sum.splits)

lemma resolve_exec_gated: "gatedError (rcGVK c) (rcNow c) r \<noteq> None \<Longrightarrow> resolve_exec f c r = r"
  by (auto simp: resolve_exec_def Resolve_def)

lemma resolve_exec_failed:
  assumes "gatedError (rcGVK c) (rcNow c) r = None" "rcMapper c (rcGVK c) = Inl e"
  shows "resolve_exec f c r = park (rcGVK c) (classify f (rcGVK c) e) (rcLater c) r"
  using assms by (simp add: resolve_exec_def Resolve_def Let_def)

text \<open>The delays of a kind that keeps failing, from the delay it is parked with.\<close>

definition nextDelay :: "int \<Rightarrow> int \<Rightarrow> int" where
  "nextDelay limit d = min (d * 2) limit"

lemma nextDelay_iter: "0 < d \<Longrightarrow> d \<le> limit \<Longrightarrow> (nextDelay limit ^^ n) d = min (d * 2 ^ n) limit"
proof (induction n arbitrary: d)
  case (Suc n)
  have "0 < nextDelay limit d" "nextDelay limit d \<le> limit" using Suc.prems by (auto simp: nextDelay_def)
  from Suc.IH [OF this] have "(nextDelay limit ^^ Suc n) d = min (min (d * 2) limit * 2 ^ n) limit"
    by (simp add: funpow_swap1) (simp add: nextDelay_def [of limit d])
  also have "\<dots> = min (d * 2 ^ Suc n) limit"
  proof (cases "d * 2 \<le> limit")
    case False
    have "limit \<le> limit * 2 ^ n" using Suc.prems by (simp add: mult_le_cancel_left1)
    moreover have "limit * 2 ^ n \<le> d * 2 * 2 ^ n" using False by (intro mult_right_mono) auto
    ultimately have "limit \<le> d * 2 * 2 ^ n" by (rule order_trans)
    then have "limit \<le> d * 2 ^ Suc n" by (simp add: mult.assoc)
    then show ?thesis using False \<open>limit \<le> limit * 2 ^ n\<close> by (simp only: min_absorb2 linorder_not_le less_imp_le)
  qed (simp add: mult.assoc)
  finally show ?case .
qed simp

text \<open>Successive attempts keep the distance the gate asks for.\<close>

fun spaced :: "int \<Rightarrow> int \<Rightarrow> int \<Rightarrow> 'e resolveCall list \<Rightarrow> bool" where
  "spaced limit d t [] = True"
| "spaced limit d t (c # cs) = (t \<le> rcNow c \<and> spaced limit (nextDelay limit d) (rcLater c + nextDelay limit d) cs)"

lemma parked_attempts_spaced:
  assumes "mget (rsParked r) gvk = Some parked" "\<forall>c \<in> set cs. rcGVK c = gvk \<longrightarrow> (\<exists>e. rcMapper c gvk = Inl e)"
  shows "spaced (rsMaxDelay r) (pkDelay parked) (pkRetryAt parked) (attempts f gvk cs r)"
  using assms
proof (induction cs arbitrary: r parked)
  case (Cons c cs)
  define r' where "r' = resolve_exec f c r"
  show ?case
  proof (cases "rcGVK c = gvk \<and> gatedError gvk (rcNow c) r = None")
    case True
    then obtain e where "rcMapper c (rcGVK c) = Inl e" using Cons.prems(2) by auto
    then have r': "r' = park gvk (classify f gvk e) (rcLater c) r"
      using True resolve_exec_failed [of c r e f] by (auto simp: r'_def)
    then have "mget (rsParked r') gvk = Some \<lparr>pkErr = classify f gvk e, pkDelay = nextDelay (rsMaxDelay r) (pkDelay parked),
        pkRetryAt = rcLater c + nextDelay (rsMaxDelay r) (pkDelay parked)\<rparr>"
      using Cons.prems(1) by (simp add: park_def nextDelay_def Let_def)
    from Cons.IH [OF this] have "spaced (rsMaxDelay r) (nextDelay (rsMaxDelay r) (pkDelay parked))
        (rcLater c + nextDelay (rsMaxDelay r) (pkDelay parked)) (attempts f gvk cs r')"
      using Cons.prems(2) by (simp add: r'_def)
    moreover have "pkRetryAt parked \<le> rcNow c" using True Cons.prems(1) by (auto simp: gatedError_def split: if_splits)
    ultimately show ?thesis using True by (simp add: r'_def)
  next
    case False
    then have "mget (rsParked r') gvk = Some parked"
      using Cons.prems(1) resolve_exec_gated [of c r f] by (cases "rcGVK c = gvk") (auto simp: r'_def resolve_exec_other)
    from Cons.IH [OF this] show ?thesis using False Cons.prems(2) by (auto simp: r'_def)
  qed
qed simp

lemma spaced_nth:
  "spaced limit d t cs \<Longrightarrow> Suc i < length cs \<Longrightarrow> rcLater (cs ! i) + (nextDelay limit ^^ Suc i) d \<le> rcNow (cs ! Suc i)"
proof (induction limit d t cs arbitrary: i rule: spaced.induct)
  case (2 limit d t c cs)
  then show ?case
  proof (cases i)
    case 0
    then show ?thesis using 2 by (cases cs) auto
  next
    case (Suc j)
    then show ?thesis using 2 by (auto simp: funpow_swap1)
  qed
qed simp

lemma fresh_attempts:
  assumes "mget (rsParked r) gvk = None" "\<forall>c \<in> set cs. rcGVK c = gvk \<longrightarrow> (\<exists>e. rcMapper c gvk = Inl e)"
  shows "case attempts f gvk cs r of [] \<Rightarrow> True
    | c # rest \<Rightarrow> spaced (rsMaxDelay r) (rsBaseDelay r) (rcLater c + rsBaseDelay r) rest"
  using assms
proof (induction cs arbitrary: r)
  case (Cons c cs)
  define r' where "r' = resolve_exec f c r"
  show ?case
  proof (cases "rcGVK c = gvk")
    case True
    then obtain e where e: "rcMapper c (rcGVK c) = Inl e" using Cons.prems(2) by auto
    have open_gate: "gatedError gvk (rcNow c) r = None" using Cons.prems(1) by (simp add: gatedError_def)
    then have "r' = park gvk (classify f gvk e) (rcLater c) r"
      using True e resolve_exec_failed [of c r e f] by (auto simp: r'_def)
    then have "mget (rsParked r') gvk = Some \<lparr>pkErr = classify f gvk e, pkDelay = rsBaseDelay r, pkRetryAt = rcLater c + rsBaseDelay r\<rparr>"
      using Cons.prems(1) by (simp add: park_def Let_def)
    from parked_attempts_spaced [OF this, of cs f] show ?thesis
      using True open_gate Cons.prems(2) by (simp add: r'_def)
  next
    case False
    then have "mget (rsParked r') gvk = None" using Cons.prems(1) by (simp add: r'_def resolve_exec_other)
    from Cons.IH [OF this] show ?thesis using False Cons.prems(2) by (auto simp: r'_def split: list.splits)
  qed
qed simp



text \<open>A namespaced rule never obtains a cluster-wide resource, and a call at a shut gate repeats the
  recorded verdict without reaching the mapper or moving the gate.\<close>

lemma ResolveForScope_confined:
  "fst (ResolveForScope f mapper now later gvk NamespacedRule r) = Inr (gvr, namespaced) \<Longrightarrow> namespaced"
  by (auto simp: ResolveForScope_def checkScope_def split: prod.splits sum.splits option.splits if_splits)

lemma ResolveForScope_gated:
  "gatedError gvk now r = Some err \<Longrightarrow> ResolveForScope f mapper now later gvk rule r = (Inl err, r)"
  by (simp add: ResolveForScope_def Resolve_def)

end
