(* ===== verification/Recorder.thy ===== *)
theory Recorder
imports Warm
begin

text \<open>
  The scope epoch recorder (\<open>internal/watch/scope_recorder.go\<close>): it turns the interest-level edges
  of the watch manager into one Started and one Stopped row per scope epoch, keeps them in a bounded
  queue that forgets the oldest rows first, and hands them over in order from its own goroutine.
  A hand-over and the removal from the queue are two steps, because the code releases its lock
  between them.  The fields after \<open>rdInFlight\<close> record what happened: every row queued, every row
  accepted, how many were dropped, and the calls on the warm coordinator.
\<close>

section \<open>Data\<close>

record ScopeTransition =
  stSink :: string
  stScope :: ScopeKey
  stTarget :: string
  stAPIVersion :: string
  stRuleKeys :: "string list"
  stAt :: int

record scopeKey =
  skSink :: string
  skScope :: ScopeKey

type_synonym pendingScopeEvent = "string \<times> ScopeEvent"

datatype warmCall = CallWarm WarmTarget | CallStop string ScopeKey

record ScopeEpochRecorder =
  rdClusterID :: string
  rdWarmer :: bool
  rdQueueLimit :: int
  rdActive :: "(scopeKey, string list) gomap"
  rdPending :: "pendingScopeEvent list"
  rdDropped :: nat
  rdWake :: nat
  rdInFlight :: "pendingScopeEvent option"
  rdLogged :: "pendingScopeEvent list"
  rdSent :: "pendingScopeEvent list"
  rdLost :: nat
  rdWarmCalls :: "warmCall list"

type_synonym scopeRouter = "string \<Rightarrow> (ScopeEvent \<Rightarrow> string option) option"

definition defaultScopeQueueLimit :: int where
  "defaultScopeQueueLimit = 4096"

text \<open>Without a router the constructor fails; None is that error.\<close>

definition NewScopeEpochRecorder :: "scopeRouter option \<Rightarrow> string \<Rightarrow> bool \<Rightarrow> int \<Rightarrow> ScopeEpochRecorder option" where
  "NewScopeEpochRecorder events clusterID warmer limit =
     (case events of
        None \<Rightarrow> None
      | Some _ \<Rightarrow> Some \<lparr>rdClusterID = clusterID, rdWarmer = warmer,
          rdQueueLimit = (if limit \<le> 0 then defaultScopeQueueLimit else limit),
          rdActive = [], rdPending = [], rdDropped = 0, rdWake = 0, rdInFlight = None,
          rdLogged = [], rdSent = [], rdLost = 0, rdWarmCalls = []\<rparr>)"

section \<open>Edges\<close>

definition triggeringRule :: "string list \<Rightarrow> string" where
  "triggeringRule ruleKeys = (case ruleKeys of [] \<Rightarrow> '''' | k # _ \<Rightarrow> k)"

definition eventFor :: "ScopeTransition \<Rightarrow> ScopeAction \<Rightarrow> ScopeEpochRecorder \<Rightarrow> ScopeEvent" where
  "eventFor t action r =
     \<lparr>seAction = action,
      seScope = \<lparr>sfClusterID = rdClusterID r, sfAPIGroup = sGroup (stScope t), sfKind = sKind (stScope t),
                 sfNamespace = sNamespace (stScope t)\<rparr>,
      seAPIVersion = stAPIVersion t, seRuleRef = triggeringRule (stRuleKeys t), seTS = stAt t\<rparr>"

definition enqueueLocked :: "string \<Rightarrow> ScopeEvent \<Rightarrow> ScopeEpochRecorder \<Rightarrow> ScopeEpochRecorder" where
  "enqueueLocked sinkName event r =
     (let pending = rdPending r @ [(sinkName, event)];
          overflow = int (length pending) - rdQueueLimit r;
          r = r\<lparr>rdLogged := rdLogged r @ [(sinkName, event)]\<rparr>
      in if overflow > 0
         then r\<lparr>rdPending := drop (nat overflow) pending, rdDropped := rdDropped r + nat overflow,
                rdLost := rdLost r + nat overflow\<rparr>
         else r\<lparr>rdPending := pending\<rparr>)"

definition signal :: "ScopeEpochRecorder \<Rightarrow> ScopeEpochRecorder" where
  "signal r = r\<lparr>rdWake := 1\<rparr>"

definition callWarmer :: "warmCall \<Rightarrow> ScopeEpochRecorder \<Rightarrow> ScopeEpochRecorder" where
  "callWarmer c r = (if rdWarmer r then r\<lparr>rdWarmCalls := rdWarmCalls r @ [c]\<rparr> else r)"

definition targetsOf :: "scopeKey \<Rightarrow> ScopeEpochRecorder \<Rightarrow> string list" where
  "targetsOf key r = (case mget (rdActive r) key of None \<Rightarrow> [] | Some targets \<Rightarrow> targets)"

definition ScopeStarted :: "ScopeTransition \<Rightarrow> ScopeEpochRecorder \<Rightarrow> ScopeEpochRecorder" where
  "ScopeStarted t r =
     (let key = \<lparr>skSink = stSink t, skScope = stScope t\<rparr>;
          targets = targetsOf key r;
          held = (stTarget t \<in> set targets);
          targets = List.insert (stTarget t) targets;
          r = r\<lparr>rdActive := mput key targets (rdActive r)\<rparr>;
          first = (\<not> held \<and> length targets = 1)
      in if \<not> first then r
         else callWarmer (CallWarm \<lparr>waSink = stSink t, waScope = stScope t, waEpochStart = stAt t\<rparr>)
                (signal (enqueueLocked (stSink t) (eventFor t ScopeActionStarted r) r)))"

definition ScopeStopped :: "ScopeTransition \<Rightarrow> ScopeEpochRecorder \<Rightarrow> ScopeEpochRecorder" where
  "ScopeStopped t r =
     (let key = \<lparr>skSink = stSink t, skScope = stScope t\<rparr>;
          targets = targetsOf key r
      in if stTarget t \<notin> set targets then r
         else
           let targets = removeAll (stTarget t) targets
           in if targets \<noteq> [] then r\<lparr>rdActive := mput key targets (rdActive r)\<rparr>
              else
                let r = r\<lparr>rdActive := mdel key (rdActive r)\<rparr>
                in callWarmer (CallStop (stSink t) (stScope t))
                     (signal (enqueueLocked (stSink t) (eventFor t ScopeActionStopped r) r)))"

section \<open>Hand-over\<close>

definition reportDrops :: "ScopeEpochRecorder \<Rightarrow> ScopeEpochRecorder" where
  "reportDrops r = r\<lparr>rdDropped := 0\<rparr>"

text \<open>The first half of an iteration of \<open>flush\<close>: read the head, find its writer and hand it over; the
  loop ends unless it is accepted.  The second half removes the head if it is still the row handed
  over.\<close>

definition flushHand :: "scopeRouter \<Rightarrow> ScopeEpochRecorder \<Rightarrow> bool \<times> ScopeEpochRecorder" where
  "flushHand router r =
     (case rdPending r of
        [] \<Rightarrow> (False, r)
      | next_event # _ \<Rightarrow>
          (case router (fst next_event) of
             None \<Rightarrow> (False, r)
           | Some enqueue \<Rightarrow>
               (case enqueue (snd next_event) of
                  Some err \<Rightarrow> (False, r)
                | None \<Rightarrow> (True, r\<lparr>rdInFlight := Some next_event, rdSent := rdSent r @ [next_event]\<rparr>))))"

definition flushPop :: "ScopeEpochRecorder \<Rightarrow> ScopeEpochRecorder" where
  "flushPop r =
     (case rdInFlight r of
        None \<Rightarrow> r
      | Some next_event \<Rightarrow>
          (if rdPending r \<noteq> [] \<and> hd (rdPending r) = next_event then r\<lparr>rdPending := tl (rdPending r)\<rparr> else r)
            \<lparr>rdInFlight := None\<rparr>)"

lemma flushHand_accepted:
  assumes "flushHand router r = (True, r')"
  obtains e es where "rdPending r = e # es" "r' = r\<lparr>rdInFlight := Some e, rdSent := rdSent r @ [e]\<rparr>"
  using assms by (auto simp: flushHand_def split: list.splits option.splits)

text \<open>An undisturbed \<open>flush\<close>; the router is asked anew in every iteration.\<close>

function flushLoop :: "(nat \<Rightarrow> scopeRouter) \<Rightarrow> nat \<Rightarrow> ScopeEpochRecorder \<Rightarrow> ScopeEpochRecorder" where
  "flushLoop router n r =
     (case flushHand (router n) r of
        (False, r) \<Rightarrow> r
      | (True, r) \<Rightarrow> flushLoop router (Suc n) (flushPop r))"
  by pat_completeness auto
termination flushLoop
  by (relation "measure (\<lambda>(router, n, r). length (rdPending r))") (auto simp: flushPop_def elim!: flushHand_accepted [OF sym])

declare flushLoop.simps [simp del]

definition flush :: "(nat \<Rightarrow> scopeRouter) \<Rightarrow> ScopeEpochRecorder \<Rightarrow> ScopeEpochRecorder" where
  "flush router r = flushLoop router 0 (reportDrops r)"

section \<open>Runs\<close>

datatype recorderStep =
    DoStarted ScopeTransition
  | DoStopped ScopeTransition
  | DoReport
  | DoHand scopeRouter
  | DoPop

fun recorder_exec :: "recorderStep \<Rightarrow> ScopeEpochRecorder \<Rightarrow> ScopeEpochRecorder" where
  "recorder_exec (DoStarted t) r = ScopeStarted t r"
| "recorder_exec (DoStopped t) r = ScopeStopped t r"
| "recorder_exec DoReport r = reportDrops r"
| "recorder_exec (DoHand router) r = (if rdInFlight r = None then snd (flushHand router r) else r)"
| "recorder_exec DoPop r = flushPop r"

inductive recorder_reach :: "ScopeEpochRecorder \<Rightarrow> bool" where
  recorder_new: "NewScopeEpochRecorder (Some router) clusterID warmer limit = Some r \<Longrightarrow> recorder_reach r"
| recorder_step: "recorder_reach r \<Longrightarrow> recorder_reach (recorder_exec step r)"

section \<open>Epochs alternate\<close>

text \<open>The state of a scope after a sequence of its rows: open or closed, and None when a row opens an
  open scope or closes a closed one.\<close>

fun epochStep :: "ScopeAction \<Rightarrow> bool \<Rightarrow> bool option" where
  "epochStep ScopeActionStarted open_now = (if open_now then None else Some True)"
| "epochStep ScopeActionStopped open_now = (if open_now then Some False else None)"

definition epochState :: "ScopeAction list \<Rightarrow> bool option" where
  "epochState acts = foldl (\<lambda>acc act. Option.bind acc (epochStep act)) (Some False) acts"

lemma epochState_simps [simp]:
  "epochState [] = Some False" "epochState (acts @ [a]) = Option.bind (epochState acts) (epochStep a)"
  by (simp_all add: epochState_def)

definition eventKey :: "pendingScopeEvent \<Rightarrow> scopeKey" where
  "eventKey e = \<lparr>skSink = fst e, skScope = \<lparr>sGroup = sfAPIGroup (seScope (snd e)), sKind = sfKind (seScope (snd e)),
     sNamespace = sfNamespace (seScope (snd e))\<rparr>\<rparr>"

definition actionsOf :: "scopeKey \<Rightarrow> pendingScopeEvent list \<Rightarrow> ScopeAction list" where
  "actionsOf key evs = map (seAction \<circ> snd) (filter (\<lambda>e. eventKey e = key) evs)"

fun callKey :: "warmCall \<Rightarrow> scopeKey" where
  "callKey (CallWarm t) = \<lparr>skSink = waSink t, skScope = waScope t\<rparr>"
| "callKey (CallStop s scope) = \<lparr>skSink = s, skScope = scope\<rparr>"

fun callAction :: "warmCall \<Rightarrow> ScopeAction" where
  "callAction (CallWarm t) = ScopeActionStarted"
| "callAction (CallStop s scope) = ScopeActionStopped"

text \<open>The rows and the warm calls as one trace of scope actions.\<close>

definition logTrace :: "ScopeEpochRecorder \<Rightarrow> (scopeKey \<times> ScopeAction) list" where
  "logTrace r = map (\<lambda>e. (eventKey e, seAction (snd e))) (rdLogged r)"

definition warmTrace :: "ScopeEpochRecorder \<Rightarrow> (scopeKey \<times> ScopeAction) list" where
  "warmTrace r = map (\<lambda>c. (callKey c, callAction c)) (rdWarmCalls r)"

definition epochs_ok :: "ScopeEpochRecorder \<Rightarrow> bool" where
  "epochs_ok r \<longleftrightarrow>
     (\<forall>key ts. mget (rdActive r) key = Some ts \<longrightarrow> ts \<noteq> [] \<and> distinct ts) \<and>
     (\<forall>key. epochState (actionsOf key (rdLogged r)) = Some (mget (rdActive r) key \<noteq> None)) \<and>
     warmTrace r = (if rdWarmer r then logTrace r else [])"

lemma eventKey_eventFor [simp]: "eventKey (stSink t, eventFor t act r) = \<lparr>skSink = stSink t, skScope = stScope t\<rparr>"
  by (simp add: eventKey_def eventFor_def)

lemma seAction_eventFor [simp]: "seAction (eventFor t act r) = act"
  by (simp add: eventFor_def)

lemma actionsOf_snoc [simp]: "actionsOf key (evs @ [e]) = actionsOf key evs @ (if eventKey e = key then [seAction (snd e)] else [])"
  by (simp add: actionsOf_def)

lemma enqueueLocked_sel [simp]:
  "rdLogged (enqueueLocked s e r) = rdLogged r @ [(s, e)]" "rdActive (enqueueLocked s e r) = rdActive r"
  "rdWarmer (enqueueLocked s e r) = rdWarmer r" "rdWarmCalls (enqueueLocked s e r) = rdWarmCalls r"
  "rdSent (enqueueLocked s e r) = rdSent r" "rdInFlight (enqueueLocked s e r) = rdInFlight r"
  "rdQueueLimit (enqueueLocked s e r) = rdQueueLimit r"
  by (simp_all add: enqueueLocked_def Let_def)

lemma signal_sel [simp]:
  "rdLogged (signal r) = rdLogged r" "rdActive (signal r) = rdActive r" "rdWarmer (signal r) = rdWarmer r"
  "rdWarmCalls (signal r) = rdWarmCalls r" "rdPending (signal r) = rdPending r" "rdSent (signal r) = rdSent r"
  "rdInFlight (signal r) = rdInFlight r" "rdLost (signal r) = rdLost r" "rdQueueLimit (signal r) = rdQueueLimit r"
  by (simp_all add: signal_def)

lemma callWarmer_sel [simp]:
  "rdLogged (callWarmer c r) = rdLogged r" "rdActive (callWarmer c r) = rdActive r" "rdWarmer (callWarmer c r) = rdWarmer r"
  "rdPending (callWarmer c r) = rdPending r" "rdSent (callWarmer c r) = rdSent r" "rdInFlight (callWarmer c r) = rdInFlight r"
  "rdLost (callWarmer c r) = rdLost r" "rdQueueLimit (callWarmer c r) = rdQueueLimit r"
  "rdWarmCalls (callWarmer c r) = (if rdWarmer r then rdWarmCalls r @ [c] else rdWarmCalls r)"
  by (simp_all add: callWarmer_def)

lemma ScopeStarted_cases:
  obtains (more) ts where "ScopeStarted t r = r\<lparr>rdActive := mput \<lparr>skSink = stSink t, skScope = stScope t\<rparr> ts (rdActive r)\<rparr>"
      "ts = List.insert (stTarget t) (targetsOf \<lparr>skSink = stSink t, skScope = stScope t\<rparr> r)"
      "targetsOf \<lparr>skSink = stSink t, skScope = stScope t\<rparr> r \<noteq> []" "ts \<noteq> []"
  | (first) r' where "r' = r\<lparr>rdActive := mput \<lparr>skSink = stSink t, skScope = stScope t\<rparr> [stTarget t] (rdActive r)\<rparr>"
      "targetsOf \<lparr>skSink = stSink t, skScope = stScope t\<rparr> r = []"
      "ScopeStarted t r = callWarmer (CallWarm \<lparr>waSink = stSink t, waScope = stScope t, waEpochStart = stAt t\<rparr>)
                (signal (enqueueLocked (stSink t) (eventFor t ScopeActionStarted r') r'))"
proof (cases "targetsOf \<lparr>skSink = stSink t, skScope = stScope t\<rparr> r")
  case Nil
  then show ?thesis by (intro first) (simp_all add: ScopeStarted_def Let_def)
next
  case (Cons a as)
  then have "\<not> (stTarget t \<notin> set (a # as) \<and> length (List.insert (stTarget t) (a # as)) = 1)" by (auto simp: List.insert_def)
  then show ?thesis using Cons by (intro more) (auto simp: ScopeStarted_def Let_def List.insert_def split: if_splits)
qed

lemma ScopeStopped_cases:
  obtains (absent) "ScopeStopped t r = r"
  | (fewer) ts where "ScopeStopped t r = r\<lparr>rdActive := mput \<lparr>skSink = stSink t, skScope = stScope t\<rparr> ts (rdActive r)\<rparr>"
      "ts = removeAll (stTarget t) (targetsOf \<lparr>skSink = stSink t, skScope = stScope t\<rparr> r)" "ts \<noteq> []"
  | (last_one) r' where "r' = r\<lparr>rdActive := mdel \<lparr>skSink = stSink t, skScope = stScope t\<rparr> (rdActive r)\<rparr>"
      "stTarget t \<in> set (targetsOf \<lparr>skSink = stSink t, skScope = stScope t\<rparr> r)"
      "ScopeStopped t r = callWarmer (CallStop (stSink t) (stScope t))
                (signal (enqueueLocked (stSink t) (eventFor t ScopeActionStopped r') r'))"
  by (cases "stTarget t \<in> set (targetsOf \<lparr>skSink = stSink t, skScope = stScope t\<rparr> r)";
      cases "removeAll (stTarget t) (targetsOf \<lparr>skSink = stSink t, skScope = stScope t\<rparr> r) = []")
     (auto simp: ScopeStopped_def Let_def)

lemma epochs_started: "epochs_ok r \<Longrightarrow> epochs_ok (ScopeStarted t r)"
proof (cases rule: ScopeStarted_cases [of t r])
  case (more ts)
  assume "epochs_ok r"
  then show ?thesis using more
    by (auto simp: epochs_ok_def logTrace_def warmTrace_def targetsOf_def split: option.splits)
next
  case (first r')
  assume ok: "epochs_ok r"
  then have "mget (rdActive r) \<lparr>skSink = stSink t, skScope = stScope t\<rparr> = None"
    using first(2) by (auto simp: epochs_ok_def targetsOf_def split: option.splits)
  then show ?thesis using first ok by (auto simp: epochs_ok_def logTrace_def warmTrace_def)
qed

lemma epochs_stopped: "epochs_ok r \<Longrightarrow> epochs_ok (ScopeStopped t r)"
proof (cases rule: ScopeStopped_cases [of t r])
  case (fewer ts)
  assume ok: "epochs_ok r"
  have "mget (rdActive r) \<lparr>skSink = stSink t, skScope = stScope t\<rparr> \<noteq> None"
    using fewer(2,3) by (cases "mget (rdActive r) \<lparr>skSink = stSink t, skScope = stScope t\<rparr>") (auto simp: targetsOf_def)
  then show ?thesis using fewer ok
    by (auto simp: epochs_ok_def logTrace_def warmTrace_def targetsOf_def distinct_removeAll split: option.splits)
next
  case (last_one r')
  assume ok: "epochs_ok r"
  have "mget (rdActive r) \<lparr>skSink = stSink t, skScope = stScope t\<rparr> \<noteq> None"
    using last_one(2) by (cases "mget (rdActive r) \<lparr>skSink = stSink t, skScope = stScope t\<rparr>") (auto simp: targetsOf_def)
  then show ?thesis using last_one ok by (auto simp: epochs_ok_def logTrace_def warmTrace_def)
qed simp

lemma epochs_cong:
  "epochs_ok r \<Longrightarrow> rdActive r' = rdActive r \<Longrightarrow> rdLogged r' = rdLogged r \<Longrightarrow> rdWarmer r' = rdWarmer r \<Longrightarrow>
   rdWarmCalls r' = rdWarmCalls r \<Longrightarrow> epochs_ok r'"
  by (simp add: epochs_ok_def logTrace_def warmTrace_def)

lemma flushHand_sel [simp]:
  "rdActive (snd (flushHand router r)) = rdActive r" "rdLogged (snd (flushHand router r)) = rdLogged r"
  "rdWarmer (snd (flushHand router r)) = rdWarmer r" "rdWarmCalls (snd (flushHand router r)) = rdWarmCalls r"
  "rdPending (snd (flushHand router r)) = rdPending r" "rdLost (snd (flushHand router r)) = rdLost r"
  "rdQueueLimit (snd (flushHand router r)) = rdQueueLimit r"
  by (auto simp: flushHand_def split: list.splits option.splits)

lemma flushPop_sel [simp]:
  "rdActive (flushPop r) = rdActive r" "rdLogged (flushPop r) = rdLogged r" "rdWarmer (flushPop r) = rdWarmer r"
  "rdWarmCalls (flushPop r) = rdWarmCalls r" "rdSent (flushPop r) = rdSent r" "rdLost (flushPop r) = rdLost r"
  "rdQueueLimit (flushPop r) = rdQueueLimit r"
  by (auto simp: flushPop_def split: option.splits)

lemma reach_epochs: "recorder_reach r \<Longrightarrow> epochs_ok r"
proof (induction rule: recorder_reach.induct)
  case (recorder_new router clusterID warmer limit r)
  then show ?case by (auto simp: NewScopeEpochRecorder_def epochs_ok_def actionsOf_def logTrace_def warmTrace_def)
next
  case (recorder_step r step)
  then show ?case by (cases step) (auto simp: epochs_started epochs_stopped reportDrops_def intro: epochs_cong)
qed

text \<open>The scope log alternates: whatever edges the watch manager reports, doubled, unpaired or mixed
  with hand-overs, the rows queued for one sink and scope are Started, Stopped, Started and so
  on, the scope is open in the log exactly while some target holds it, and the warm coordinator
  is asked to warm and to stop in the same order.\<close>

theorem scope_log_alternates:
  assumes "recorder_reach r"
  shows "epochState (actionsOf key (rdLogged r)) = Some (mget (rdActive r) key \<noteq> None) \<and>
    mget (rdActive r) key \<noteq> Some [] \<and>
    (rdWarmer r \<longrightarrow> map (\<lambda>c. (callKey c, callAction c)) (rdWarmCalls r) = map (\<lambda>e. (eventKey e, seAction (snd e))) (rdLogged r))"
  using reach_epochs [OF assms] by (auto simp: epochs_ok_def logTrace_def warmTrace_def)

definition sampleTransition :: "string \<Rightarrow> int \<Rightarrow> ScopeTransition" where
  "sampleTransition target at = \<lparr>stSink = ''s'', stScope = \<lparr>sGroup = '''', sKind = ''Pod'', sNamespace = ''ns''\<rparr>, stTarget = target,
     stAPIVersion = ''v1'', stRuleKeys = [''r''], stAt = at\<rparr>"

definition sampleRecorder :: "int \<Rightarrow> ScopeEpochRecorder" where
  "sampleRecorder limit = the (NewScopeEpochRecorder (Some (\<lambda>s. None)) ''c'' True limit)"

lemma sampleRecorder_reach: "recorder_reach (fold recorder_exec steps (sampleRecorder limit))"
proof (induction steps rule: rev_induct)
  case Nil
  show ?case by (rule recorder_new [of "\<lambda>s. None" "''c''" True limit]) (simp add: sampleRecorder_def NewScopeEpochRecorder_def)
next
  case (snoc step steps)
  then show ?case by (simp add: recorder_step)
qed

theorem scope_log_alternates_witness:
  "let r = fold recorder_exec [DoStarted (sampleTransition ''v1'' 1), DoStarted (sampleTransition ''v2'' 1),
             DoStopped (sampleTransition ''v1'' 2), DoStopped (sampleTransition ''v3'' 2), DoStopped (sampleTransition ''v2'' 3),
             DoStarted (sampleTransition ''v1'' 4)] (sampleRecorder 10);
       key = \<lparr>skSink = ''s'', skScope = \<lparr>sGroup = '''', sKind = ''Pod'', sNamespace = ''ns''\<rparr>\<rparr>
   in length (rdLogged r) = 3 \<and> epochState (actionsOf key (rdLogged r)) = Some True"
proof -
  define r where "r = fold recorder_exec [DoStarted (sampleTransition ''v1'' 1), DoStarted (sampleTransition ''v2'' 1),
             DoStopped (sampleTransition ''v1'' 2), DoStopped (sampleTransition ''v3'' 2), DoStopped (sampleTransition ''v2'' 3),
             DoStarted (sampleTransition ''v1'' 4)] (sampleRecorder 10)"
  define key where "key = \<lparr>skSink = ''s'', skScope = \<lparr>sGroup = '''', sKind = ''Pod'', sNamespace = ''ns''\<rparr>\<rparr>"
  have "length (rdLogged r) = 3 \<and> mget (rdActive r) key = Some [''v1'']" unfolding r_def key_def by code_simp
  moreover have "epochState (actionsOf key (rdLogged r)) = Some (mget (rdActive r) key \<noteq> None)"
    using scope_log_alternates [OF sampleRecorder_reach, of key] unfolding r_def by blast
  ultimately have "length (rdLogged r) = 3 \<and> epochState (actionsOf key (rdLogged r)) = Some True" by simp
  then show ?thesis unfolding Let_def r_def key_def .
qed

section \<open>Delivery in order\<close>

text \<open>What is queued and not yet handed over.\<close>

definition undelivered :: "ScopeEpochRecorder \<Rightarrow> pendingScopeEvent list" where
  "undelivered r = (if rdPending r \<noteq> [] \<and> rdInFlight r = Some (hd (rdPending r)) then tl (rdPending r) else rdPending r)"

definition delivery_ok :: "ScopeEpochRecorder \<Rightarrow> bool" where
  "delivery_ok r \<longleftrightarrow>
     0 < rdQueueLimit r \<and> int (length (rdPending r)) \<le> rdQueueLimit r \<and>
     subseq (rdSent r @ undelivered r) (rdLogged r) \<and>
     (rdLost r = 0 \<longrightarrow> rdSent r @ undelivered r = rdLogged r \<and>
        (\<forall>e. rdInFlight r = Some e \<longrightarrow> rdPending r \<noteq> [] \<and> hd (rdPending r) = e))"

lemma delivery_cong:
  assumes "rdPending r' = rdPending r" "rdInFlight r' = rdInFlight r" "rdLogged r' = rdLogged r"
    and "rdSent r' = rdSent r" "rdLost r' = rdLost r" "rdQueueLimit r' = rdQueueLimit r"
  shows "delivery_ok r' = delivery_ok r"
  unfolding delivery_ok_def undelivered_def assms ..

lemma undelivered_suffix: "suffix (undelivered r) (rdPending r)"
  by (auto simp: undelivered_def suffix_tl)

lemma drop_one_undelivered:
  assumes "rdPending r' = drop 1 (rdPending r @ [e])" "rdInFlight r' = rdInFlight r"
  shows "subseq (undelivered r') (undelivered r @ [e])"
proof (cases "rdPending r")
  case Nil
  then show ?thesis using assms by (simp add: undelivered_def)
next
  case (Cons a as)
  then have "suffix (undelivered r') (as @ [e])" using undelivered_suffix [of r'] assms by simp
  moreover have "suffix as (undelivered r)" using Cons by (auto simp: undelivered_def suffix_ConsI)
  ultimately have "subseq (undelivered r') (as @ [e])" "subseq (as @ [e]) (undelivered r @ [e])"
    by (simp_all add: suffix_imp_subseq list_emb_append_mono)
  then show ?thesis by (rule subseq_order.trans)
qed

lemma delivery_enqueue:
  assumes "delivery_ok r"
  shows "delivery_ok (enqueueLocked s ev r)"
proof -
  define e where "e = (s, ev)"
  define r' where "r' = enqueueLocked s ev r"
  have ok: "0 < rdQueueLimit r" "int (length (rdPending r)) \<le> rdQueueLimit r" "subseq (rdSent r @ undelivered r) (rdLogged r)"
    using assms by (auto simp: delivery_ok_def)
  have sub: "subseq (rdSent r @ undelivered r @ [e]) (rdLogged r @ [e])"
    using list_emb_append_mono [OF ok(3), of "[e]" "[e]"] by simp
  show ?thesis
  proof (cases "int (length (rdPending r)) < rdQueueLimit r")
    case True
    then have p: "rdPending r' = rdPending r @ [e]" "rdLost r' = rdLost r"
      by (simp_all add: r'_def enqueueLocked_def e_def Let_def)
    have u: "undelivered r' = undelivered r @ [e] \<or> (rdPending r = [] \<and> rdInFlight r = Some e \<and> undelivered r' = [] \<and> undelivered r = [])"
      using p by (cases "rdPending r") (auto simp: undelivered_def r'_def)
    have "subseq (rdSent r' @ undelivered r') (rdLogged r')"
    proof (cases "undelivered r' = undelivered r @ [e]")
      case True
      then show ?thesis using sub by (simp add: r'_def e_def)
    next
      case False
      then have "undelivered r' = []" "subseq (rdSent r) (rdLogged r)" using u ok(3) by auto
      then show ?thesis using list_emb_prefix [of "(=)" "rdSent r" "rdLogged r" "[e]"] by (simp add: r'_def e_def)
    qed
    moreover have "rdSent r' @ undelivered r' = rdLogged r' \<and>
        (\<forall>e. rdInFlight r' = Some e \<longrightarrow> rdPending r' \<noteq> [] \<and> hd (rdPending r') = e)" if lost: "rdLost r' = 0"
    proof -
      have old: "rdSent r @ undelivered r = rdLogged r" "\<And>e. rdInFlight r = Some e \<Longrightarrow> rdPending r \<noteq> [] \<and> hd (rdPending r) = e"
        using assms lost p(2) by (simp_all add: delivery_ok_def)
      then have "undelivered r' = undelivered r @ [e]" using u by blast
      then show ?thesis using old p(1) by (auto simp: r'_def e_def simp flip: old(1))
    qed
    ultimately show ?thesis using True ok(1) p(1) by (simp add: delivery_ok_def r'_def [symmetric]) (simp add: r'_def)
  next
    case False
    then have len: "int (length (rdPending r)) = rdQueueLimit r" using ok(2) by simp
    have p: "rdPending r' = drop 1 (rdPending r @ [e])" "rdLost r' = Suc (rdLost r)"
      using len by (simp_all add: r'_def enqueueLocked_def e_def Let_def)
    have "subseq (rdSent r @ undelivered r') (rdSent r @ undelivered r @ [e])"
      using drop_one_undelivered [OF p(1)] by (simp add: r'_def subseq_append')
    from subseq_order.trans [OF this sub] have "subseq (rdSent r' @ undelivered r') (rdLogged r')" by (simp add: r'_def e_def)
    then show ?thesis using ok(1) len p by (simp add: delivery_ok_def r'_def [symmetric]) (simp add: r'_def)
  qed
qed

lemma delivery_active: "delivery_ok (r\<lparr>rdActive := m\<rparr>) = delivery_ok r"
  by (rule delivery_cong) simp_all

lemma delivery_queue: "delivery_ok r \<Longrightarrow> delivery_ok (callWarmer c (signal (enqueueLocked s ev r)))"
  using delivery_enqueue [of r s ev] by (subst delivery_cong [of _ "enqueueLocked s ev r"]) simp_all

lemma delivery_started: "delivery_ok r \<Longrightarrow> delivery_ok (ScopeStarted t r)"
  by (cases rule: ScopeStarted_cases [of t r]) (simp_all add: delivery_active delivery_queue)

lemma delivery_stopped: "delivery_ok r \<Longrightarrow> delivery_ok (ScopeStopped t r)"
  by (cases rule: ScopeStopped_cases [of t r]) (simp_all add: delivery_active delivery_queue)

lemma delivery_report: "delivery_ok (reportDrops r) = delivery_ok r"
  by (rule delivery_cong) (simp_all add: reportDrops_def)

lemma delivery_hand:
  assumes "delivery_ok r" "rdInFlight r = None"
  shows "delivery_ok (snd (flushHand router r))"
proof (cases "fst (flushHand router r)")
  case True
  then obtain e es where "rdPending r = e # es" "snd (flushHand router r) = r\<lparr>rdInFlight := Some e, rdSent := rdSent r @ [e]\<rparr>"
    by (metis flushHand_accepted prod.collapse)
  then show ?thesis using assms by (simp add: delivery_ok_def undelivered_def)
next
  case False
  then have "snd (flushHand router r) = r" by (auto simp: flushHand_def split: list.splits option.splits)
  then show ?thesis using assms by simp
qed

lemma delivery_pop: "delivery_ok r \<Longrightarrow> delivery_ok (flushPop r)"
  by (cases "rdPending r"; cases "rdInFlight r") (auto simp: delivery_ok_def undelivered_def flushPop_def split: if_splits)

lemma reach_delivery: "recorder_reach r \<Longrightarrow> delivery_ok r"
proof (induction rule: recorder_reach.induct)
  case (recorder_new router clusterID warmer limit r)
  then show ?case by (auto simp: NewScopeEpochRecorder_def delivery_ok_def undelivered_def defaultScopeQueueLimit_def)
next
  case (recorder_step r step)
  then show ?case
    by (cases step) (simp_all add: delivery_started delivery_stopped delivery_hand delivery_pop delivery_report)
qed



section \<open>A flush\<close>

definition accepts :: "scopeRouter \<Rightarrow> pendingScopeEvent \<Rightarrow> bool" where
  "accepts router e = (case router (fst e) of None \<Rightarrow> False | Some enqueue \<Rightarrow> enqueue (snd e) = None)"

lemma flushHand_eq:
  "flushHand router r = (case rdPending r of
      [] \<Rightarrow> (False, r)
    | e # es \<Rightarrow> if accepts router e then (True, r\<lparr>rdInFlight := Some e, rdSent := rdSent r @ [e]\<rparr>) else (False, r))"
  by (auto simp: flushHand_def accepts_def split: list.splits option.splits)

lemma flushPop_sent:
  "rdPending r = e # es \<Longrightarrow> flushPop (r\<lparr>rdInFlight := Some e, rdSent := s\<rparr>) = r\<lparr>rdInFlight := None, rdSent := s, rdPending := es\<rparr>"
  by (simp add: flushPop_def)

lemma flushLoop_spec:
  "rdInFlight r = None \<Longrightarrow> flushLoop (\<lambda>n. router) n r =
     r\<lparr>rdSent := rdSent r @ takeWhile (accepts router) (rdPending r), rdPending := dropWhile (accepts router) (rdPending r)\<rparr>"
proof (induction "rdPending r" arbitrary: n r)
  case Nil
  then show ?case by (subst flushLoop.simps) (simp add: flushHand_eq)
next
  case (Cons e es)
  note p = Cons.hyps(2) [symmetric]
  show ?case
  proof (cases "accepts router e")
    case True
    define r' where "r' = r\<lparr>rdInFlight := None, rdSent := rdSent r @ [e], rdPending := es\<rparr>"
    have "flushLoop (\<lambda>n. router) n r = flushLoop (\<lambda>n. router) (Suc n) r'"
      by (subst flushLoop.simps) (simp add: flushHand_eq p True flushPop_sent r'_def)
    also have "\<dots> = r'\<lparr>rdSent := rdSent r' @ takeWhile (accepts router) (rdPending r'),
        rdPending := dropWhile (accepts router) (rdPending r')\<rparr>"
      by (rule Cons.hyps(1)) (simp_all add: r'_def)
    finally show ?thesis using True Cons.prems p by (simp add: r'_def)
  next
    case False
    then show ?thesis by (subst flushLoop.simps) (simp add: flushHand_eq p)
  qed
qed

lemma flush_is_run:
  assumes "rdInFlight r = None"
  shows "\<exists>steps. flush router r = fold recorder_exec steps r"
proof -
  have loop: "rdInFlight r = None \<Longrightarrow> \<exists>steps. flushLoop router n r = fold recorder_exec steps r" for n r
  proof (induction router n r rule: flushLoop.induct)
    case (1 router n r)
    show ?case
    proof (cases "flushHand (router n) r")
      case (Pair ok r')
      show ?thesis
      proof (cases ok)
        case True
        have "rdInFlight (flushPop r') = None" by (auto simp: flushPop_def split: option.splits)
        from 1(1) [OF Pair [symmetric] _ this] True obtain steps where
          "flushLoop router (Suc n) (flushPop r') = fold recorder_exec steps (flushPop r')" by blast
        then have "flushLoop router n r = fold recorder_exec (DoHand (router n) # DoPop # steps) r"
          using True Pair 1(2) by (subst flushLoop.simps) simp
        then show ?thesis by blast
      next
        case False
        then have "flushLoop router n r = fold recorder_exec [DoHand (router n)] r"
          using Pair 1(2) by (subst flushLoop.simps) simp
        then show ?thesis by blast
      qed
    qed
  qed
  have "rdInFlight (reportDrops r) = None" using assms by (simp add: reportDrops_def)
  then obtain steps where "flushLoop router 0 (reportDrops r) = fold recorder_exec steps (reportDrops r)"
    using loop by blast
  then have "flush router r = fold recorder_exec (DoReport # steps) r" by (simp add: flush_def)
  then show ?thesis by blast
qed

text \<open>C12. A flush hands over exactly the longest prefix of the queue whose rows are all accepted, in order,
  and keeps the rest: with every sink live the queue empties, and a row whose sink is not live
  holds back every row behind it, those of other sinks included.\<close>

theorem flush_hands_over_prefix:
  assumes "rdInFlight r = None"
  shows "rdSent (flush (\<lambda>n. router) r) = rdSent r @ takeWhile (accepts router) (rdPending r) \<and>
    rdPending (flush (\<lambda>n. router) r) = dropWhile (accepts router) (rdPending r) \<and>
    ((\<forall>e \<in> set (rdPending r). accepts router e) \<longrightarrow> rdPending (flush (\<lambda>n. router) r) = []) \<and>
    (rdPending r \<noteq> [] \<and> router (fst (hd (rdPending r))) = None \<longrightarrow> rdSent (flush (\<lambda>n. router) r) = rdSent r)"
proof -
  have eq: "flush (\<lambda>n. router) r = (reportDrops r)\<lparr>rdSent := rdSent r @ takeWhile (accepts router) (rdPending r),
      rdPending := dropWhile (accepts router) (rdPending r)\<rparr>"
    using flushLoop_spec [of "reportDrops r" router 0] assms by (simp add: flush_def reportDrops_def)
  show ?thesis unfolding eq
    by (cases "rdPending r") (auto simp: accepts_def dropWhile_eq_Nil_conv)
qed

theorem flush_hands_over_prefix_witness:
  "let r = fold recorder_exec [DoStarted (sampleTransition ''v1'' 1), DoStarted ((sampleTransition ''v1'' 2)\<lparr>stSink := ''t''\<rparr>)] (sampleRecorder 10);
       live = (\<lambda>s. if s = ''t'' then Some (\<lambda>e. None) else None)
   in length (rdPending r) = 2 \<and> rdSent (flush (\<lambda>n. live) r) = []"
proof -
  define r where "r = fold recorder_exec [DoStarted (sampleTransition ''v1'' 1), DoStarted ((sampleTransition ''v1'' 2)\<lparr>stSink := ''t''\<rparr>)] (sampleRecorder 10)"
  define live :: scopeRouter where "live = (\<lambda>s. if s = ''t'' then Some (\<lambda>e. None) else None)"
  have st: "length (rdPending r) = 2 \<and> rdInFlight r = None \<and> fst (hd (rdPending r)) = ''s'' \<and> rdSent r = []"
    unfolding r_def by code_simp
  then have "rdPending r \<noteq> [] \<and> live (fst (hd (rdPending r))) = None" by (auto simp: live_def)
  then have "rdSent (flush (\<lambda>n. live) r) = []" using flush_hands_over_prefix [of r live] st by auto
  then show ?thesis using st unfolding Let_def r_def live_def by blast
qed

end
