(* ===== verification/Watch.thy ===== *)
theory Watch
imports Recorder Resolver Normalize "HOL-Library.Product_Lexorder"
begin

text \<open>
  The watch layer (\<open>internal/watch/interest.go\<close>, \<open>manager.go\<close>, \<open>pool.go\<close>): the interest table
  between rules and informers, the level-triggered pass that moves the informer pool towards the
  registry's snapshot, the fan-out of informer events to work keys, and the lookups through which the
  pipeline sees the cluster.  Parameters: label selector parsing (apimachinery), the text of a
  resource, the REST mapper, whether an informer starts, and what the informers' caches hold.  What
  a pass tells the recorder, the pipeline and the pool is the list of its effects, in order.
\<close>

section \<open>Interests\<close>

type_synonym labelSet = "(string, string) gomap"
type_synonym Selector = "labelSet \<Rightarrow> bool"

record informerKey =
  ikGVR :: GVR
  ikNamespace :: string

record interestID =
  iiInformer :: informerKey
  iiSink :: string

record identityKey =
  idGroup :: string
  idKind :: string
  idNamespace :: string
  idSink :: string

record scopeInterest =
  siInformer :: informerKey
  siGVK :: GVK
  siSink :: string
  siScope :: ScopeKey
  siRuleKeys :: "string list"
  siSelectors :: "Selector list"
  siMatchAll :: bool
  siRedaction :: RedactionPolicy

definition informerString :: "(GVR \<Rightarrow> string) \<Rightarrow> informerKey \<Rightarrow> string" where
  "informerString gvrString k =
     (if ikNamespace k = '''' then gvrString (ikGVR k) @ '' (cluster-wide)''
      else gvrString (ikGVR k) @ '' in namespace '' @ ikNamespace k)"

text \<open>\<open>redactionPaths\<close>: the union of the rules' newline-separated path lists.\<close>

definition redactionPaths :: "string list \<Rightarrow> string list" where
  "redactionPaths redactions =
     sort (remdups (filter (\<lambda>path. path \<noteq> '''') (concat (map (split_on (CHR 0x0A)) redactions))))"

datatype interestError = SelectorError string string | RedactionError redactError

fun parseSelectors :: "(string \<Rightarrow> string + Selector) \<Rightarrow> string list \<Rightarrow> interestError + (bool \<times> Selector list)" where
  "parseSelectors parse [] = Inr (False, [])"
| "parseSelectors parse (raw # raws) =
     (if raw = '''' then
        (case parseSelectors parse raws of Inl e \<Rightarrow> Inl e | Inr (_, sels) \<Rightarrow> Inr (True, sels))
      else (case parse raw of
              Inl e \<Rightarrow> Inl (SelectorError raw e)
            | Inr sel \<Rightarrow>
                (case parseSelectors parse raws of Inl e \<Rightarrow> Inl e | Inr (all, sels) \<Rightarrow> Inr (all, sel # sels))))"

definition newScopeInterest ::
    "(string \<Rightarrow> string + Selector) \<Rightarrow> TargetKey \<Rightarrow> informerKey \<Rightarrow> string list \<Rightarrow> string list \<Rightarrow> string list \<Rightarrow>
     interestError + scopeInterest" where
  "newScopeInterest parse key informer selectors redactions ruleKeys =
     (case parseSelectors parse selectors of
        Inl e \<Rightarrow> Inl e
      | Inr (matchAll, sels) \<Rightarrow>
          let si = \<lparr>siInformer = informer, siGVK = tkGVK key, siSink = tkSink key,
                    siScope = \<lparr>sGroup = gGroup (tkGVK key), sKind = gKind (tkGVK key), sNamespace = tkNamespace key\<rparr>,
                    siRuleKeys = ruleKeys, siSelectors = sels, siMatchAll = (matchAll \<or> sels = []), siRedaction = None\<rparr>;
              paths = redactionPaths redactions
          in if paths = [] then Inr si
             else (case CompileRedaction paths of
                     Inl e \<Rightarrow> Inl (RedactionError e)
                   | Inr policy \<Rightarrow> Inr (si\<lparr>siRedaction := policy\<rparr>)))"

definition interest_id :: "scopeInterest \<Rightarrow> interestID" where
  "interest_id si = \<lparr>iiInformer = siInformer si, iiSink = siSink si\<rparr>"

definition transition :: "(GVR \<Rightarrow> string) \<Rightarrow> int \<Rightarrow> scopeInterest \<Rightarrow> ScopeTransition" where
  "transition gvrString at si =
     \<lparr>stSink = siSink si, stScope = siScope si, stTarget = informerString gvrString (siInformer si),
      stAPIVersion = gVersion (siGVK si), stRuleKeys = siRuleKeys si, stAt = at\<rparr>"

definition identity :: "scopeInterest \<Rightarrow> identityKey" where
  "identity si =
     \<lparr>idGroup = gGroup (siGVK si), idKind = gKind (siGVK si), idNamespace = ikNamespace (siInformer si), idSink = siSink si\<rparr>"

definition keyFor :: "string \<Rightarrow> string \<Rightarrow> scopeInterest \<Rightarrow> Key" where
  "keyFor namespace name si =
     \<lparr>kSink = siSink si, kGroup = gGroup (siGVK si), kKind = gKind (siGVK si), kNamespace = namespace, kName = name\<rparr>"

text \<open>A nil label map and an empty one match alike.\<close>

definition labelsMatch :: "labelSet option \<Rightarrow> scopeInterest \<Rightarrow> bool" where
  "labelsMatch objLabels si =
     (siMatchAll si \<or> (\<exists>sel \<in> set (siSelectors si). sel (case objLabels of None \<Rightarrow> [] | Some m \<Rightarrow> m)))"

definition matchesEither :: "labelSet option \<Rightarrow> labelSet option \<Rightarrow> scopeInterest \<Rightarrow> bool" where
  "matchesEither current previous si =
     (if labelsMatch current si then True else previous \<noteq> None \<and> labelsMatch previous si)"

section \<open>The interest table\<close>

record interestTable =
  itCurrent :: "(interestID, scopeInterest) gomap"
  itByInformer :: "(informerKey, scopeInterest list) gomap"
  itByIdentity :: "(identityKey, scopeInterest list) gomap"

definition newInterestTable :: interestTable where
  "newInterestTable = \<lparr>itCurrent = [], itByInformer = [], itByIdentity = []\<rparr>"

definition mlist :: "('k, 'v list) gomap \<Rightarrow> 'k \<Rightarrow> 'v list" where
  "mlist m k = (case mget m k of None \<Rightarrow> [] | Some vs \<Rightarrow> vs)"

definition mappend :: "('a \<Rightarrow> 'k) \<Rightarrow> 'a \<Rightarrow> ('k, 'a list) gomap \<Rightarrow> ('k, 'a list) gomap" where
  "mappend key v m = mput (key v) (mlist m (key v) @ [v]) m"

definition sortInterests :: "scopeInterest list \<Rightarrow> scopeInterest list" where
  "sortInterests = sort_key (\<lambda>si. (siSink si, sGroup (siScope si), sKind (siScope si), sNamespace (siScope si)))"

definition replace :: "(interestID, scopeInterest) gomap \<Rightarrow> interestTable \<Rightarrow> scopeInterest list \<times> interestTable" where
  "replace desired t =
     (let removed = map snd (filter (\<lambda>(i, _). \<not> mhas desired i) (itCurrent t));
          byInformer = fold (mappend siInformer) (map snd desired) [];
          byIdentity = fold (mappend identity) (map snd desired) []
      in (sortInterests removed,
          \<lparr>itCurrent = desired, itByInformer = map (\<lambda>(k, sis). (k, sort_key siSink sis)) byInformer, itByIdentity = byIdentity\<rparr>))"

definition interestsFor :: "informerKey \<Rightarrow> interestTable \<Rightarrow> scopeInterest list" where
  "interestsFor key t = mlist (itByInformer t) key"

definition lookupIdentity :: "Key \<Rightarrow> interestTable \<Rightarrow> scopeInterest list" where
  "lookupIdentity ref t =
     (let exact = \<lparr>idGroup = kGroup ref, idKind = kKind ref, idNamespace = kNamespace ref, idSink = kSink ref\<rparr>;
          clusterWide = exact\<lparr>idNamespace := ''''\<rparr>;
          interests = mlist (itByIdentity t) exact
      in if exact = clusterWide then interests
         else
           let clusterWideInterests = mlist (itByIdentity t) clusterWide
           in if interests = [] then clusterWideInterests
              else if clusterWideInterests = [] then interests
              else interests @ clusterWideInterests)"

definition interestsForScope :: "string \<Rightarrow> ScopeKey \<Rightarrow> interestTable \<Rightarrow> scopeInterest list" where
  "interestsForScope sinkName scope t =
     mlist (itByIdentity t)
       \<lparr>idGroup = sGroup scope, idKind = sKind scope, idNamespace = sNamespace scope, idSink = sinkName\<rparr>"

section \<open>Fan-out\<close>

text \<open>What an informer delivers: an object, a tombstone with or without its last known object, or a
  value of another type.\<close>

datatype delivered = Unstructured jobj | Tombstone string "delivered option" | OtherType

record eventTarget =
  etNamespace :: string
  etName :: string
  etObj :: "jobj option"

record objectMeta =
  omNamespace :: "jobj \<Rightarrow> string"
  omName :: "jobj \<Rightarrow> string"
  omLabels :: "jobj \<Rightarrow> labelSet option"
  omSplitKey :: "string \<Rightarrow> (string \<times> string) option"

definition objectTarget :: "objectMeta \<Rightarrow> delivered \<Rightarrow> eventTarget option" where
  "objectTarget om obj =
     (case obj of Unstructured u \<Rightarrow> Some \<lparr>etNamespace = omNamespace om u, etName = omName om u, etObj = Some u\<rparr> | _ \<Rightarrow> None)"

definition eventTargetOf :: "objectMeta \<Rightarrow> delivered \<Rightarrow> eventTarget option" where
  "eventTargetOf om obj =
     (case obj of
        Tombstone key None \<Rightarrow>
          (case omSplitKey om key of
             None \<Rightarrow> None
           | Some (namespace, name) \<Rightarrow> Some \<lparr>etNamespace = namespace, etName = name, etObj = None\<rparr>)
      | Tombstone key (Some inner) \<Rightarrow> objectTarget om inner
      | _ \<Rightarrow> objectTarget om obj)"

definition labelsKnown :: "eventTarget \<Rightarrow> bool" where
  "labelsKnown t = (etObj t \<noteq> None)"

definition labelsOf :: "objectMeta \<Rightarrow> eventTarget \<Rightarrow> labelSet option" where
  "labelsOf om t = (case etObj t of None \<Rightarrow> None | Some obj \<Rightarrow> omLabels om obj)"

definition previousLabels :: "objectMeta \<Rightarrow> delivered option \<Rightarrow> labelSet option" where
  "previousLabels om previous =
     (case previous of
        None \<Rightarrow> None
      | Some prev \<Rightarrow> (case eventTargetOf om prev of None \<Rightarrow> None | Some t \<Rightarrow> labelsOf om t))"

definition fanOut :: "objectMeta \<Rightarrow> informerKey \<Rightarrow> delivered \<Rightarrow> delivered option \<Rightarrow> interestTable \<Rightarrow> Key list" where
  "fanOut om key obj previous t =
     (case eventTargetOf om obj of
        None \<Rightarrow> []
      | Some target \<Rightarrow>
          map (keyFor (etNamespace target) (etName target))
            (filter (\<lambda>si. \<not> (\<not> siMatchAll si \<and> labelsKnown target \<and>
                             \<not> matchesEither (labelsOf om target) (previousLabels om previous) si))
               (interestsFor key t)))"

section \<open>The manager\<close>

datatype watchEffect =
    EScopeStopped ScopeTransition
  | EEvictScope string ScopeKey
  | EStopInformer informerKey
  | EStartInformer informerKey
  | EScopeStarted ScopeTransition

record 'e WatchManager =
  wmResolver :: "'e Resolver"
  wmTable :: interestTable
  wmPool :: "(informerKey, GVK) gomap"
  wmStarted :: "interestID list"
  wmSettled :: bool
  wmDiffs :: nat

text \<open>What a pass meets: the mapper, the clock of its resolutions, the instant it stamps, the informers
  that fail to start.\<close>

record 'e passEnv =
  peIsNoMatch :: "'e \<Rightarrow> bool"
  peMapper :: "'e mapper"
  peClock :: "nat \<Rightarrow> int"
  peAt :: int
  peParse :: "string \<Rightarrow> string + Selector"
  peGvrString :: "GVR \<Rightarrow> string"
  peStartFails :: "informerKey \<Rightarrow> bool"

datatype watchOptionError = RegistryRequired | ResolverRequired | DynamicRequired | PipelineRequired

definition newWatchManager :: "bool \<Rightarrow> 'e Resolver option \<Rightarrow> bool \<Rightarrow> bool \<Rightarrow> watchOptionError + 'e WatchManager" where
  "newWatchManager registry resolver dyn pipeline =
     (if \<not> registry then Inl RegistryRequired
      else case resolver of
        None \<Rightarrow> Inl ResolverRequired
      | Some r \<Rightarrow>
          if \<not> dyn then Inl DynamicRequired
          else if \<not> pipeline then Inl PipelineRequired
          else Inr \<lparr>wmResolver = r, wmTable = newInterestTable, wmPool = [], wmStarted = [], wmSettled = False, wmDiffs = 0\<rparr>)"

text \<open>One target of the snapshot; \<open>n\<close> counts the resolutions of the pass.\<close>

definition translateTarget ::
    "'e passEnv \<Rightarrow> TargetKey \<times> TargetState \<Rightarrow>
     nat \<times> 'e Resolver \<times> (interestID, scopeInterest) gomap \<times> (informerKey, GVK) gomap \<Rightarrow>
     nat \<times> 'e Resolver \<times> (interestID, scopeInterest) gomap \<times> (informerKey, GVK) gomap" where
  "translateTarget pe ks acc =
     (case (ks, acc) of ((key, state), (n, r, desired, wanted)) \<Rightarrow>
        (case Resolve (peIsNoMatch pe) (peMapper pe) (peClock pe (2 * n)) (peClock pe (2 * n + 1)) (tkGVK key) r of
           (Inl err, r) \<Rightarrow> (n + 1, r, desired, wanted)
         | (Inr (gvr, namespaced), r) \<Rightarrow>
             if tkNamespace key \<noteq> '''' \<and> \<not> namespaced then (n + 1, r, desired, wanted)
             else
               let informer = \<lparr>ikGVR = gvr, ikNamespace = tkNamespace key\<rparr>
               in case newScopeInterest (peParse pe) key informer (tsSelectors state) (tsRedactions state) (tsRuleKeys state) of
                    Inl err \<Rightarrow> (n + 1, r, desired, wanted)
                  | Inr si \<Rightarrow> (n + 1, r, mput (interest_id si) si desired, mput informer (tkGVK key) wanted)))"

definition translate ::
    "'e passEnv \<Rightarrow> (TargetKey, TargetState) gomap \<Rightarrow> 'e Resolver \<Rightarrow>
     'e Resolver \<times> (interestID, scopeInterest) gomap \<times> (informerKey, GVK) gomap" where
  "translate pe snapshot r = snd (fold (translateTarget pe) snapshot (0, r, [], []))"

definition sortInformers :: "(GVR \<Rightarrow> string) \<Rightarrow> informerKey list \<Rightarrow> informerKey list" where
  "sortInformers gvrString = sort_key (\<lambda>k. (gvrString (ikGVR k), ikNamespace k))"

text \<open>The pool: stops first, then starts of what is wanted and not running.\<close>

definition stop :: "informerKey \<Rightarrow> (informerKey, GVK) gomap \<times> watchEffect list \<Rightarrow> (informerKey, GVK) gomap \<times> watchEffect list" where
  "stop key s = (case s of (pool, effs) \<Rightarrow> if mhas pool key then (mdel key pool, effs @ [EStopInformer key]) else (pool, effs))"

definition startInformer ::
    "'e passEnv \<Rightarrow> (informerKey, GVK) gomap \<Rightarrow> informerKey \<Rightarrow>
     (informerKey, GVK) gomap \<times> watchEffect list \<Rightarrow> (informerKey, GVK) gomap \<times> watchEffect list" where
  "startInformer pe wanted key s =
     (case s of (pool, effs) \<Rightarrow>
        if mhas pool key then (pool, effs)
        else if peStartFails pe key then (pool, effs)
        else (mput key (the (mget wanted key)) pool, effs @ [EStartInformer key]))"

definition retain ::
    "'e passEnv \<Rightarrow> (informerKey, GVK) gomap \<Rightarrow> (informerKey, GVK) gomap \<Rightarrow> (informerKey, GVK) gomap \<times> watchEffect list" where
  "retain pe wanted pool =
     fold (startInformer pe wanted) (sortInformers (peGvrString pe) (mkeys wanted))
       (fold stop (filter (\<lambda>k. \<not> mhas wanted k) (sortInformers (peGvrString pe) (mkeys pool))) (pool, []))"

definition newlyServing ::
    "(interestID, scopeInterest) gomap \<Rightarrow> interestID list \<Rightarrow> (informerKey, GVK) gomap \<Rightarrow> scopeInterest list" where
  "newlyServing desired started pool =
     sortInterests (map snd (filter (\<lambda>(i, si). i \<notin> set started \<and> mhas pool (siInformer si)) desired))"

definition reconcilePool ::
    "'e passEnv \<Rightarrow> (TargetKey, TargetState) gomap \<Rightarrow> 'e WatchManager \<Rightarrow> 'e WatchManager \<times> watchEffect list" where
  "reconcilePool pe snapshot m =
     (let (r, desired, wanted) = translate pe snapshot (wmResolver m);
          (removed, table) = replace desired (wmTable m);
          started = fold (\<lambda>si. removeAll (interest_id si)) removed (wmStarted m);
          stops = concat (map (\<lambda>si. [EScopeStopped (transition (peGvrString pe) (peAt pe) si),
                                      EEvictScope (siSink si) (siScope si)]) removed);
          (pool, moves) = retain pe wanted (wmPool m);
          fresh = newlyServing desired started pool;
          started = fold (\<lambda>si. List.insert (interest_id si)) fresh started;
          starts = map (\<lambda>si. EScopeStarted (transition (peGvrString pe) (peAt pe) si)) fresh
      in (m\<lparr>wmResolver := r, wmTable := table, wmPool := pool, wmStarted := started, wmDiffs := wmDiffs m + 1\<rparr>,
          stops @ moves @ starts))"

definition markSettled :: "'e WatchManager \<Rightarrow> 'e WatchManager" where
  "markSettled m = (if wmSettled m then m else m\<lparr>wmSettled := True\<rparr>)"

definition stopAll :: "'e WatchManager \<Rightarrow> 'e WatchManager" where
  "stopAll m = m\<lparr>wmPool := []\<rparr>"

section \<open>Lookups\<close>

datatype getError = IndexerFailed string informerKey string | WrongType informerKey string | InformerNotRunning informerKey

datatype cachedObject = CachedUnstructured jobj | CachedOther

type_synonym indexers = "informerKey \<Rightarrow> string \<Rightarrow> string + cachedObject option"

fun getLoop ::
    "indexers \<Rightarrow> (informerKey, GVK) gomap \<Rightarrow> string \<Rightarrow> scopeInterest list \<Rightarrow> informerKey option \<Rightarrow> getError + (jobj option \<times> bool)" where
  "getLoop ix pool ckey [] missing =
     (case missing of Some k \<Rightarrow> Inl (InformerNotRunning k) | None \<Rightarrow> Inr (None, True))"
| "getLoop ix pool ckey (si # sis) missing =
     (if \<not> mhas pool (siInformer si) then getLoop ix pool ckey sis (Some (siInformer si))
      else case ix (siInformer si) ckey of
             Inl err \<Rightarrow> Inl (IndexerFailed ckey (siInformer si) err)
           | Inr None \<Rightarrow> getLoop ix pool ckey sis missing
           | Inr (Some CachedOther) \<Rightarrow> Inl (WrongType (siInformer si) ckey)
           | Inr (Some (CachedUnstructured u)) \<Rightarrow> Inr (Some u, True))"

definition Get :: "indexers \<Rightarrow> 'e WatchManager \<Rightarrow> Key \<Rightarrow> getError + (jobj option \<times> bool)" where
  "Get ix m ref =
     (let interests = lookupIdentity ref (wmTable m)
      in if interests = [] then Inr (None, False)
         else getLoop ix (wmPool m)
                (if kNamespace ref \<noteq> '''' then kNamespace ref @ ''/'' @ kName ref else kName ref) interests None)"

definition RedactionFor :: "'e WatchManager \<Rightarrow> Key \<Rightarrow> RedactionPolicy option" where
  "RedactionFor m ref =
     (case lookupIdentity ref (wmTable m) of
        [] \<Rightarrow> None
      | [si] \<Rightarrow> Some (siRedaction si)
      | sis \<Rightarrow> Some (MergeRedaction (map siRedaction sis)))"

definition ScopeDesired :: "'e WatchManager \<Rightarrow> string \<Rightarrow> ScopeKey \<Rightarrow> bool" where
  "ScopeDesired m sinkName scope = (interestsForScope sinkName scope (wmTable m) \<noteq> [])"

definition ScopeSynced :: "(informerKey \<Rightarrow> bool) \<Rightarrow> 'e WatchManager \<Rightarrow> string \<Rightarrow> ScopeKey \<Rightarrow> bool" where
  "ScopeSynced hasSynced m sinkName scope =
     (let interests = interestsForScope sinkName scope (wmTable m)
      in interests \<noteq> [] \<and> (\<forall>si \<in> set interests. mhas (wmPool m) (siInformer si) \<and> hasSynced (siInformer si)))"

section \<open>The indexes\<close>

lemma mlist_mappend: "mlist (mappend key v m) k = mlist m k @ (if key v = k then [v] else [])"
  by (simp add: mlist_def mappend_def)

lemma mlist_index: "mlist (fold (mappend key) vs m) k = mlist m k @ filter (\<lambda>v. key v = k) vs"
  by (induction vs arbitrary: m) (simp_all add: mlist_mappend)

lemma mlist_map: "f [] = [] \<Longrightarrow> mlist (map (\<lambda>(k, vs). (k, f vs)) m) k = f (mlist m k)"
  by (simp add: mlist_def map_of_map split: option.split)

definition tableOf :: "(interestID, scopeInterest) gomap \<Rightarrow> interestTable" where
  "tableOf desired = snd (replace desired newInterestTable)"

lemma replace_table [simp]: "snd (replace desired t) = tableOf desired"
  by (simp add: tableOf_def replace_def Let_def)

lemma itCurrent_tableOf [simp]: "itCurrent (tableOf desired) = desired"
  by (simp add: tableOf_def replace_def Let_def)

lemma replace_removed: "set (fst (replace desired t)) = {si. \<exists>i. (i, si) \<in> set (itCurrent t) \<and> \<not> mhas desired i}"
  by (force simp: replace_def Let_def sortInterests_def)

lemma interestsFor_tableOf: "interestsFor key (tableOf desired) = sort_key siSink (filter (\<lambda>si. siInformer si = key) (map snd desired))"
  by (simp add: interestsFor_def tableOf_def replace_def Let_def mlist_map mlist_index mlist_def [of "[]"])

lemma identity_index: "mlist (itByIdentity (tableOf desired)) k = filter (\<lambda>si. identity si = k) (map snd desired)"
  by (simp add: tableOf_def replace_def Let_def mlist_index mlist_def [of "[]"])

text \<open>An interest covers a key when it watches the kind for the sink in the key's namespace or in all of
  them.\<close>

definition covers :: "scopeInterest \<Rightarrow> Key \<Rightarrow> bool" where
  "covers si ref \<longleftrightarrow> siSink si = kSink ref \<and> gGroup (siGVK si) = kGroup ref \<and> gKind (siGVK si) = kKind ref \<and>
     ikNamespace (siInformer si) \<in> {kNamespace ref, ''''}"

lemma lookupIdentity_covers: "set (lookupIdentity ref (tableOf desired)) = {si \<in> set (map snd desired). covers si ref}"
  by (auto simp: lookupIdentity_def Let_def identity_index identity_def covers_def filter_empty_conv split: if_splits)

definition inScope :: "scopeInterest \<Rightarrow> string \<Rightarrow> ScopeKey \<Rightarrow> bool" where
  "inScope si s scope \<longleftrightarrow> siSink si = s \<and> gGroup (siGVK si) = sGroup scope \<and> gKind (siGVK si) = sKind scope \<and>
     ikNamespace (siInformer si) = sNamespace scope"

lemma interestsForScope_tableOf:
  "set (interestsForScope s scope (tableOf desired)) = {si \<in> set (map snd desired). inScope si s scope}"
  by (auto simp: interestsForScope_def identity_index identity_def inScope_def)

section \<open>Translation\<close>

text \<open>An interest as \<open>newScopeInterest\<close> builds it.\<close>

definition interest_ok :: "scopeInterest \<Rightarrow> bool" where
  "interest_ok si \<longleftrightarrow>
     siScope si = \<lparr>sGroup = gGroup (siGVK si), sKind = gKind (siGVK si), sNamespace = ikNamespace (siInformer si)\<rparr>"

lemma newScopeInterest_Inr:
  assumes "newScopeInterest parse key informer selectors redactions ruleKeys = Inr si"
  shows "siInformer si = informer" "siSink si = tkSink key" "siGVK si = tkGVK key" "siRuleKeys si = ruleKeys"
    and "ikNamespace informer = tkNamespace key \<Longrightarrow> interest_ok si"
    and "(redactionPaths redactions = [] \<and> siRedaction si = None) \<or>
         (redactionPaths redactions \<noteq> [] \<and> CompileRedaction (redactionPaths redactions) = Inr (siRedaction si))"
  using assms by (auto simp: newScopeInterest_def Let_def interest_ok_def split: sum.splits if_splits)

lemma Resolve_Inr: "Resolve f mapper now later gvk r = (Inr res, r') \<Longrightarrow> mapper gvk = Inr res"
  by (auto simp: Resolve_def Let_def split: option.splits sum.splits)

text \<open>What a target contributes, given how its kind resolves in this pass.\<close>

definition translation_of :: "'e passEnv \<Rightarrow> TargetKey \<times> TargetState \<Rightarrow> scopeInterest \<Rightarrow> bool" where
  "translation_of pe ks si \<longleftrightarrow>
     (\<exists>gvr namespaced. peMapper pe (tkGVK (fst ks)) = Inr (gvr, namespaced) \<and> (tkNamespace (fst ks) \<noteq> '''' \<longrightarrow> namespaced) \<and>
        newScopeInterest (peParse pe) (fst ks) \<lparr>ikGVR = gvr, ikNamespace = tkNamespace (fst ks)\<rparr>
          (tsSelectors (snd ks)) (tsRedactions (snd ks)) (tsRuleKeys (snd ks)) = Inr si)"

definition translated :: "'e passEnv \<Rightarrow> (TargetKey \<times> TargetState) set \<Rightarrow>
    (interestID, scopeInterest) gomap \<Rightarrow> (informerKey, GVK) gomap \<Rightarrow> bool" where
  "translated pe snapshot desired wanted \<longleftrightarrow>
     mwf desired \<and> mwf wanted \<and>
     (\<forall>(i, si) \<in> set desired. i = interest_id si \<and> (\<exists>ks \<in> snapshot. translation_of pe ks si)) \<and>
     set (mkeys wanted) = siInformer ` set (map snd desired)"

lemma mput_set: "mwf m \<Longrightarrow> set (mput k v m) = insert (k, v) {(k', v') \<in> set m. k' \<noteq> k}"
  by (induction m) (auto intro: rev_image_eqI)

lemma translated_put:
  assumes tr: "translated pe S desired wanted" and "ks \<in> S" "translation_of pe ks si"
  shows "translated pe S (mput (interest_id si) si desired) (mput (siInformer si) gvk wanted)"
proof -
  have wf: "mwf desired" "mwf wanted" and keys: "set (mkeys wanted) = siInformer ` set (map snd desired)"
    and ids: "\<And>i s. (i, s) \<in> set desired \<Longrightarrow> i = interest_id s \<and> (\<exists>ks \<in> S. translation_of pe ks s)"
    using tr by (auto simp: translated_def)
  define rest where "rest = {(i, s) \<in> set desired. i \<noteq> interest_id si}"
  have set': "set (mput (interest_id si) si desired) = insert (interest_id si, si) rest"
    by (simp add: mput_set [OF wf(1)] rest_def)
  have "insert (siInformer si) (siInformer ` snd ` rest) = insert (siInformer si) (siInformer ` snd ` set desired)"
  proof (rule set_eqI, rule iffI)
    fix k assume "k \<in> insert (siInformer si) (siInformer ` snd ` set desired)"
    then consider "k = siInformer si" | i s where "(i, s) \<in> set desired" "k = siInformer s" by auto
    then show "k \<in> insert (siInformer si) (siInformer ` snd ` rest)"
    proof cases
      case 2
      then show ?thesis using ids [OF 2(1)] by (cases "i = interest_id si") (force simp: rest_def interest_id_def)+
    qed simp
  qed (auto simp: rest_def)
  then have "set (mkeys (mput (siInformer si) gvk wanted)) = siInformer ` set (map snd (mput (interest_id si) si desired))"
    unfolding set_mput keys by (simp add: set' image_image)
  moreover have "\<forall>(i, s) \<in> set (mput (interest_id si) si desired). i = interest_id s \<and> (\<exists>ks \<in> S. translation_of pe ks s)"
    unfolding set' using ids assms(2,3) by (auto simp: rest_def)
  ultimately show ?thesis using wf by (simp add: translated_def)
qed

lemma translateTarget_step:
  assumes "translateTarget pe ks (n, r, desired, wanted) = (n', r', desired', wanted')"
  shows "(desired', wanted') = (desired, wanted) \<or>
    (\<exists>si. translation_of pe ks si \<and> desired' = mput (interest_id si) si desired \<and> wanted' = mput (siInformer si) (tkGVK (fst ks)) wanted)"
proof -
  obtain key state where ks: "ks = (key, state)" by fastforce
  obtain res q where res: "Resolve (peIsNoMatch pe) (peMapper pe) (peClock pe (2 * n)) (peClock pe (2 * n + 1)) (tkGVK key) r = (res, q)"
    by fastforce
  show ?thesis
  proof (cases res)
    case (Inl err)
    then show ?thesis using assms res ks by (simp add: translateTarget_def)
  next
    case (Inr x)
    obtain gvr namespaced where x: "x = (gvr, namespaced)" by fastforce
    have map: "peMapper pe (tkGVK key) = Inr (gvr, namespaced)" using Resolve_Inr [OF res [unfolded Inr]] x by simp
    define informer where "informer = \<lparr>ikGVR = gvr, ikNamespace = tkNamespace key\<rparr>"
    define built where "built = newScopeInterest (peParse pe) key informer (tsSelectors state) (tsRedactions state) (tsRuleKeys state)"
    show ?thesis
    proof (cases "(tkNamespace key \<noteq> '''' \<and> \<not> namespaced) \<or> (\<exists>e. built = Inl e)")
      case True
      then show ?thesis using assms res ks Inr x by (auto simp: translateTarget_def Let_def built_def informer_def split: if_splits)
    next
      case False
      then obtain si where si: "built = Inr si" by (cases built) auto
      then have "siInformer si = informer" using newScopeInterest_Inr(1) by (simp add: built_def)
      moreover have "translation_of pe ks si" using False si map ks by (auto simp: translation_of_def built_def informer_def)
      moreover have "translateTarget pe ks (n, r, desired, wanted) =
          (n + 1, q, mput (interest_id si) si desired, mput informer (tkGVK key) wanted)"
        using res False si by (auto simp: translateTarget_def ks Inr x Let_def built_def informer_def)
      ultimately show ?thesis using assms ks by (intro disjI2 exI [of _ si]) auto
    qed
  qed
qed

lemma translate_translated:
  assumes "translate pe snapshot r = (r', desired, wanted)"
  shows "translated pe (set snapshot) desired wanted"
proof -
  have "translated pe (set snapshot) desired' wanted'"
    if "fold (translateTarget pe) ks (n, r, d, w) = (n', r', desired', wanted')" "set ks \<subseteq> set snapshot" "translated pe (set snapshot) d w"
    for ks n r d w n' r' desired' wanted'
    using that
  proof (induction ks arbitrary: n r d w)
    case (Cons k ks)
    obtain n1 r1 d1 w1 where t: "translateTarget pe k (n, r, d, w) = (n1, r1, d1, w1)" by (metis prod_cases4)
    have "translated pe (set snapshot) d1 w1"
      using translateTarget_step [OF t] translated_put [OF Cons.prems(3), of k] Cons.prems(2,3) by auto
    with Cons.IH [of n1 r1 d1 w1] show ?case using Cons.prems t by simp
  qed simp
  moreover have "translated pe (set snapshot) [] []" by (simp add: translated_def)
  moreover obtain n where "fold (translateTarget pe) snapshot (0, r, [], []) = (n, r', desired, wanted)"
    using assms unfolding translate_def by (cases "fold (translateTarget pe) snapshot (0, r, [], [])") simp
  ultimately show ?thesis by blast
qed

section \<open>The pool\<close>

definition pool_effect :: "watchEffect \<Rightarrow> bool" where
  "pool_effect e \<longleftrightarrow> (\<exists>k. e = EStopInformer k \<or> e = EStartInformer k)"

definition keySet :: "('k, 'v) gomap \<Rightarrow> 'k set" where
  "keySet m = set (mkeys m)"

lemma keySet_simps [simp]:
  "keySet (mput k v m) = insert k (keySet m)" "keySet (mdel k m) = keySet m - {k}" "keySet [] = {}"
  by (simp_all add: keySet_def set_mput set_mdel del: set_map)

lemma mhas_keySet: "mhas m k \<longleftrightarrow> k \<in> keySet m"
  by (simp add: mhas_iff keySet_def)

lemma fold_stop:
  "\<exists>pool' moves. fold stop ks (pool, effs) = (pool', effs @ moves) \<and> keySet pool' = keySet pool - set ks \<and>
     (\<forall>e \<in> set moves. pool_effect e) \<and> (set ks \<inter> keySet pool = {} \<longrightarrow> pool' = pool \<and> moves = [])"
proof (induction ks arbitrary: pool effs)
  case (Cons k ks)
  show ?case
  proof (cases "k \<in> keySet pool")
    case True
    then have step: "stop k (pool, effs) = (mdel k pool, effs @ [EStopInformer k])" by (simp add: stop_def mhas_keySet)
    obtain pool' moves where "fold stop ks (mdel k pool, effs @ [EStopInformer k]) = (pool', (effs @ [EStopInformer k]) @ moves)"
      "keySet pool' = keySet (mdel k pool) - set ks" "\<forall>e \<in> set moves. pool_effect e"
      using Cons.IH [of "mdel k pool" "effs @ [EStopInformer k]"] by blast
    then show ?thesis using True step
      by (intro exI [of _ pool'] exI [of _ "EStopInformer k # moves"]) (auto simp: pool_effect_def)
  next
    case False
    then show ?thesis using Cons.IH [of pool effs] by (auto simp: stop_def mhas_keySet)
  qed
qed simp

lemma fold_start:
  "\<exists>pool' moves. fold (startInformer pe wanted) ks (pool, effs) = (pool', effs @ moves) \<and>
     keySet pool' = keySet pool \<union> {k \<in> set ks. \<not> peStartFails pe k} \<and>
     (\<forall>e \<in> set moves. pool_effect e) \<and> (set ks \<subseteq> keySet pool \<longrightarrow> pool' = pool \<and> moves = [])"
proof (induction ks arbitrary: pool effs)
  case (Cons k ks)
  show ?case
  proof (cases "k \<in> keySet pool \<or> peStartFails pe k")
    case True
    then have step: "startInformer pe wanted k (pool, effs) = (pool, effs)" by (auto simp: startInformer_def mhas_keySet)
    obtain pool' moves where "fold (startInformer pe wanted) ks (pool, effs) = (pool', effs @ moves)"
      "keySet pool' = keySet pool \<union> {k \<in> set ks. \<not> peStartFails pe k}" "\<forall>e \<in> set moves. pool_effect e"
      "set ks \<subseteq> keySet pool \<longrightarrow> pool' = pool \<and> moves = []"
      using Cons.IH [of pool effs] by blast
    then show ?thesis using True step by (intro exI [of _ pool'] exI [of _ moves]) auto
  next
    case False
    then have step: "startInformer pe wanted k (pool, effs) = (mput k (the (mget wanted k)) pool, effs @ [EStartInformer k])"
      by (simp add: startInformer_def mhas_keySet)
    obtain pool' moves where "fold (startInformer pe wanted) ks (mput k (the (mget wanted k)) pool, effs @ [EStartInformer k])
        = (pool', (effs @ [EStartInformer k]) @ moves)"
      "keySet pool' = keySet (mput k (the (mget wanted k)) pool) \<union> {k \<in> set ks. \<not> peStartFails pe k}" "\<forall>e \<in> set moves. pool_effect e"
      using Cons.IH [of "mput k (the (mget wanted k)) pool" "effs @ [EStartInformer k]"] by blast
    then show ?thesis using False step
      by (intro exI [of _ pool'] exI [of _ "EStartInformer k # moves"]) (auto simp: pool_effect_def)
  qed
qed simp

lemma retain_spec:
  assumes "retain pe wanted pool = (pool', moves)"
  shows "keySet pool' = {k \<in> keySet wanted. k \<in> keySet pool \<or> \<not> peStartFails pe k}"
    and "\<forall>e \<in> set moves. pool_effect e"
    and "keySet pool = keySet wanted \<Longrightarrow> pool' = pool \<and> moves = []"
proof -
  define gone where "gone = filter (\<lambda>k. \<not> mhas wanted k) (sortInformers (peGvrString pe) (mkeys pool))"
  define ks where "ks = sortInformers (peGvrString pe) (mkeys wanted)"
  have sets: "set gone = keySet pool - keySet wanted" "set ks = keySet wanted"
    by (auto simp: gone_def ks_def sortInformers_def mhas_keySet keySet_def simp del: set_map)
  obtain p1 m1 where s: "fold stop gone (pool, []) = (p1, m1)" "keySet p1 = keySet pool - set gone"
    "\<forall>e \<in> set m1. pool_effect e" "set gone \<inter> keySet pool = {} \<longrightarrow> p1 = pool \<and> m1 = []"
    using fold_stop [of gone pool "[]"] by auto
  obtain p2 m2 where t: "fold (startInformer pe wanted) ks (p1, m1) = (p2, m1 @ m2)"
    "keySet p2 = keySet p1 \<union> {k \<in> set ks. \<not> peStartFails pe k}"
    "\<forall>e \<in> set m2. pool_effect e" "set ks \<subseteq> keySet p1 \<longrightarrow> p2 = p1 \<and> m2 = []"
    using fold_start [of pe wanted ks p1 m1] by blast
  have eq: "pool' = p2" "moves = m1 @ m2" using assms s(1) t(1) by (auto simp: retain_def gone_def ks_def)
  show "keySet pool' = {k \<in> keySet wanted. k \<in> keySet pool \<or> \<not> peStartFails pe k}"
    unfolding eq t(2) s(2) sets by blast
  show "\<forall>e \<in> set moves. pool_effect e" unfolding eq using s(3) t(3) by auto
  show "pool' = pool \<and> moves = []" if same: "keySet pool = keySet wanted"
  proof -
    have "p1 = pool \<and> m1 = []" using s(4) unfolding sets same by blast
    moreover from this have "p2 = p1 \<and> m2 = []" using t(4) unfolding sets using same by blast
    ultimately show ?thesis using eq by simp
  qed
qed

text \<open>Interest maps are keyed by the identity of their interests.\<close>

definition keyed :: "(interestID, scopeInterest) gomap \<Rightarrow> bool" where
  "keyed m \<longleftrightarrow> (\<forall>(i, si) \<in> set m. i = interest_id si)"

lemma keyed_mem: "keyed m \<Longrightarrow> (i, si) \<in> set m \<longleftrightarrow> i = interest_id si \<and> si \<in> set (map snd m)"
  by (force simp: keyed_def)

lemma mhas_keyed: "keyed m \<Longrightarrow> mhas m i \<longleftrightarrow> i \<in> interest_id ` set (map snd m)"
  by (force simp: mhas_iff keyed_def)

lemma removed_keyed:
  assumes "keyed desired" "keyed (itCurrent t)"
  shows "set (fst (replace desired t)) = {si \<in> set (map snd (itCurrent t)). interest_id si \<notin> interest_id ` set (map snd desired)}"
  unfolding replace_removed mhas_keyed [OF assms(1)] keyed_mem [OF assms(2)] by blast

lemma set_map_filter: "set (map snd (filter P m)) = {v. \<exists>k. (k, v) \<in> set m \<and> P (k, v)}"
  by force

lemma newlyServing_keyed:
  assumes "keyed desired"
  shows "set (newlyServing desired started pool) =
    {si \<in> set (map snd desired). interest_id si \<notin> set started \<and> siInformer si \<in> keySet pool}"
  unfolding newlyServing_def sortInterests_def set_sort set_map_filter keyed_mem [OF assms] by (auto simp: mhas_keySet)

section \<open>Passes\<close>

definition running :: "'e WatchManager \<Rightarrow> scopeInterest \<Rightarrow> bool" where
  "running m si \<longleftrightarrow> siInformer si \<in> keySet (wmPool m)"

definition interests :: "'e WatchManager \<Rightarrow> scopeInterest set" where
  "interests m = set (map snd (itCurrent (wmTable m)))"

definition watch_inv :: "'e WatchManager \<Rightarrow> bool" where
  "watch_inv m \<longleftrightarrow>
     wmTable m = tableOf (itCurrent (wmTable m)) \<and> mwf (itCurrent (wmTable m)) \<and>
     keyed (itCurrent (wmTable m)) \<and> (\<forall>si \<in> interests m. interest_ok si) \<and>
     set (wmStarted m) = interest_id ` {si \<in> interests m. running m si}"

lemma set_fold_removeAll: "set (fold (\<lambda>x. removeAll (f x)) xs ys) = set ys - f ` set xs"
  by (induction xs arbitrary: ys) auto

lemma set_fold_insert: "set (fold (\<lambda>x. List.insert (f x)) xs ys) = set ys \<union> f ` set xs"
  by (induction xs arbitrary: ys) auto

text \<open>What a pass does, in terms of the interests before and after it.\<close>

definition passSpec ::
    "'e passEnv \<Rightarrow> (TargetKey, TargetState) gomap \<Rightarrow> 'e WatchManager \<Rightarrow> 'e WatchManager \<Rightarrow>
     scopeInterest list \<Rightarrow> watchEffect list \<Rightarrow> scopeInterest list \<Rightarrow> bool" where
  "passSpec pe snapshot m m' removed moves fresh \<longleftrightarrow>
     (\<forall>si \<in> interests m'. \<exists>ks \<in> set snapshot. translation_of pe ks si) \<and>
     set removed = {si \<in> interests m. interest_id si \<notin> interest_id ` interests m'} \<and>
     keySet (wmPool m') = {k \<in> siInformer ` interests m'. k \<in> keySet (wmPool m) \<or> \<not> peStartFails pe k} \<and>
     set fresh = {si \<in> interests m'. running m' si \<and> interest_id si \<notin> set (wmStarted m)} \<and>
     set (wmStarted m') = (set (wmStarted m) - interest_id ` set removed) \<union> interest_id ` set fresh \<and>
     (\<forall>e \<in> set moves. pool_effect e)"

lemma translation_ok: "translation_of pe ks si \<Longrightarrow> interest_ok si"
  by (auto simp: translation_of_def dest: newScopeInterest_Inr(5))

lemma reconcilePool_spec:
  assumes inv: "watch_inv m" and pass: "reconcilePool pe snapshot m = (m', effs)"
  obtains removed moves fresh where "passSpec pe snapshot m m' removed moves fresh" "watch_inv m'"
    "effs = concat (map (\<lambda>si. [EScopeStopped (transition (peGvrString pe) (peAt pe) si), EEvictScope (siSink si) (siScope si)]) removed)
       @ moves @ map (\<lambda>si. EScopeStarted (transition (peGvrString pe) (peAt pe) si)) fresh"
proof -
  obtain r desired wanted where tr: "translate pe snapshot (wmResolver m) = (r, desired, wanted)" by (metis prod_cases3)
  define removed where "removed = fst (replace desired (wmTable m))"
  obtain pool moves where rt: "retain pe wanted (wmPool m) = (pool, moves)" by fastforce
  define left where "left = fold (\<lambda>si. removeAll (interest_id si)) removed (wmStarted m)"
  define fresh where "fresh = newlyServing desired left pool"
  have m': "m' = m\<lparr>wmResolver := r, wmTable := tableOf desired, wmPool := pool,
      wmStarted := fold (\<lambda>si. List.insert (interest_id si)) fresh left, wmDiffs := wmDiffs m + 1\<rparr>"
    and effs: "effs = concat (map (\<lambda>si. [EScopeStopped (transition (peGvrString pe) (peAt pe) si), EEvictScope (siSink si) (siScope si)]) removed)
       @ moves @ map (\<lambda>si. EScopeStarted (transition (peGvrString pe) (peAt pe) si)) fresh"
    using pass tr rt by (auto simp: reconcilePool_def removed_def left_def fresh_def Let_def case_prod_beta)
  have now: "interests m' = set (map snd desired)" by (simp add: interests_def m')
  have td: "translated pe (set snapshot) desired wanted" by (rule translate_translated [OF tr])
  have ids: "keyed desired" and wf: "mwf desired" and wk: "keySet wanted = siInformer ` interests m'"
    and src: "\<forall>si \<in> interests m'. \<exists>ks \<in> set snapshot. translation_of pe ks si"
    using td unfolding translated_def now keySet_def keyed_def by (blast, blast, blast, fastforce)
  have old: "keyed (itCurrent (wmTable m))" and st: "set (wmStarted m) = interest_id ` {si \<in> interests m. running m si}"
    using inv unfolding watch_inv_def by blast+
  have rem: "set removed = {si \<in> interests m. interest_id si \<notin> interest_id ` interests m'}"
    unfolding removed_def removed_keyed [OF ids old] now by (simp only: interests_def)
  have pool: "keySet pool = {k \<in> siInformer ` interests m'. k \<in> keySet (wmPool m) \<or> \<not> peStartFails pe k}"
    using retain_spec(1) [OF rt] wk by simp
  have left_set: "set left = set (wmStarted m) \<inter> interest_id ` interests m'"
    unfolding left_def set_fold_removeAll rem st by blast
  have fr: "set fresh = {si \<in> interests m'. running m' si \<and> interest_id si \<notin> set (wmStarted m)}"
    unfolding fresh_def newlyServing_keyed [OF ids] left_set now running_def by (auto simp: m')
  have "set (wmStarted m') = interest_id ` {si \<in> interests m'. running m' si}"
  proof -
    have "set (wmStarted m') = set left \<union> interest_id ` set fresh" by (simp add: m' set_fold_insert)
    also have "\<dots> = interest_id ` {si \<in> interests m'. running m' si}"
    proof (rule set_eqI, rule iffI)
      fix i assume "i \<in> set left \<union> interest_id ` set fresh"
      then consider "i \<in> set left" | "i \<in> interest_id ` set fresh" by blast
      then show "i \<in> interest_id ` {si \<in> interests m'. running m' si}"
      proof cases
        case 1
        then obtain si where si: "si \<in> interests m'" "i = interest_id si" "i \<in> set (wmStarted m)" using left_set by blast
        then have "siInformer si \<in> keySet (wmPool m)" using st by (auto simp: running_def interest_id_def)
        then have "running m' si" using si(1) pool by (simp add: running_def m' now)
        then show ?thesis using si by blast
      qed (use fr in blast)
    qed (use fr left_set in blast)
    finally show ?thesis .
  qed
  moreover have "\<forall>si \<in> interests m'. interest_ok si" using src translation_ok by blast
  moreover have "wmTable m' = tableOf (itCurrent (wmTable m'))" "itCurrent (wmTable m') = desired" by (simp_all add: m')
  ultimately have "watch_inv m'" using wf ids unfolding watch_inv_def by (simp only: simp_thms)
  moreover have "set (wmStarted m') = (set (wmStarted m) - interest_id ` set removed) \<union> interest_id ` set fresh"
    by (simp add: m' set_fold_insert left_def set_fold_removeAll)
  then have "passSpec pe snapshot m m' removed moves fresh"
    using src rem pool fr retain_spec(2) [OF rt] unfolding passSpec_def by (simp add: m')
  ultimately show ?thesis using effs that by blast
qed

end
