(* ===== verification/WatchRuns.thy ===== *)
theory WatchRuns
imports Watch Pipeline
begin

text \<open>
  Runs of the watch manager and what its neighbours may rely on: a pass moves the pool to the desired
  state and a repeated pass is silent; together with the recorder the scope log shows a scope open
  exactly while an informer serves it; the two lookups of the pipeline agree, so that a handler that
  sees an active scope finds its redaction policy, the union of what the covering rules ask for; and
  an event reaches exactly the interested sinks.
\<close>

section \<open>Convergence\<close>

inductive watch_reach :: "'e WatchManager \<Rightarrow> bool" where
  watch_new: "newWatchManager True (Some r) True True = Inr m \<Longrightarrow> watch_reach m"
| watch_pass: "watch_reach m \<Longrightarrow> reconcilePool pe snapshot m = (m', effs) \<Longrightarrow> watch_reach m'"
| watch_settle: "watch_reach m \<Longrightarrow> watch_reach (markSettled m)"

lemma new_inv: "newWatchManager True (Some r) True True = Inr m \<Longrightarrow> watch_inv m \<and> interests m = {} \<and> wmStarted m = []"
  by (auto simp: newWatchManager_def watch_inv_def newInterestTable_def tableOf_def replace_def interests_def keyed_def Let_def
      sortInterests_def)

lemma settle_inv: "watch_inv (markSettled m) = watch_inv m" "interests (markSettled m) = interests m" "running (markSettled m) = running m"
  by (auto simp: watch_inv_def markSettled_def interests_def running_def fun_eq_iff)

lemma watch_reach_inv: "watch_reach m \<Longrightarrow> watch_inv m"
proof (induction rule: watch_reach.induct)
  case (watch_pass m pe snapshot m' effs)
  from watch_pass.IH watch_pass.hyps(2) show ?case by (rule reconcilePool_spec)
qed (simp_all add: new_inv settle_inv)

lemma quiet_pass:
  assumes inv: "watch_inv m" and tr: "translate pe snapshot (wmResolver m) = (r, itCurrent (wmTable m), wanted)"
    and all: "\<forall>si \<in> interests m. running m si" and pool: "keySet (wmPool m) = siInformer ` interests m"
  shows "snd (reconcilePool pe snapshot m) = [] \<and> wmPool (fst (reconcilePool pe snapshot m)) = wmPool m \<and>
    wmTable (fst (reconcilePool pe snapshot m)) = wmTable m \<and> wmStarted (fst (reconcilePool pe snapshot m)) = wmStarted m"
proof -
  define d where "d = itCurrent (wmTable m)"
  have kd: "keyed d" and ds: "set (map snd d) = interests m" and tab: "wmTable m = tableOf d"
    using inv unfolding watch_inv_def d_def interests_def by blast+
  have "set (fst (replace d (wmTable m))) = {}"
    using removed_keyed [OF kd, of "wmTable m"] kd by (auto simp: d_def)
  then have rem: "replace d (wmTable m) = ([], tableOf d)" by (simp add: prod_eq_iff)
  have "translated pe (set snapshot) d wanted" using translate_translated [OF tr] by (simp add: d_def)
  then have "keySet wanted = siInformer ` interests m" unfolding translated_def keySet_def ds by blast
  then have "keySet (wmPool m) = keySet wanted" using pool by simp
  then have rt: "retain pe wanted (wmPool m) = (wmPool m, [])"
    using retain_spec(3) [of pe wanted "wmPool m"] by (cases "retain pe wanted (wmPool m)") simp
  have "set (newlyServing d (wmStarted m) (wmPool m)) = {}"
    using newlyServing_keyed [OF kd, of "wmStarted m" "wmPool m"] inv all unfolding watch_inv_def ds by auto
  then have new: "newlyServing d (wmStarted m) (wmPool m) = []" by simp
  show ?thesis using tr rem rt new tab by (simp add: reconcilePool_def d_def [symmetric])
qed


definition samplePass :: "(informerKey \<Rightarrow> bool) \<Rightarrow> int \<Rightarrow> unit passEnv" where
  "samplePass fails at = \<lparr>peIsNoMatch = (\<lambda>e. True),
     peMapper = (\<lambda>gvk. if gKind gvk = ''Pod'' then Inr (\<lparr>vGroup = '''', vVersion = ''v1'', vResource = ''pods''\<rparr>, True) else Inl ()),
     peClock = int, peAt = at, peParse = (\<lambda>s. Inl ''''), peGvrString = vResource, peStartFails = fails\<rparr>"

definition sampleTargetKey :: TargetKey where
  "sampleTargetKey = \<lparr>tkSink = ''s'', tkGVK = \<lparr>gGroup = '''', gVersion = ''v1'', gKind = ''Pod''\<rparr>, tkNamespace = ''ns''\<rparr>"

definition sampleSnapshot :: "string \<Rightarrow> (TargetKey, TargetState) gomap" where
  "sampleSnapshot redaction = [(sampleTargetKey, \<lparr>tsKey = sampleTargetKey, tsRuleKeys = [''rule''], tsSelectors = [''''], tsRedactions = [redaction]\<rparr>)]"

definition sampleManager :: "unit WatchManager" where
  "sampleManager = \<lparr>wmResolver = NewResolver, wmTable = newInterestTable, wmPool = [], wmStarted = [], wmSettled = False, wmDiffs = 0\<rparr>"

lemma sampleManager_new: "newWatchManager True (Some NewResolver) True True = Inr sampleManager"
  by (simp add: newWatchManager_def sampleManager_def)

lemma sampleManager_reach: "watch_reach sampleManager"
  by (rule watch_new [OF sampleManager_new])


section \<open>The scope log follows the informers\<close>

fun notify :: "watchEffect \<Rightarrow> ScopeEpochRecorder \<Rightarrow> ScopeEpochRecorder" where
  "notify (EScopeStopped t) r = ScopeStopped t r"
| "notify (EScopeStarted t) r = ScopeStarted t r"
| "notify _ r = r"

lemma targetsOf_stopped:
  "targetsOf key (ScopeStopped t r) =
     (if key = \<lparr>skSink = stSink t, skScope = stScope t\<rparr> then removeAll (stTarget t) (targetsOf key r) else targetsOf key r)"
proof -
  have sel: "targetsOf key (callWarmer c (signal (enqueueLocked s e r))) = targetsOf key r" for c s e r
    by (simp add: targetsOf_def)
  show ?thesis
    by (auto simp: ScopeStopped_def Let_def sel) (auto simp: targetsOf_def removeAll_id)
qed

lemma targetsOf_started:
  "targetsOf key (ScopeStarted t r) =
     (if key = \<lparr>skSink = stSink t, skScope = stScope t\<rparr> then List.insert (stTarget t) (targetsOf key r) else targetsOf key r)"
proof -
  have sel: "targetsOf key (callWarmer c (signal (enqueueLocked s e r))) = targetsOf key r" for c s e r
    by (simp add: targetsOf_def)
  show ?thesis by (auto simp: ScopeStarted_def Let_def sel) (auto simp: targetsOf_def)
qed

text \<open>A resource is served under one kind (\<open>kindOf\<close>), so an interest's scope is determined by its
  identity.\<close>

definition idKey :: "(GVR \<Rightarrow> GVK) \<Rightarrow> interestID \<Rightarrow> scopeKey" where
  "idKey kindOf i = \<lparr>skSink = iiSink i, skScope = \<lparr>sGroup = gGroup (kindOf (ikGVR (iiInformer i))),
     sKind = gKind (kindOf (ikGVR (iiInformer i))), sNamespace = ikNamespace (iiInformer i)\<rparr>\<rparr>"

definition mirrored :: "(GVR \<Rightarrow> string) \<Rightarrow> (GVR \<Rightarrow> GVK) \<Rightarrow> interestID set \<Rightarrow> ScopeEpochRecorder \<Rightarrow> bool" where
  "mirrored gvrString kindOf started r \<longleftrightarrow>
     (\<forall>key. set (targetsOf key r) = (\<lambda>i. informerString gvrString (iiInformer i)) ` {i \<in> started. idKey kindOf i = key})"

text \<open>An interest whose kind is the one of its resource, over an informer of the set \<open>K\<close>.\<close>

definition proper :: "(GVR \<Rightarrow> GVK) \<Rightarrow> informerKey set \<Rightarrow> scopeInterest \<Rightarrow> bool" where
  "proper kindOf K si \<longleftrightarrow> interest_ok si \<and> siGVK si = kindOf (ikGVR (siInformer si)) \<and> siInformer si \<in> K"

lemma proper_key: "proper kindOf K si \<Longrightarrow>
    \<lparr>skSink = stSink (transition g at si), skScope = stScope (transition g at si)\<rparr> = idKey kindOf (interest_id si)"
  by (simp add: proper_def interest_ok_def idKey_def interest_id_def transition_def)

lemma idKey_sink: "idKey kindOf i = idKey kindOf j \<Longrightarrow> iiInformer i = iiInformer j \<Longrightarrow> i = j"
  by (cases i; cases j) (simp add: idKey_def)

lemma mirrored_stop:
  assumes "mirrored g kindOf S r" "proper kindOf K si" "inj_on (informerString g) K" "iiInformer ` S \<subseteq> K"
  shows "mirrored g kindOf (S - {interest_id si}) (ScopeStopped (transition g at si) r)"
  unfolding mirrored_def
proof
  fix key
  define i0 where "i0 = interest_id si"
  define f :: "interestID \<Rightarrow> string" where "f = (\<lambda>i. informerString g (iiInformer i))"
  have t: "stTarget (transition g at si) = f i0" by (simp add: transition_def f_def i0_def interest_id_def)
  have K: "iiInformer i0 \<in> K" using assms(2) by (simp add: proper_def i0_def interest_id_def)
  have old: "set (targetsOf key r) = f ` {i \<in> S. idKey kindOf i = key}" using assms(1) by (simp add: mirrored_def f_def)
  have new: "targetsOf key (ScopeStopped (transition g at si) r) =
      (if key = idKey kindOf i0 then removeAll (f i0) (targetsOf key r) else targetsOf key r)"
    unfolding targetsOf_stopped t proper_key [OF assms(2)] i0_def ..
  have same: "i = i0" if "i \<in> S" "idKey kindOf i = idKey kindOf i0" "f i = f i0" for i
  proof -
    have "iiInformer i \<in> K" using that(1) assms(4) by blast
    then have "iiInformer i = iiInformer i0" by (rule inj_onD [OF assms(3) _ _ K, rotated]) (use that(3) in \<open>simp add: f_def\<close>)
    then show ?thesis using that(2) idKey_sink by blast
  qed
  show "set (targetsOf key (ScopeStopped (transition g at si) r)) =
      (\<lambda>i. informerString g (iiInformer i)) ` {i \<in> S - {interest_id si}. idKey kindOf i = key}"
    unfolding f_def [symmetric] i0_def [symmetric]
  proof (cases "key = idKey kindOf i0")
    case True
    have "f ` {i \<in> S. idKey kindOf i = key} - {f i0} = f ` {i \<in> S - {i0}. idKey kindOf i = key}"
    proof (rule set_eqI, rule iffI)
      fix x assume "x \<in> f ` {i \<in> S. idKey kindOf i = key} - {f i0}"
      then obtain i where "i \<in> S" "idKey kindOf i = key" "x = f i" "f i \<noteq> f i0" by auto
      then show "x \<in> f ` {i \<in> S - {i0}. idKey kindOf i = key}" by auto
    next
      fix x assume "x \<in> f ` {i \<in> S - {i0}. idKey kindOf i = key}"
      then obtain i where i: "i \<in> S" "i \<noteq> i0" "idKey kindOf i = key" "x = f i" by auto
      then have "f i \<noteq> f i0" using same [of i] True by auto
      then show "x \<in> f ` {i \<in> S. idKey kindOf i = key} - {f i0}" using i by auto
    qed
    then show "set (targetsOf key (ScopeStopped (transition g at si) r)) = f ` {i \<in> S - {i0}. idKey kindOf i = key}"
      unfolding new if_P [OF True] set_removeAll old .
  next
    case False
    then have "{i \<in> S. idKey kindOf i = key} = {i \<in> S - {i0}. idKey kindOf i = key}" by blast
    then show "set (targetsOf key (ScopeStopped (transition g at si) r)) = f ` {i \<in> S - {i0}. idKey kindOf i = key}"
      unfolding new if_not_P [OF False] old by simp
  qed
qed

lemma mirrored_start:
  assumes "mirrored g kindOf S r" "proper kindOf K si"
  shows "mirrored g kindOf (insert (interest_id si) S) (ScopeStarted (transition g at si) r)"
  unfolding mirrored_def
proof
  fix key
  have t: "stTarget (transition g at si) = informerString g (iiInformer (interest_id si))" by (simp add: transition_def interest_id_def)
  have "set (targetsOf key r) = (\<lambda>i. informerString g (iiInformer i)) ` {i \<in> S. idKey kindOf i = key}"
    using assms(1) by (simp add: mirrored_def)
  then show "set (targetsOf key (ScopeStarted (transition g at si) r)) =
      (\<lambda>i. informerString g (iiInformer i)) ` {i \<in> insert (interest_id si) S. idKey kindOf i = key}"
    unfolding targetsOf_started t proper_key [OF assms(2)] by auto
qed

lemma mirrored_stops:
  assumes "mirrored g kindOf S r" "\<forall>si \<in> set sis. proper kindOf K si" "inj_on (informerString g) K" "iiInformer ` S \<subseteq> K"
  shows "mirrored g kindOf (S - interest_id ` set sis)
    (fold notify (concat (map (\<lambda>si. [EScopeStopped (transition g at si), EEvictScope (siSink si) (siScope si)]) sis)) r)"
  using assms
proof (induction sis arbitrary: S r)
  case (Cons si sis)
  have "mirrored g kindOf (S - {interest_id si}) (ScopeStopped (transition g at si) r)"
    by (rule mirrored_stop [OF Cons.prems(1) _ Cons.prems(3,4)]) (use Cons.prems(2) in simp)
  moreover have "iiInformer ` (S - {interest_id si}) \<subseteq> K" using Cons.prems(4) by blast
  moreover have "S - {interest_id si} - interest_id ` set sis = S - interest_id ` set (si # sis)" by auto
  ultimately show ?case using Cons.IH [of "S - {interest_id si}" "ScopeStopped (transition g at si) r"] Cons.prems(2,3) by simp
qed simp

lemma mirrored_starts:
  assumes "mirrored g kindOf S r" "\<forall>si \<in> set sis. proper kindOf K si"
  shows "mirrored g kindOf (S \<union> interest_id ` set sis) (fold notify (map (\<lambda>si. EScopeStarted (transition g at si)) sis) r)"
  using assms
proof (induction sis arbitrary: S r)
  case (Cons si sis)
  have "mirrored g kindOf (insert (interest_id si) S) (ScopeStarted (transition g at si) r)"
    by (rule mirrored_start [OF Cons.prems(1), of K]) (use Cons.prems(2) in simp)
  from Cons.IH [OF this] Cons.prems(2) show ?case by simp
qed simp

lemma notify_moves: "\<forall>e \<in> set moves. pool_effect e \<Longrightarrow> fold notify moves r = r"
  by (induction moves) (auto simp: pool_effect_def)

lemma notify_reach: "recorder_reach r \<Longrightarrow> recorder_reach (fold notify effs r)"
proof (induction effs arbitrary: r)
  case (Cons e effs)
  have "recorder_reach (notify e r)"
    using recorder_step [OF Cons.prems, of "DoStarted _"] recorder_step [OF Cons.prems, of "DoStopped _"] Cons.prems by (cases e) auto
  then show ?case using Cons.IH by simp
qed simp

definition passOk ::
    "(GVR \<Rightarrow> string) \<Rightarrow> (GVR \<Rightarrow> GVK) \<Rightarrow> informerKey set \<Rightarrow> 'e passEnv \<Rightarrow> (TargetKey, TargetState) gomap \<Rightarrow> bool" where
  "passOk gvrString kindOf K pe snapshot \<longleftrightarrow> peGvrString pe = gvrString \<and>
     (\<forall>ks \<in> set snapshot. \<forall>gvr namespaced. peMapper pe (tkGVK (fst ks)) = Inr (gvr, namespaced) \<longrightarrow>
        kindOf gvr = tkGVK (fst ks) \<and> \<lparr>ikGVR = gvr, ikNamespace = tkNamespace (fst ks)\<rparr> \<in> K)"

text \<open>The manager and its recorder together: passes, whose transitions the recorder receives in order,
  mixed with the recorder's own steps.\<close>

inductive joint_run ::
    "(GVR \<Rightarrow> string) \<Rightarrow> (GVR \<Rightarrow> GVK) \<Rightarrow> informerKey set \<Rightarrow> 'e WatchManager \<Rightarrow> ScopeEpochRecorder \<Rightarrow> bool"
  for gvrString kindOf K where
  joint_new: "newWatchManager True (Some rs) True True = Inr m \<Longrightarrow>
      NewScopeEpochRecorder (Some router) clusterID warmer limit = Some r \<Longrightarrow> joint_run gvrString kindOf K m r"
| joint_pass: "joint_run gvrString kindOf K m r \<Longrightarrow> passOk gvrString kindOf K pe snapshot \<Longrightarrow>
      reconcilePool pe snapshot m = (m', effs) \<Longrightarrow> joint_run gvrString kindOf K m' (fold notify effs r)"
| joint_flush: "joint_run gvrString kindOf K m r \<Longrightarrow> step \<in> {DoReport, DoPop} \<union> range DoHand \<Longrightarrow>
      joint_run gvrString kindOf K m (recorder_exec step r)"

lemma translation_proper:
  assumes "passOk g kindOf K pe snapshot" "ks \<in> set snapshot" "translation_of pe ks si"
  shows "proper kindOf K si"
proof -
  obtain gvr namespaced where m: "peMapper pe (tkGVK (fst ks)) = Inr (gvr, namespaced)"
    and si: "newScopeInterest (peParse pe) (fst ks) \<lparr>ikGVR = gvr, ikNamespace = tkNamespace (fst ks)\<rparr>
          (tsSelectors (snd ks)) (tsRedactions (snd ks)) (tsRuleKeys (snd ks)) = Inr si"
    using assms(3) by (auto simp: translation_of_def)
  have "kindOf gvr = tkGVK (fst ks) \<and> \<lparr>ikGVR = gvr, ikNamespace = tkNamespace (fst ks)\<rparr> \<in> K"
    using assms(1,2) m unfolding passOk_def by blast
  then show ?thesis using newScopeInterest_Inr(1,3,5) [OF si] by (simp add: proper_def)
qed

lemma recorder_flush_targets:
  assumes "step \<in> {DoReport, DoPop} \<union> range DoHand"
  shows "targetsOf key (recorder_exec step r) = targetsOf key r"
proof -
  have "rdActive (recorder_exec step r) = rdActive r"
    using assms by (auto simp: reportDrops_def flushPop_def flushHand_def split: list.splits option.splits)
  then show ?thesis by (simp add: targetsOf_def)
qed

lemma passSpecD:
  assumes "passSpec pe snapshot m m' removed moves fresh"
  shows "si \<in> interests m' \<Longrightarrow> \<exists>ks \<in> set snapshot. translation_of pe ks si"
    and "si \<in> set removed \<Longrightarrow> si \<in> interests m" and "si \<in> set fresh \<Longrightarrow> si \<in> interests m'"
    and "set (wmStarted m') = (set (wmStarted m) - interest_id ` set removed) \<union> interest_id ` set fresh"
    and "\<forall>e \<in> set moves. pool_effect e"
  using assms unfolding passSpec_def by simp_all

definition joint_inv :: "(GVR \<Rightarrow> string) \<Rightarrow> (GVR \<Rightarrow> GVK) \<Rightarrow> informerKey set \<Rightarrow> 'e WatchManager \<Rightarrow> ScopeEpochRecorder \<Rightarrow> bool" where
  "joint_inv g kindOf K m r \<longleftrightarrow> watch_inv m \<and> recorder_reach r \<and> (\<forall>si \<in> interests m. proper kindOf K si) \<and>
     mirrored g kindOf (set (wmStarted m)) r"

lemma joint_inv_pass:
  assumes inj: "inj_on (informerString g) K" and inv: "joint_inv g kindOf K m r"
    and ok: "passOk g kindOf K pe snapshot" and pass: "reconcilePool pe snapshot m = (m', effs)"
  shows "joint_inv g kindOf K m' (fold notify effs r)"
proof -
  have wi: "watch_inv m" and rr: "recorder_reach r" and pr: "\<forall>si \<in> interests m. proper kindOf K si"
    and mi: "mirrored g kindOf (set (wmStarted m)) r" using inv by (auto simp: joint_inv_def)
  from wi pass obtain removed moves fresh where spec: "passSpec pe snapshot m m' removed moves fresh" and wi': "watch_inv m'"
    and effs: "effs = concat (map (\<lambda>si. [EScopeStopped (transition (peGvrString pe) (peAt pe) si), EEvictScope (siSink si) (siScope si)]) removed)
       @ moves @ map (\<lambda>si. EScopeStarted (transition (peGvrString pe) (peAt pe) si)) fresh"
    by (rule reconcilePool_spec)
  have g: "peGvrString pe = g" using ok by (simp add: passOk_def)
  have pr': "\<forall>si \<in> interests m'. proper kindOf K si"
  proof
    fix si assume "si \<in> interests m'"
    from passSpecD(1) [OF spec this] obtain ks where "ks \<in> set snapshot" "translation_of pe ks si" ..
    then show "proper kindOf K si" by (rule translation_proper [OF ok])
  qed
  have rem: "\<forall>si \<in> set removed. proper kindOf K si" using pr passSpecD(2) [OF spec] by simp
  have fr: "\<forall>si \<in> set fresh. proper kindOf K si" using pr' passSpecD(3) [OF spec] by simp
  have st: "set (wmStarted m) = interest_id ` {si \<in> interests m. running m si}" using wi unfolding watch_inv_def by (elim conjE)
  have "iiInformer ` set (wmStarted m) \<subseteq> K" using pr by (auto simp: st interest_id_def proper_def)
  note stops = mirrored_stops [OF mi rem inj this, of "peAt pe"]
  have "mirrored g kindOf (set (wmStarted m')) (fold notify effs r)"
    unfolding effs g passSpecD(4) [OF spec] fold_append comp_apply notify_moves [OF passSpecD(5) [OF spec]]
    by (rule mirrored_starts [OF stops fr])
  then show ?thesis using wi' pr' notify_reach [OF rr] by (simp add: joint_inv_def)
qed

lemma joint_run_inv:
  assumes "joint_run g kindOf K m r" "inj_on (informerString g) K"
  shows "joint_inv g kindOf K m r"
  using assms
proof (induction rule: joint_run.induct)
  case (joint_new rs m router clusterID warmer limit r)
  have "recorder_reach r" by (rule recorder_new [OF joint_new(2)])
  moreover have "\<forall>key. targetsOf key r = []" using joint_new(2) by (auto simp: NewScopeEpochRecorder_def targetsOf_def)
  ultimately show ?case using new_inv [OF joint_new(1)] by (simp add: joint_inv_def mirrored_def)
next
  case (joint_pass m r pe snapshot m' effs)
  then show ?case by (intro joint_inv_pass [OF assms(2)]) auto
next
  case (joint_flush m r step)
  then have "joint_inv g kindOf K m r" by blast
  then show ?case
    using recorder_flush_targets [OF joint_flush(2)] recorder_step [of r step] by (simp add: joint_inv_def mirrored_def)
qed

text \<open>C7. The scope log follows the informers.  In every run of the manager with its recorder -- passes over
  any snapshots, with any outcome of resolution and informer start, mixed with hand-overs to the
  sinks -- the rows queued for a sink and scope show it open exactly when some interest in it is
  installed and its informer runs; provided a resource is served under one kind and the informers
  have distinct names.\<close>

theorem scope_log_follows_informers:
  assumes "joint_run gvrString kindOf K m r" "inj_on (informerString gvrString) K"
  shows "epochState (actionsOf key (rdLogged r)) =
    Some (\<exists>si \<in> interests m. running m si \<and> siSink si = skSink key \<and> siScope si = skScope key)"
proof -
  note inv = joint_run_inv [OF assms]
  then have "recorder_reach r" by (simp add: joint_inv_def)
  note ep = reach_epochs [OF this]
  have pr: "\<forall>si \<in> interests m. proper kindOf K si" and st: "set (wmStarted m) = interest_id ` {si \<in> interests m. running m si}"
    and mi: "set (targetsOf key r) = (\<lambda>i. informerString gvrString (iiInformer i)) ` {i \<in> set (wmStarted m). idKey kindOf i = key}"
    using inv by (auto simp: joint_inv_def watch_inv_def mirrored_def)
  have key: "idKey kindOf (interest_id si) = key \<longleftrightarrow> siSink si = skSink key \<and> siScope si = skScope key" if "si \<in> interests m" for si
    using pr that by (cases key) (auto simp: proper_def interest_ok_def idKey_def interest_id_def)
  have "(mget (rdActive r) key \<noteq> None) = (targetsOf key r \<noteq> [])"
    using ep by (auto simp: epochs_ok_def targetsOf_def split: option.splits)
  also have "\<dots> = (\<exists>i \<in> set (wmStarted m). idKey kindOf i = key)" using mi by (auto simp flip: set_empty)
  also have "\<dots> = (\<exists>si \<in> interests m. running m si \<and> siSink si = skSink key \<and> siScope si = skScope key)"
    unfolding st using key by blast
  finally show ?thesis using ep by (simp add: epochs_ok_def)
qed

theorem scope_log_follows_informers_witness:
  "let (m, effs) = reconcilePool (samplePass (\<lambda>k. False) 7) (sampleSnapshot '''') sampleManager;
       r = fold notify effs (sampleRecorder 10)
   in epochState (actionsOf \<lparr>skSink = ''s'', skScope = \<lparr>sGroup = '''', sKind = ''Pod'', sNamespace = ''ns''\<rparr>\<rparr> (rdLogged r)) = Some True"
proof -
  define key where "key = \<lparr>skSink = ''s'', skScope = \<lparr>sGroup = '''', sKind = ''Pod'', sNamespace = ''ns''\<rparr>\<rparr>"
  define K where "K = {\<lparr>ikGVR = \<lparr>vGroup = '''', vVersion = ''v1'', vResource = ''pods''\<rparr>, ikNamespace = ''ns''\<rparr>}"
  define kindOf :: "GVR \<Rightarrow> GVK" where "kindOf = (\<lambda>v. \<lparr>gGroup = '''', gVersion = ''v1'', gKind = ''Pod''\<rparr>)"
  obtain m effs where p: "reconcilePool (samplePass (\<lambda>k. False) 7) (sampleSnapshot '''') sampleManager = (m, effs)" by fastforce
  define r where "r = fold notify effs (sampleRecorder 10)"
  have "joint_run vResource kindOf K sampleManager (sampleRecorder 10)"
    by (rule joint_new [OF sampleManager_new, of "\<lambda>s. None" "''c''" True 10]) (simp add: sampleRecorder_def NewScopeEpochRecorder_def)
  moreover have "passOk vResource kindOf K (samplePass (\<lambda>k. False) 7) (sampleSnapshot '''')"
    by (simp add: passOk_def samplePass_def sampleSnapshot_def sampleTargetKey_def kindOf_def K_def)
  ultimately have "joint_run vResource kindOf K m r" unfolding r_def by (rule joint_pass) (rule p)
  moreover have "inj_on (informerString vResource) K" by (simp add: K_def)
  ultimately have "epochState (actionsOf key (rdLogged r)) =
      Some (\<exists>si \<in> interests m. running m si \<and> siSink si = skSink key \<and> siScope si = skScope key)"
    by (rule scope_log_follows_informers)
  moreover have "list_ex (\<lambda>si. mhas (wmPool (fst (reconcilePool (samplePass (\<lambda>k. False) 7) (sampleSnapshot '''') sampleManager))) (siInformer si) \<and>
      siSink si = skSink key \<and> siScope si = skScope key)
      (map snd (itCurrent (wmTable (fst (reconcilePool (samplePass (\<lambda>k. False) 7) (sampleSnapshot '''') sampleManager)))))"
    unfolding key_def by code_simp
  then have "\<exists>si \<in> interests m. running m si \<and> siSink si = skSink key \<and> siScope si = skScope key"
    unfolding p fst_conv list_ex_iff interests_def running_def mhas_keySet .
  ultimately have "epochState (actionsOf key (rdLogged r)) = Some True" by simp
  then show ?thesis unfolding p Let_def prod.case key_def r_def .
qed

section \<open>Lookups\<close>

lemma table_eq: "watch_inv m \<Longrightarrow> tableOf (itCurrent (wmTable m)) = wmTable m"
  unfolding watch_inv_def by (elim conjE) (rule sym)

lemma lookup_covers: "watch_inv m \<Longrightarrow> set (lookupIdentity ref (wmTable m)) = {si \<in> interests m. covers si ref}"
  using lookupIdentity_covers [of ref "itCurrent (wmTable m)"] by (simp only: table_eq interests_def)

text \<open>What the pipeline relies on when it asks the watch twice about a key: a policy is known
  whenever the lookup reports the scope as watched.\<close>

locale watch_view =
  fixes get :: "Key \<Rightarrow> string + (jobj option \<times> bool)" and redaction :: "Key \<Rightarrow> RedactionPolicy option"
  assumes active_policy: "get key = Inr (found, True) \<Longrightarrow> redaction key \<noteq> None"
begin

lemma Process_finds_policy:
  assumes "eGet e = get" "eRedactions e = Some redaction"
  shows "fst (Process e key p) \<noteq> Some RedactionUnavailable"
proof (cases "redaction key")
  case None
  then have "get key = Inr (found, a) \<Longrightarrow> \<not> a" for found a using active_policy by (cases a) auto
  then show ?thesis by (auto simp: Process_def assms(1) split: sum.split)
next
  case (Some policy)
  then have policy: "redactionFor e key = Some policy" by (simp add: redactionFor_def assms(2))
  have upsert: "fst (processUpsert e key a writer obj objectKey q) \<noteq> Some RedactionUnavailable" for a writer obj objectKey q
    unfolding processUpsert_def writeUpsert_def policy by (simp add: Let_def split: option.split prod.split)
  have delete: "snd (fst (emitDelete e key a writer u q)) \<noteq> Some RedactionUnavailable" for a writer u q
    unfolding emitDelete_def by (simp add: Let_def split: option.split prod.split)
  show ?thesis
    unfolding Process_def Let_def
    by (simp add: upsert split: sum.split option.split prod.split) (metis delete fst_conv snd_conv)
qed

end

definition lookup :: "(getError \<Rightarrow> string) \<Rightarrow> indexers \<Rightarrow> 'e WatchManager \<Rightarrow> Key \<Rightarrow> string + (jobj option \<times> bool)" where
  "lookup render ix m key = (case Get ix m key of Inl err \<Rightarrow> Inl (render err) | Inr r \<Rightarrow> Inr r)"

lemma getLoop_active: "getLoop ix pool ckey sis missing = Inr (found, active) \<Longrightarrow> active"
  by (induction ix pool ckey sis missing rule: getLoop.induct) (auto split: option.splits if_splits sum.splits cachedObject.splits)

lemma Get_inactive: "Get ix m ref = Inr (found, False) \<longleftrightarrow> lookupIdentity ref (wmTable m) = [] \<and> found = None"
  by (auto simp: Get_def Let_def dest: getLoop_active)

lemma RedactionFor_None: "RedactionFor m ref = None \<longleftrightarrow> lookupIdentity ref (wmTable m) = []"
  by (auto simp: RedactionFor_def split: list.splits)

interpretation lookups: watch_view "lookup render ix m" "RedactionFor m" for render ix m
proof unfold_locales
  fix key found assume "lookup render ix m key = Inr (found, True)"
  then have "Get ix m key = Inr (found, True)" by (simp add: lookup_def split: sum.splits)
  then show "RedactionFor m key \<noteq> None" by (auto simp: RedactionFor_None Get_def)
qed

definition policy_ok :: "RedactionPolicy \<Rightarrow> bool" where
  "policy_ok policy \<longleftrightarrow> policy = None \<or> (\<exists>paths. CompileRedaction paths = Inr policy)"

lemma policy_okD: "policy_ok (Some ps) \<Longrightarrow> compiled ps \<and> lastAppliedPath \<in> set ps"
  using CompileRedaction_Inr compiled_policy_has_builtin by (fastforce simp: policy_ok_def policyPaths_def)

lemma merged_paths:
  assumes ok: "\<forall>p \<in> set pols. policy_ok p" and ne: "pols \<noteq> []"
  shows "set (policyPaths (MergeRedaction pols)) = (\<Union>p \<in> set pols. set (policyPaths p))"
proof -
  define merged where "merged = mergePolicies pols [] []"
  have "\<forall>ps. Some ps \<in> set pols \<longrightarrow> compiled ps" using ok policy_okD by blast
  then have m: "set merged = (\<Union>ps \<in> {ps. Some ps \<in> set pols}. set ps)"
    unfolding merged_def using mergePolicies_spec [of "[]" "[]" pols] by (simp add: compiled_def)
  show ?thesis
  proof (cases "\<exists>ps. Some ps \<in> set pols")
    case True
    then obtain ps where ps: "Some ps \<in> set pols" ..
    then have last: "lastAppliedPath \<in> set ps" using ok policy_okD by blast
    then have "lastAppliedPath \<in> set merged" using ps m by blast
    then have "set (policyPaths (MergeRedaction pols)) = set merged"
      unfolding MergeRedaction_def merged_def [symmetric] by (auto simp: policyPaths_def Let_def)
    moreover have "(\<Union>p \<in> set pols. set (policyPaths p)) = set merged"
    proof
      show "(\<Union>p \<in> set pols. set (policyPaths p)) \<subseteq> set merged"
      proof
        fix x assume "x \<in> (\<Union>p \<in> set pols. set (policyPaths p))"
        then obtain p where "p \<in> set pols" "x \<in> set (policyPaths p)" by blast
        then show "x \<in> set merged"
          using m \<open>lastAppliedPath \<in> set merged\<close> by (cases "p = None") (auto simp: policyPaths_def builtinRedaction_eq)
      qed
      show "set merged \<subseteq> (\<Union>p \<in> set pols. set (policyPaths p))" using m by (force simp: policyPaths_def)
    qed
    ultimately show ?thesis by simp
  next
    case False
    then have "merged = []" using m by auto
    moreover have "\<forall>p \<in> set pols. p = None" using False by (metis not_None_eq)
    moreover from this have "set pols = {None}" using ne by (metis hd_in_set singletonI subset_singletonD subsetI set_empty singleton_iff)
    ultimately show ?thesis unfolding MergeRedaction_def merged_def [symmetric] by (auto simp: policyPaths_def)
  qed
qed

lemma translation_policy: "translation_of pe ks si \<Longrightarrow> policy_ok (siRedaction si)"
  using newScopeInterest_Inr(6) by (fastforce simp: translation_of_def policy_ok_def)

lemma watch_reach_policies: "watch_reach m \<Longrightarrow> si \<in> interests m \<Longrightarrow> policy_ok (siRedaction si)"
proof (induction arbitrary: si rule: watch_reach.induct)
  case (watch_pass m pe snapshot m' effs)
  obtain removed moves fresh where spec: "passSpec pe snapshot m m' removed moves fresh"
    by (rule reconcilePool_spec [OF watch_reach_inv [OF watch_pass.hyps(1)] watch_pass.hyps(2)])
  from passSpecD(1) [OF spec watch_pass.prems] translation_policy show ?case by blast
qed (simp_all add: new_inv settle_inv)

lemma RedactionFor_paths:
  assumes "watch_reach m" "RedactionFor m ref = Some policy"
  shows "set (policyPaths policy) = (\<Union>si \<in> {si \<in> interests m. covers si ref}. set (policyPaths (siRedaction si)))"
proof -
  define sis where "sis = lookupIdentity ref (wmTable m)"
  have sis: "set sis = {si \<in> interests m. covers si ref}"
    unfolding sis_def by (rule lookup_covers [OF watch_reach_inv [OF assms(1)]])
  have ok: "\<forall>p \<in> set (map siRedaction sis). policy_ok p" using sis watch_reach_policies [OF assms(1)] by auto
  consider si where "sis = [si]" "policy = siRedaction si" | "sis \<noteq> []" "policy = MergeRedaction (map siRedaction sis)"
    using assms(2) unfolding RedactionFor_def sis_def [symmetric] by (auto split: list.splits)
  then show ?thesis
  proof cases
    case 1
    then show ?thesis unfolding sis [symmetric] by simp
  next
    case 2
    then show ?thesis unfolding sis [symmetric] using merged_paths [OF ok] by simp
  qed
qed



section \<open>Redaction end to end\<close>

lemma pipeline_reach_mono:
  assumes "pipeline_reach envOk p" "\<And>e key. envOk e key \<Longrightarrow> envOk' e key"
  shows "pipeline_reach envOk' p"
  using assms(1)
proof (induction rule: pipeline_reach.induct)
  case (reach_step p s)
  then have "stepOk envOk' s" using assms(2) by (cases s) auto
  then show ?case using pipeline_reach.reach_step [OF reach_step.IH] by blast
qed (rule reach_init)

text \<open>Each handler asks a manager of its own moment; a manager \<open>asks\<close> for a path on a key when, if it
  watches the key at all, some covering interest redacts the path.\<close>

definition asks :: "redactionPath \<Rightarrow> 'e WatchManager \<Rightarrow> Key \<Rightarrow> bool" where
  "asks q m key \<longleftrightarrow> (\<forall>si \<in> interests m. covers si key \<longrightarrow>
     (\<exists>si' \<in> interests m. covers si' key \<and> q \<in> set (policyPaths (siRedaction si'))))"


definition sampleSecret :: jobj where
  "sampleSecret = [(''data'', JObj [(''token'', JStr ''x'')]), (''metadata'', JObj [(''uid'', JStr ''u'')])]"

definition tokenPath :: redactionPath where
  "tokenPath = \<lparr>rpRaw = ''data.token'', rpSegments = [\<lparr>segName = ''data'', segWildcard = False\<rparr>, \<lparr>segName = ''token'', segWildcard = False\<rparr>]\<rparr>"


section \<open>Fan-out\<close>

lemma table_sinks_distinct:
  assumes "watch_inv m"
  shows "distinct (map siSink (interestsFor k (wmTable m)))"
proof -
  define d where "d = itCurrent (wmTable m)"
  have wf: "mwf d" and kd: "keyed d" using assms unfolding watch_inv_def d_def by blast+
  have "interestsFor k (wmTable m) = sort_key siSink (filter (\<lambda>si. siInformer si = k) (map snd d))"
    using interestsFor_tableOf [of k d] by (simp only: d_def table_eq [OF assms])
  moreover have "distinct (map siSink (filter (\<lambda>si. siInformer si = k) (map snd d)))"
    using wf kd
  proof (induction d)
    case (Cons x d)
    obtain i si where x: "x = (i, si)" by fastforce
    have "i = interest_id si" "keyed d" "i \<notin> set (mkeys d)" using Cons.prems by (auto simp: keyed_def x)
    moreover have "siSink si \<noteq> siSink si'" if "si' \<in> snd ` set d" "siInformer si' = siInformer si" for si'
      using calculation that by (force simp: keyed_def interest_id_def)
    ultimately show ?case using Cons by (auto simp: x)
  qed simp
  ultimately show ?thesis by (simp add: distinct_map)
qed

text \<open>C10. An informer event reaches exactly the interested sinks, each once.  In every reachable manager the
  work items of an event are those of the informer's interests that take every object, of all of
  them when the event does not carry the labels, and otherwise of those one of whose selectors
  accepts the labels of the object or, on an update, the labels the object had before, where a
  previous object without labels does not count as one.  No sink gets two items, and every item is
  covered by an installed interest when the object lives where the informer watches.\<close>

theorem fanout_exact:
  assumes "watch_reach m" "eventTargetOf om obj = Some t"
  shows "set (fanOut om k obj previous (wmTable m)) =
      {keyFor (etNamespace t) (etName t) si |si. si \<in> interests m \<and> siInformer si = k \<and>
         (siMatchAll si \<or> etObj t = None \<or>
          (\<exists>sel \<in> set (siSelectors si). sel (case labelsOf om t of None \<Rightarrow> [] | Some l \<Rightarrow> l)) \<or>
          (\<exists>l. previousLabels om previous = Some l \<and> (\<exists>sel \<in> set (siSelectors si). sel l)))} \<and>
    distinct (map kSink (fanOut om k obj previous (wmTable m))) \<and>
    (ikNamespace k \<in> {'''', etNamespace t} \<longrightarrow>
       (\<forall>key \<in> set (fanOut om k obj previous (wmTable m)). \<exists>si \<in> interests m. covers si key))"
proof -
  note inv = watch_reach_inv [OF assms(1)]
  define take where "take = (\<lambda>si. \<not> (\<not> siMatchAll si \<and> labelsKnown t \<and> \<not> matchesEither (labelsOf om t) (previousLabels om previous) si))"
  have fan: "fanOut om k obj previous (wmTable m) = map (keyFor (etNamespace t) (etName t)) (filter take (interestsFor k (wmTable m)))"
    by (simp add: fanOut_def assms(2) take_def)
  have mem: "set (interestsFor k (wmTable m)) = {si \<in> interests m. siInformer si = k}"
    using interestsFor_tableOf [of k "itCurrent (wmTable m)"] unfolding table_eq [OF inv] interests_def by simp
  have take: "take si \<longleftrightarrow> siMatchAll si \<or> etObj t = None \<or>
          (\<exists>sel \<in> set (siSelectors si). sel (case labelsOf om t of None \<Rightarrow> [] | Some l \<Rightarrow> l)) \<or>
          (\<exists>l. previousLabels om previous = Some l \<and> (\<exists>sel \<in> set (siSelectors si). sel l))" for si
  proof -
    define hit where "hit = (\<lambda>l. \<exists>sel \<in> set (siSelectors si). sel l)"
    show ?thesis
      unfolding take_def labelsKnown_def matchesEither_def labelsMatch_def hit_def [symmetric]
      by (cases "previousLabels om previous") auto
  qed
  have sinks: "map kSink (fanOut om k obj previous (wmTable m)) = map siSink (filter take (interestsFor k (wmTable m)))"
    unfolding fan by (simp add: keyFor_def comp_def)
  have one: "distinct (map kSink (fanOut om k obj previous (wmTable m)))"
    unfolding sinks by (rule distinct_map_filter [OF table_sinks_distinct [OF inv]])
  have cov: "\<exists>si \<in> interests m. covers si key"
    if "key \<in> set (fanOut om k obj previous (wmTable m))" "ikNamespace k \<in> {'''', etNamespace t}" for key
    using that unfolding fan by (auto simp: mem covers_def keyFor_def)
  have exact: "set (fanOut om k obj previous (wmTable m)) = {keyFor (etNamespace t) (etName t) si |si. si \<in> interests m \<and> siInformer si = k \<and> take si}"
    unfolding fan by (auto simp: mem)
  show ?thesis using exact one cov unfolding take by (intro conjI impI ballI)
qed

definition sampleMeta :: "(jobj \<Rightarrow> labelSet option) \<Rightarrow> objectMeta" where
  "sampleMeta labels = \<lparr>omNamespace = (\<lambda>obj. ''ns''), omName = (\<lambda>obj. ''a''), omLabels = labels, omSplitKey = (\<lambda>s. None)\<rparr>"

definition sampleLabels :: "jobj \<Rightarrow> labelSet option" where
  "sampleLabels obj = (if mhas obj ''k'' then Some [(''k'', ''1'')] else if mhas obj ''x'' then Some [(''x'', ''1'')] else None)"

theorem fanout_exact_witness:
  "let m = fst (reconcilePool ((samplePass (\<lambda>k. False) 7)\<lparr>peParse := \<lambda>s. Inr (\<lambda>l. mget l ''k'' = None)\<rparr>)
             [(sampleTargetKey, \<lparr>tsKey = sampleTargetKey, tsRuleKeys = [''rule''], tsSelectors = [''!k''], tsRedactions = []\<rparr>)] sampleManager);
       k = \<lparr>ikGVR = \<lparr>vGroup = '''', vVersion = ''v1'', vResource = ''pods''\<rparr>, ikNamespace = ''ns''\<rparr>;
       fan = (\<lambda>prev. fanOut (sampleMeta sampleLabels) k (Unstructured [(''k'', JNull)]) (Some (Unstructured prev)) (wmTable m))
   in fan [(''x'', JNull)] = [sampleKey] \<and> fan [] = [] \<and> (\<forall>key \<in> set (fan [(''x'', JNull)]). \<exists>si \<in> interests m. covers si key)"
proof -
  define m where "m = fst (reconcilePool ((samplePass (\<lambda>k. False) 7)\<lparr>peParse := \<lambda>s. Inr (\<lambda>l. mget l ''k'' = None)\<rparr>)
             [(sampleTargetKey, \<lparr>tsKey = sampleTargetKey, tsRuleKeys = [''rule''], tsSelectors = [''!k''], tsRedactions = []\<rparr>)] sampleManager)"
  define k where "k = \<lparr>ikGVR = \<lparr>vGroup = '''', vVersion = ''v1'', vResource = ''pods''\<rparr>, ikNamespace = ''ns''\<rparr>"
  have "watch_reach m" unfolding m_def by (rule watch_pass [OF sampleManager_reach prod.collapse [symmetric]])
  moreover have "eventTargetOf (sampleMeta sampleLabels) (Unstructured [(''k'', JNull)]) =
      Some \<lparr>etNamespace = ''ns'', etName = ''a'', etObj = Some [(''k'', JNull)]\<rparr>"
    by (simp add: eventTargetOf_def objectTarget_def sampleMeta_def)
  ultimately have "\<forall>key \<in> set (fanOut (sampleMeta sampleLabels) k (Unstructured [(''k'', JNull)]) (Some (Unstructured [(''x'', JNull)])) (wmTable m)).
      \<exists>si \<in> interests m. covers si key"
    using fanout_exact [of m "sampleMeta sampleLabels" "Unstructured [(''k'', JNull)]" _ k "Some (Unstructured [(''x'', JNull)])"]
    by (simp add: k_def)
  moreover have "fanOut (sampleMeta sampleLabels) k (Unstructured [(''k'', JNull)]) (Some (Unstructured [(''x'', JNull)])) (wmTable m) = [sampleKey]"
    "fanOut (sampleMeta sampleLabels) k (Unstructured [(''k'', JNull)]) (Some (Unstructured [])) (wmTable m) = []"
    unfolding m_def k_def by code_simp+
  ultimately show ?thesis unfolding Let_def m_def [symmetric] k_def [symmetric] by simp
qed

end
