(* ===== verification/Sinks.thy ===== *)
theory Sinks
imports Pipeline
begin

text \<open>
  The sink manager (internal/sink/manager.go): one running instance per sink name, replaced when its
  configuration changes and withdrawn when its object is deleted.  Instances are shared by pointer
  with the goroutines that drain them, so they live in a heap and the routing table maps a name to an
  address.  Every goroutine the manager leaves behind -- the drain of a replaced instance, the tail of
  a deletion -- is a value of \<open>tail\<close> that advances by its own steps, so that runs interleave them with
  the lifecycle operations.  The factory, the fingerprint of a configuration and the rules of a sink
  are in \<open>managerEnv\<close>, one for each step.
\<close>

section \<open>State\<close>

record backend =
  bkWriter :: Writer
  bkReader :: bool
  bkEvents :: bool
  bkProber :: bool

record liveSink =
  lsName :: string
  lsFingerprint :: string
  lsWriter :: Writer
  lsReader :: "Writer option"
  lsEvents :: "Writer option"
  lsProber :: "Writer option"
  lsProbing :: bool
  lsCancelled :: bool
  lsDone :: bool

datatype sinkCall = CallRemoveSink string | CallForgetSink string | CallPark string "string list"

text \<open>A goroutine of the manager: a drain before and after its cancellation, with the name to delete
  afterwards if it belongs to a deletion, then the steps of \<open>finishDelete\<close>, which still knows the
  instance it drained and whether it gave up waiting for it.\<close>

datatype tail =
    DrainStart nat "string option"
  | DrainWait nat "string option"
  | CheckRecreated string "nat option" bool
  | Evict string "nat option" bool
  | Forget string "nat option" bool
  | ParkDependents string "nat option" bool

record 'c SinkManager =
  smLive :: "(string, nat) gomap"
  smInstances :: "liveSink list"
  smRunning :: bool
  smPending :: "(string, 'c) gomap"
  smStopped :: bool
  smTails :: "tail list"
  smCalls :: "sinkCall list"

record 'c managerEnv =
  mgFactory :: "string \<Rightarrow> 'c \<Rightarrow> string + backend"
  mgFingerprint :: "'c \<Rightarrow> string"
  mgWarm :: bool
  mgDependents :: "(string \<Rightarrow> string list) option"
  mgPark :: bool

datatype sinkError = NameRequired | ConfigRequired string | ManagerStopped | BuildFailed string string

datatype managerError = FactoryRequired | PipelineRequiredByManager

definition NewSinkManager :: "bool \<Rightarrow> bool \<Rightarrow> managerError + 'c SinkManager" where
  "NewSinkManager factory pipeline =
     (if \<not> factory then Inl FactoryRequired
      else if \<not> pipeline then Inl PipelineRequiredByManager
      else Inr \<lparr>smLive = [], smInstances = [], smRunning = False, smPending = [], smStopped = False,
                smTails = [], smCalls = []\<rparr>)"

section \<open>Operations\<close>

definition newLiveSink :: "string \<Rightarrow> string \<Rightarrow> backend \<Rightarrow> liveSink" where
  "newLiveSink name fingerprint b =
     \<lparr>lsName = name, lsFingerprint = fingerprint, lsWriter = bkWriter b,
      lsReader = (if bkReader b then Some (bkWriter b) else None),
      lsEvents = (if bkEvents b then Some (bkWriter b) else None),
      lsProber = (if bkProber b then Some (bkWriter b) else None),
      lsProbing = False, lsCancelled = False, lsDone = False\<rparr>"

definition startInstance :: "liveSink \<Rightarrow> 'c SinkManager \<Rightarrow> nat \<times> 'c SinkManager" where
  "startInstance inst m =
     (length (smInstances m), m\<lparr>smInstances := smInstances m @ [inst\<lparr>lsProbing := (lsProber inst \<noteq> None)\<rparr>]\<rparr>)"

definition swapLocked :: "string \<Rightarrow> nat option \<Rightarrow> 'c SinkManager \<Rightarrow> 'c SinkManager" where
  "swapLocked name inst m =
     m\<lparr>smLive := (case inst of None \<Rightarrow> mdel name (smLive m) | Some a \<Rightarrow> mput name a (smLive m))\<rparr>"

definition spawn :: "tail \<Rightarrow> 'c SinkManager \<Rightarrow> 'c SinkManager" where
  "spawn t m = m\<lparr>smTails := smTails m @ [t]\<rparr>"

definition ensureLocked :: "'c managerEnv \<Rightarrow> string \<Rightarrow> 'c \<Rightarrow> 'c SinkManager \<Rightarrow> sinkError option \<times> 'c SinkManager" where
  "ensureLocked env name cfg m =
     (let fingerprint = mgFingerprint env cfg; current = mget (smLive m) name
      in if current \<noteq> None \<and> lsFingerprint (smInstances m ! the current) = fingerprint then (None, m)
         else case mgFactory env name cfg of
           Inl err \<Rightarrow> (Some (BuildFailed name err), m)
         | Inr writer \<Rightarrow>
             let (a, m) = startInstance (newLiveSink name fingerprint writer) m;
                 m = swapLocked name (Some a) m
             in case current of
                  None \<Rightarrow> (None, m)
                | Some old \<Rightarrow> (None, spawn (DrainStart old None) m))"

definition Ensure :: "'c managerEnv \<Rightarrow> string \<Rightarrow> 'c option \<Rightarrow> 'c SinkManager \<Rightarrow> sinkError option \<times> 'c SinkManager" where
  "Ensure env name cfg m =
     (if name = '''' then (Some NameRequired, m)
      else case cfg of
        None \<Rightarrow> (Some (ConfigRequired name), m)
      | Some cfg \<Rightarrow>
          if smStopped m then (Some ManagerStopped, m)
          else if \<not> smRunning m then (None, m\<lparr>smPending := mput name cfg (smPending m)\<rparr>)
          else ensureLocked env name cfg m)"

definition Delete :: "string \<Rightarrow> 'c SinkManager \<Rightarrow> 'c SinkManager" where
  "Delete name m =
     (if smStopped m then m
      else
        let m = m\<lparr>smPending := mdel name (smPending m)\<rparr>;
            current = mget (smLive m) name;
            m = (if current \<noteq> None then swapLocked name None m else m)
        in spawn (case current of None \<Rightarrow> CheckRecreated name None False | Some a \<Rightarrow> DrainStart a (Some name)) m)"

text \<open>\<open>Start\<close> up to the wait for its context, and from there on.\<close>

definition StartManager :: "'c managerEnv \<Rightarrow> 'c SinkManager \<Rightarrow> 'c SinkManager" where
  "StartManager env m =
     (let pending = smPending m
      in fold (\<lambda>name m. snd (ensureLocked env name (the (mget pending name)) m)) (sort (mkeys pending))
           (m\<lparr>smRunning := True, smPending := []\<rparr>))"

definition ShutdownManager :: "'c SinkManager \<Rightarrow> 'c SinkManager" where
  "ShutdownManager m =
     (let instances = map snd (smLive m)
      in fold (\<lambda>a. spawn (DrainStart a None)) instances (m\<lparr>smStopped := True, smLive := []\<rparr>))"

definition cancelInstance :: "nat \<Rightarrow> 'c SinkManager \<Rightarrow> 'c SinkManager" where
  "cancelInstance a m = m\<lparr>smInstances := (smInstances m)[a := (smInstances m ! a)\<lparr>lsCancelled := True, lsProbing := False\<rparr>]\<rparr>"

definition parkDependents :: "'c managerEnv \<Rightarrow> string \<Rightarrow> 'c SinkManager \<Rightarrow> 'c SinkManager" where
  "parkDependents env name m =
     (if \<not> mgPark env then m
      else m\<lparr>smCalls := smCalls m @ [CallPark name (case mgDependents env of None \<Rightarrow> [] | Some f \<Rightarrow> f name)]\<rparr>)"

text \<open>One step of a goroutine: \<open>drain\<close> cancels, then waits for the instance or the timer; \<open>finishDelete\<close>
  then looks for a successor under the lock, which it releases before it evicts, forgets and parks.\<close>

fun runTail :: "'c managerEnv \<Rightarrow> bool \<Rightarrow> tail \<Rightarrow> 'c SinkManager \<Rightarrow> tail option \<times> 'c SinkManager" where
  "runTail env timedOut (DrainStart a goal) m = (Some (DrainWait a goal), cancelInstance a m)"
| "runTail env timedOut (DrainWait a goal) m =
     (if lsDone (smInstances m ! a) \<or> timedOut
      then (case goal of None \<Rightarrow> None | Some name \<Rightarrow> Some (CheckRecreated name (Some a) (\<not> lsDone (smInstances m ! a))))
      else Some (DrainWait a goal), m)"
| "runTail env timedOut (CheckRecreated name inst gaveUp) m =
     (if mhas (smLive m) name then None else Some (Evict name inst gaveUp), m)"
| "runTail env timedOut (Evict name inst gaveUp) m =
     (Some (if mgWarm env then Forget name inst gaveUp else ParkDependents name inst gaveUp),
      m\<lparr>smCalls := smCalls m @ [CallRemoveSink name]\<rparr>)"
| "runTail env timedOut (Forget name inst gaveUp) m =
     (Some (ParkDependents name inst gaveUp), m\<lparr>smCalls := smCalls m @ [CallForgetSink name]\<rparr>)"
| "runTail env timedOut (ParkDependents name inst gaveUp) m = (None, parkDependents env name m)"

section \<open>Routing\<close>

definition WriterFor :: "'c SinkManager \<Rightarrow> string \<Rightarrow> Writer option" where
  "WriterFor m name = (case mget (smLive m) name of None \<Rightarrow> None | Some a \<Rightarrow> Some (lsWriter (smInstances m ! a)))"

definition StateReaderFor :: "'c SinkManager \<Rightarrow> string \<Rightarrow> Writer option" where
  "StateReaderFor m name = (case mget (smLive m) name of None \<Rightarrow> None | Some a \<Rightarrow> lsReader (smInstances m ! a))"

definition ScopeEventWriterFor :: "'c SinkManager \<Rightarrow> string \<Rightarrow> Writer option" where
  "ScopeEventWriterFor m name = (case mget (smLive m) name of None \<Rightarrow> None | Some a \<Rightarrow> lsEvents (smInstances m ! a))"

definition SinkNames :: "'c SinkManager \<Rightarrow> string list" where
  "SinkNames m = sort (mkeys (smLive m))"

section \<open>Probing\<close>

datatype probeError = SchemaMismatch string | ProbeFailed string

record ProbeResult =
  prSink :: string
  prAt :: int
  prErr :: "probeError option"
  prReason :: string

definition ProbeReasonUnreachable :: string where
  "ProbeReasonUnreachable = ''Unreachable''"

definition ProbeReasonSchemaInvalid :: string where
  "ProbeReasonSchemaInvalid = ''SchemaInvalid''"

definition probe :: "probeError option \<Rightarrow> int \<Rightarrow> liveSink \<Rightarrow> ProbeResult" where
  "probe err now inst =
     \<lparr>prSink = lsName inst, prAt = now, prErr = err,
      prReason = (case err of
         None \<Rightarrow> ''''
       | Some (SchemaMismatch _) \<Rightarrow> ProbeReasonSchemaInvalid
       | Some (ProbeFailed _) \<Rightarrow> ProbeReasonUnreachable)\<rparr>"

text \<open>The back-off schedule belongs to a library: \<open>reset\<close> and \<open>nextBackOff\<close> are its operations.\<close>

definition nextProbeDelay ::
    "('b \<Rightarrow> 'b) \<Rightarrow> ('b \<Rightarrow> int \<times> 'b) \<Rightarrow> int \<Rightarrow> int \<Rightarrow> 'b \<Rightarrow> bool \<Rightarrow> int \<times> 'b" where
  "nextProbeDelay reset nextBackOff probeInterval probeMaxBackoff eb failed =
     (if \<not> failed then (probeInterval, reset eb)
      else let (delay, eb) = nextBackOff eb in if delay \<le> 0 then (probeMaxBackoff, eb) else (delay, eb))"

text \<open>One round of \<open>probeLoop\<close>: the result posted, if any, and the delay before the next round, if there is
  one.  The context may end during the attempt or before the consumer takes the result.\<close>

definition probeRound ::
    "('b \<Rightarrow> 'b) \<Rightarrow> ('b \<Rightarrow> int \<times> 'b) \<Rightarrow> int \<Rightarrow> int \<Rightarrow> bool \<Rightarrow> bool \<Rightarrow> probeError option \<Rightarrow> int \<Rightarrow> liveSink \<Rightarrow> 'b \<Rightarrow>
     ProbeResult option \<times> int option \<times> 'b" where
  "probeRound reset nextBackOff probeInterval probeMaxBackoff ended taken err now inst eb =
     (let result = probe err now inst
      in if ended then (None, None, eb)
         else if \<not> taken then (None, None, eb)
         else let (delay, eb) = nextProbeDelay reset nextBackOff probeInterval probeMaxBackoff eb (prErr result \<noteq> None)
              in (Some result, Some delay, eb))"

section \<open>Runs\<close>

datatype 'c managerStep =
    DoEnsure "'c managerEnv" string "'c option"
  | DoDelete string
  | DoStart "'c managerEnv"
  | DoShutdown
  | DoTail "'c managerEnv" bool nat
  | DoReturn nat

definition settleTail :: "nat \<Rightarrow> tail option \<times> 'c SinkManager \<Rightarrow> 'c SinkManager" where
  "settleTail i r = (case r of (u, m) \<Rightarrow>
     m\<lparr>smTails := take i (smTails m) @ (case u of None \<Rightarrow> [] | Some t \<Rightarrow> [t]) @ drop (Suc i) (smTails m)\<rparr>)"

text \<open>\<open>DoReturn\<close> is the return of a writer's \<open>Start\<close>, which may come at any time; the manager starts and
  stops once.\<close>

fun manager_exec :: "'c managerStep \<Rightarrow> 'c SinkManager \<Rightarrow> 'c SinkManager" where
  "manager_exec (DoEnsure env name cfg) m = snd (Ensure env name cfg m)"
| "manager_exec (DoDelete name) m = Delete name m"
| "manager_exec (DoStart env) m = (if smRunning m then m else StartManager env m)"
| "manager_exec DoShutdown m = (if smRunning m \<and> \<not> smStopped m then ShutdownManager m else m)"
| "manager_exec (DoTail env timedOut i) m =
     (if i < length (smTails m) then settleTail i (runTail env timedOut (smTails m ! i) m) else m)"
| "manager_exec (DoReturn a) m =
     (if a < length (smInstances m) then m\<lparr>smInstances := (smInstances m)[a := (smInstances m ! a)\<lparr>lsDone := True\<rparr>]\<rparr> else m)"

inductive manager_reach :: "'c SinkManager \<Rightarrow> bool" where
  manager_new: "NewSinkManager True True = Inr m \<Longrightarrow> manager_reach m"
| manager_step: "manager_reach m \<Longrightarrow> manager_reach (manager_exec step m)"

section \<open>No instance is lost\<close>

definition drainedOk :: "'c SinkManager \<Rightarrow> string \<Rightarrow> nat option \<Rightarrow> bool \<Rightarrow> bool" where
  "drainedOk m n inst gaveUp \<longleftrightarrow> (\<forall>a. inst = Some a \<longrightarrow> a < length (smInstances m) \<and>
     lsCancelled (smInstances m ! a) \<and> lsName (smInstances m ! a) = n \<and> (lsDone (smInstances m ! a) \<or> gaveUp))"

fun tailOk :: "'c SinkManager \<Rightarrow> tail \<Rightarrow> bool" where
  "tailOk m (DrainStart a goal) \<longleftrightarrow> a < length (smInstances m) \<and> (\<forall>n. mget (smLive m) n \<noteq> Some a) \<and>
     (\<forall>n. goal = Some n \<longrightarrow> lsName (smInstances m ! a) = n)"
| "tailOk m (DrainWait a goal) \<longleftrightarrow> a < length (smInstances m) \<and> lsCancelled (smInstances m ! a) \<and>
     (\<forall>n. goal = Some n \<longrightarrow> lsName (smInstances m ! a) = n)"
| "tailOk m (CheckRecreated n inst gaveUp) \<longleftrightarrow> drainedOk m n inst gaveUp"
| "tailOk m (Evict n inst gaveUp) \<longleftrightarrow> drainedOk m n inst gaveUp"
| "tailOk m (Forget n inst gaveUp) \<longleftrightarrow> drainedOk m n inst gaveUp"
| "tailOk m (ParkDependents n inst gaveUp) \<longleftrightarrow> drainedOk m n inst gaveUp"

definition routed :: "'c SinkManager \<Rightarrow> bool" where
  "routed m \<longleftrightarrow> (\<forall>n a. mget (smLive m) n = Some a \<longrightarrow>
     a < length (smInstances m) \<and> lsName (smInstances m ! a) = n \<and> \<not> lsCancelled (smInstances m ! a))"

definition accounted :: "'c SinkManager \<Rightarrow> nat \<Rightarrow> bool" where
  "accounted m a \<longleftrightarrow> (\<exists>n. mget (smLive m) n = Some a) \<or> lsCancelled (smInstances m ! a) \<or> (\<exists>goal. DrainStart a goal \<in> set (smTails m))"

definition manager_inv :: "'c SinkManager \<Rightarrow> bool" where
  "manager_inv m \<longleftrightarrow> mwf (smLive m) \<and> routed m \<and> (\<forall>a < length (smInstances m). accounted m a) \<and>
     (\<forall>t \<in> set (smTails m). tailOk m t) \<and> (\<not> smRunning m \<longrightarrow> smLive m = []) \<and> (smStopped m \<longrightarrow> smLive m = [] \<and> smRunning m)"

lemma manager_invD:
  assumes "manager_inv m"
  shows "mwf (smLive m)" "routed m" "a < length (smInstances m) \<Longrightarrow> accounted m a" "t \<in> set (smTails m) \<Longrightarrow> tailOk m t"
    and "\<not> smRunning m \<Longrightarrow> smLive m = []" "smStopped m \<Longrightarrow> smLive m = [] \<and> smRunning m"
  using assms by (auto simp: manager_inv_def)

lemma routedD:
  assumes "routed m" "mget (smLive m) n = Some a"
  shows "a < length (smInstances m)" "lsName (smInstances m ! a) = n" "\<not> lsCancelled (smInstances m ! a)"
  using assms by (auto simp: routed_def)

lemma tailOk_cong:
  assumes "tailOk m t" "length (smInstances m) \<le> length (smInstances m')"
    and "\<And>n a. a < length (smInstances m) \<Longrightarrow> mget (smLive m') n = Some a \<Longrightarrow> \<exists>n. mget (smLive m) n = Some a"
    and "\<And>a. a < length (smInstances m) \<Longrightarrow> lsName (smInstances m' ! a) = lsName (smInstances m ! a) \<and>
      (lsCancelled (smInstances m ! a) \<longrightarrow> lsCancelled (smInstances m' ! a)) \<and> (lsDone (smInstances m ! a) \<longrightarrow> lsDone (smInstances m' ! a))"
  shows "tailOk m' t"
proof -
  have drained: "drainedOk m' n inst gaveUp" if "drainedOk m n inst gaveUp" for n inst gaveUp
    using that assms(2,4) by (auto simp: drainedOk_def)
  show ?thesis
  proof (cases t)
    case (DrainStart a goal)
    then have a: "a < length (smInstances m)" "\<forall>n. mget (smLive m) n \<noteq> Some a" using assms(1) by auto
    then have "\<forall>n. mget (smLive m') n \<noteq> Some a" using assms(3) by blast
    then show ?thesis using assms(1,2,4) DrainStart a(1) by auto
  next
    case (DrainWait a goal)
    then show ?thesis using assms(1,2,4) by auto
  qed (use assms(1) drained in auto)
qed

lemma nth_modify: "j < length xs \<Longrightarrow> xs[i := v] ! j = (if i = j then v else xs ! j)"
  by (cases "i = j") simp_all

lemma tailOk_frame:
  "tailOk (m\<lparr>smPending := p\<rparr>) t = tailOk m t" "tailOk (m\<lparr>smTails := ts\<rparr>) t = tailOk m t" "tailOk (m\<lparr>smCalls := cs\<rparr>) t = tailOk m t"
  by (cases t; simp add: drainedOk_def)+

lemma tailOk_running: "tailOk (m\<lparr>smRunning := b, smPending := p\<rparr>) t = tailOk m t"
  by (cases t) (simp_all add: drainedOk_def)

lemma manager_inv_swap:
  assumes inv: "manager_inv m" and running: "smRunning m" "\<not> smStopped m"
    and inst: "\<not> lsCancelled inst" "lsName inst = name"
    and m': "m' = m\<lparr>smInstances := smInstances m @ [inst], smLive := mput name (length (smInstances m)) (smLive m),
      smTails := smTails m @ (case mget (smLive m) name of None \<Rightarrow> [] | Some old \<Rightarrow> [DrainStart old None])\<rparr>"
  shows "manager_inv m'"
proof -
  note R = routedD [OF manager_invD(2) [OF inv]]
  have route: "routed m'" using R inst by (auto simp: routed_def m' nth_append intro: less_SucI)
  moreover have "accounted m' a" if "a < length (smInstances m')" for a
  proof (cases "a = length (smInstances m)")
    case True
    then show ?thesis by (auto simp: accounted_def m')
  next
    case False
    then have a: "a < length (smInstances m)" using that by (simp add: m')
    from manager_invD(3) [OF inv this] consider n where "mget (smLive m) n = Some a" | "lsCancelled (smInstances m ! a)"
      | goal where "DrainStart a goal \<in> set (smTails m)" by (auto simp: accounted_def)
    then show ?thesis
    proof cases
      case (1 n)
      show ?thesis
      proof (cases "n = name")
        case True
        then have "DrainStart a None \<in> set (smTails m')" using 1 by (simp add: m')
        then show ?thesis unfolding accounted_def by blast
      next
        case False
        then have "mget (smLive m') n = Some a" using 1 by (simp add: m')
        then show ?thesis unfolding accounted_def by blast
      qed
    qed (use a in \<open>auto simp: accounted_def m' nth_append\<close>)
  qed
  moreover have "tailOk m' t" if tin: "t \<in> set (smTails m')" for t
  proof (cases "t \<in> set (smTails m)")
    case True
    show ?thesis
      by (rule tailOk_cong [OF manager_invD(4) [OF inv True]]) (auto simp: m' nth_append split: if_splits)
  next
    case False
    then obtain old where old: "mget (smLive m) name = Some old" "t = DrainStart old None"
      using tin by (cases "mget (smLive m) name") (auto simp: m')
    have "mget (smLive m') n \<noteq> Some old" for n
      using R [OF old(1)] R(2) [of n old] by (auto simp: m')
    then show ?thesis using R(1) [OF old(1)] old(2) by (simp add: m')
  qed
  ultimately show ?thesis using manager_invD(1) [OF inv] running by (auto simp: manager_inv_def m')
qed

lemma ensureLocked_inv:
  assumes inv: "manager_inv m" and running: "smRunning m" "\<not> smStopped m"
  shows "manager_inv (snd (ensureLocked env name cfg m)) \<and> smRunning (snd (ensureLocked env name cfg m)) \<and> \<not> smStopped (snd (ensureLocked env name cfg m))"
proof -
  define current where "current = mget (smLive m) name"
  show ?thesis
  proof (cases "current \<noteq> None \<and> lsFingerprint (smInstances m ! the current) = mgFingerprint env cfg")
    case True
    then show ?thesis using assms by (simp add: ensureLocked_def Let_def current_def)
  next
    case False
    show ?thesis
    proof (cases "mgFactory env name cfg")
      case (Inl err)
      then show ?thesis using assms False by (auto simp: ensureLocked_def Let_def current_def)
    next
      case (Inr b)
      define inst where "inst = (newLiveSink name (mgFingerprint env cfg) b)\<lparr>lsProbing := (lsProber (newLiveSink name (mgFingerprint env cfg) b) \<noteq> None)\<rparr>"
      have "snd (ensureLocked env name cfg m) =
          m\<lparr>smInstances := smInstances m @ [inst], smLive := mput name (length (smInstances m)) (smLive m),
            smTails := smTails m @ (case mget (smLive m) name of None \<Rightarrow> [] | Some old \<Rightarrow> [DrainStart old None])\<rparr>"
        using False Inr
        by (cases current)
          (simp_all add: ensureLocked_def Let_def current_def startInstance_def swapLocked_def spawn_def inst_def split: option.split)
      moreover have "\<not> lsCancelled inst" "lsName inst = name" by (simp_all add: inst_def newLiveSink_def)
      ultimately show ?thesis using manager_inv_swap [OF inv running] running by simp
    qed
  qed
qed

lemma start_pending_inv:
  assumes "manager_inv m" "smRunning m" "\<not> smStopped m"
  shows "manager_inv (fold (\<lambda>name m. snd (ensureLocked env name (f name) m)) names m)"
  using assms
proof (induction names arbitrary: m)
  case (Cons name names)
  from ensureLocked_inv [OF Cons.prems, of env name "f name"] Cons.IH show ?case by simp
qed simp

lemma Delete_inv:
  assumes "manager_inv m"
  shows "manager_inv (Delete name m)"
proof (cases "smStopped m \<or> mget (smLive m) name = None")
  case True
  then show ?thesis using assms
    by (auto simp: Delete_def Let_def spawn_def manager_inv_def routed_def accounted_def drainedOk_def tailOk_frame)
next
  case False
  then obtain a where a: "mget (smLive m) name = Some a" and ns: "\<not> smStopped m" by auto
  note R = routedD [OF manager_invD(2) [OF assms]]
  define m' where "m' = m\<lparr>smPending := mdel name (smPending m), smLive := mdel name (smLive m), smTails := smTails m @ [DrainStart a (Some name)]\<rparr>"
  have eq: "Delete name m = m'" using a ns by (simp add: Delete_def Let_def spawn_def swapLocked_def m'_def)
  have wf: "mwf (smLive m)" by (rule manager_invD(1) [OF assms])
  have "routed m'" using R by (auto simp: routed_def m'_def split: if_splits)
  moreover have "accounted m' b" if b: "b < length (smInstances m')" for b
  proof -
    have "accounted m b" using manager_invD(3) [OF assms] b by (simp add: m'_def)
    then consider "b = a" | n where "n \<noteq> name" "mget (smLive m) n = Some b" | "lsCancelled (smInstances m ! b)"
      | goal where "DrainStart b goal \<in> set (smTails m)" unfolding accounted_def using a by (metis option.inject)
    then show ?thesis unfolding accounted_def by cases (auto simp: m'_def)
  qed
  moreover have "tailOk m' t" if tin: "t \<in> set (smTails m')" for t
  proof (cases "t \<in> set (smTails m)")
    case True
    show ?thesis by (rule tailOk_cong [OF manager_invD(4) [OF assms True]]) (auto simp: m'_def split: if_splits)
  next
    case False
    then have "t = DrainStart a (Some name)" using tin by (simp add: m'_def)
    moreover have "mget (smLive m') n \<noteq> Some a" for n using R(2) [of n a] R(2) [OF a] by (auto simp: m'_def)
    ultimately show ?thesis using R [OF a] by (simp add: m'_def)
  qed
  ultimately show ?thesis unfolding eq using wf manager_invD(5,6) [OF assms] ns by (auto simp: manager_inv_def m'_def)
qed

lemma fold_spawn: "fold (\<lambda>a. spawn (f a)) as m = m\<lparr>smTails := smTails m @ map f as\<rparr>"
  by (induction as arbitrary: m) (simp_all add: spawn_def)

lemma Shutdown_inv:
  assumes "manager_inv m" "smRunning m"
  shows "manager_inv (ShutdownManager m)"
proof -
  note R = routedD [OF manager_invD(2) [OF assms(1)]]
  define m' where "m' = m\<lparr>smStopped := True, smLive := [], smTails := smTails m @ map (\<lambda>a. DrainStart a None) (map snd (smLive m))\<rparr>"
  have eq: "ShutdownManager m = m'" by (simp add: ShutdownManager_def Let_def fold_spawn m'_def)
  have "accounted m' a" if "a < length (smInstances m')" for a
  proof -
    have "accounted m a" using manager_invD(3) [OF assms(1)] that by (simp add: m'_def)
    moreover have "DrainStart a None \<in> set (smTails m')" if "mget (smLive m) n = Some a" for n
      using map_of_SomeD [OF that] by (force simp: m'_def)
    ultimately show ?thesis unfolding accounted_def by (auto simp: m'_def)
  qed
  moreover have "tailOk m' t" if tin: "t \<in> set (smTails m')" for t
  proof (cases "t \<in> set (smTails m)")
    case True
    show ?thesis by (rule tailOk_cong [OF manager_invD(4) [OF assms(1) True]]) (auto simp: m'_def)
  next
    case False
    then obtain n a where "(n, a) \<in> set (smLive m)" "t = DrainStart a None" using tin by (auto simp: m'_def)
    then show ?thesis using R(1) [of n a] manager_invD(1) [OF assms(1)] by (simp add: m'_def)
  qed
  ultimately show ?thesis unfolding eq using assms(2) by (auto simp: manager_inv_def routed_def m'_def)
qed

lemma runTail_result:
  assumes "manager_inv m" "t \<in> set (smTails m)" "runTail env timedOut t m = (t', m')" "t' = Some u"
  shows "tailOk m' u"
  using manager_invD(4) [OF assms(1,2)] assms(3,4)
  by (cases t) (auto simp: cancelInstance_def parkDependents_def drainedOk_def split: if_splits option.splits)

lemma runTail_calls:
  assumes "runTail env timedOut t m = (r, m')" "\<forall>a goal. t \<noteq> DrainStart a goal"
  shows "m' = m\<lparr>smCalls := smCalls m'\<rparr>"
  using assms by (cases t) (auto simp: parkDependents_def split: if_splits)

lemma settleTail_set:
  assumes "i < length (smTails m)" "smTails m' = smTails m"
  shows "set (smTails m) = insert (smTails m ! i) (set (take i (smTails m)) \<union> set (drop (Suc i) (smTails m)))"
    and "set (smTails (settleTail i (r, m'))) = set_option r \<union> set (take i (smTails m)) \<union> set (drop (Suc i) (smTails m))"
proof -
  have "set (smTails m) = set (take i (smTails m) @ smTails m ! i # drop (Suc i) (smTails m))"
    using id_take_nth_drop [OF assms(1)] by simp
  then show "set (smTails m) = insert (smTails m ! i) (set (take i (smTails m)) \<union> set (drop (Suc i) (smTails m)))" by simp
  show "set (smTails (settleTail i (r, m'))) = set_option r \<union> set (take i (smTails m)) \<union> set (drop (Suc i) (smTails m))"
    by (cases r) (auto simp: settleTail_def assms(2))
qed

lemma settleTail_sel:
  "smLive (settleTail i (r, m)) = smLive m" "smInstances (settleTail i (r, m)) = smInstances m"
  "smRunning (settleTail i (r, m)) = smRunning m" "smStopped (settleTail i (r, m)) = smStopped m"
  "smCalls (settleTail i (r, m)) = smCalls m" "tailOk (settleTail i (r, m)) t = tailOk m t"
  by (simp_all add: settleTail_def tailOk_frame)

lemma settle_inv_calls:
  assumes inv: "manager_inv m" and i: "i < length (smTails m)" and t: "\<forall>a goal. smTails m ! i \<noteq> DrainStart a goal"
    and r: "runTail env timedOut (smTails m ! i) m = (r, m')"
  shows "manager_inv (settleTail i (r, m'))"
proof -
  obtain cs where m': "m' = m\<lparr>smCalls := cs\<rparr>" using runTail_calls [OF r t] by blast
  have mem: "smTails m ! i \<in> set (smTails m)" using i by simp
  have ts: "smTails m' = smTails m" by (simp add: m')
  define m2 where "m2 = settleTail i (r, m')"
  have "tailOk m2 u" if "u \<in> set (smTails m2)" for u
  proof -
    have "u \<in> set_option r \<or> u \<in> set (smTails m)" using that settleTail_set [OF i ts] by (auto simp: m2_def)
    then have "tailOk m' u" using manager_invD(4) [OF inv] runTail_result [OF inv mem r] by (auto simp: m' tailOk_frame)
    then show ?thesis by (simp add: m2_def settleTail_sel)
  qed
  moreover have "accounted m2 a" if "a < length (smInstances m)" for a
  proof -
    have keep: "DrainStart a goal \<in> set (smTails m2)" if "DrainStart a goal \<in> set (smTails m)" for goal
      using that t settleTail_set(1) [OF i ts] settleTail_set(2) [OF i ts, of r] by (metis UnI1 UnI2 Un_iff insert_iff m2_def)
    then show ?thesis using manager_invD(3) [OF inv that] unfolding accounted_def m2_def settleTail_sel by (auto simp: m')
  qed
  ultimately show ?thesis using inv unfolding m2_def [symmetric]
    by (simp add: manager_inv_def routed_def m2_def settleTail_sel m')
qed

lemma settle_inv_drain:
  assumes inv: "manager_inv m" and i: "i < length (smTails m)" and t: "smTails m ! i = DrainStart a goal"
  shows "manager_inv (settleTail i (Some (DrainWait a goal), cancelInstance a m))"
proof -
  define m' where "m' = cancelInstance a m"
  define m2 where "m2 = settleTail i (Some (DrainWait a goal), m')"
  have mem: "smTails m ! i \<in> set (smTails m)" using i by simp
  have ts: "smTails m' = smTails m" by (simp add: m'_def cancelInstance_def)
  have a: "a < length (smInstances m)" "\<forall>n. mget (smLive m) n \<noteq> Some a" "\<forall>n. goal = Some n \<longrightarrow> lsName (smInstances m ! a) = n"
    using manager_invD(4) [OF inv mem] by (simp_all add: t)
  have "tailOk m2 u" if u: "u \<in> set (smTails m2)" for u
  proof -
    have "u = DrainWait a goal \<or> u \<in> set (smTails m)" using u settleTail_set [OF i ts] by (auto simp: m2_def)
    then have "tailOk m' u"
    proof
      assume "u = DrainWait a goal"
      then show ?thesis using a by (simp add: m'_def cancelInstance_def)
    next
      assume "u \<in> set (smTails m)"
      then show ?thesis
        by (intro tailOk_cong [OF manager_invD(4) [OF inv]]) (auto simp: m'_def cancelInstance_def nth_modify)
    qed
    then show ?thesis by (simp add: m2_def settleTail_sel)
  qed
  moreover have "routed m2"
    using manager_invD(2) [OF inv] a(2) by (auto simp: routed_def m2_def settleTail_sel m'_def cancelInstance_def nth_modify)
  moreover have "accounted m2 b" if b: "b < length (smInstances m)" for b
  proof (cases "b = a")
    case True
    then show ?thesis using a(1) by (simp add: accounted_def m2_def settleTail_sel m'_def cancelInstance_def)
  next
    case False
    then show ?thesis
      using manager_invD(3) [OF inv b] settleTail_set(1) [OF i ts] settleTail_set(2) [OF i ts, of "Some (DrainWait a goal)"] t
      unfolding accounted_def m2_def settleTail_sel by (auto simp: m'_def cancelInstance_def nth_modify)
  qed
  ultimately show ?thesis using inv unfolding m'_def [symmetric] m2_def [symmetric]
    by (simp add: manager_inv_def m2_def settleTail_sel m'_def cancelInstance_def)
qed

lemma manager_reach_inv: "manager_reach m \<Longrightarrow> manager_inv m"
proof (induction rule: manager_reach.induct)
  case (manager_new m)
  then show ?case by (auto simp: NewSinkManager_def manager_inv_def routed_def)
next
  case (manager_step m step)
  show ?case
  proof (cases step)
    case (DoEnsure env name cfg)
    then show ?thesis using manager_step.IH ensureLocked_inv [of m env name]
      by (auto simp: Ensure_def manager_inv_def routed_def accounted_def tailOk_frame split: option.split)
  next
    case (DoStart env)
    have "manager_inv (m\<lparr>smRunning := True, smPending := []\<rparr>)" "\<not> smStopped m" if "\<not> smRunning m"
      using manager_step.IH that by (auto simp: manager_inv_def routed_def accounted_def tailOk_running)
    then show ?thesis using DoStart manager_step.IH by (auto simp: StartManager_def Let_def intro!: start_pending_inv)
  next
    case (DoTail env timedOut i)
    then show ?thesis
      using manager_step.IH settle_inv_calls [of m i] settle_inv_drain [of m i]
      by (cases "i < length (smTails m)"; cases "smTails m ! i"; cases "runTail env timedOut (smTails m ! i) m") auto
  next
    case (DoReturn a)
    define m' where "m' = m\<lparr>smInstances := (smInstances m)[a := (smInstances m ! a)\<lparr>lsDone := True\<rparr>]\<rparr>"
    have "tailOk m' t" if "t \<in> set (smTails m)" for t
      by (rule tailOk_cong [OF manager_invD(4) [OF manager_step.IH that]]) (auto simp: m'_def nth_modify)
    then have "manager_inv m'"
      using manager_step.IH by (auto simp: manager_inv_def routed_def accounted_def m'_def nth_modify)
    then show ?thesis using DoReturn manager_step.IH by (simp add: m'_def)
  qed (use manager_step.IH Delete_inv Shutdown_inv in auto)
qed


definition sampleBackend :: backend where
  "sampleBackend = \<lparr>bkWriter = \<lparr>wID = 0, wCheckpointEvery = None\<rparr>, bkReader = True, bkEvents = True, bkProber = True\<rparr>"

definition sampleManagerEnv :: "string managerEnv" where
  "sampleManagerEnv = \<lparr>mgFactory = (\<lambda>name cfg. if cfg = ''bad'' then Inl ''refused'' else Inr sampleBackend), mgFingerprint = id, mgWarm = True,
     mgDependents = Some (\<lambda>name. [''rule'']), mgPark = True\<rparr>"

definition sampleSinks :: "string managerStep list \<Rightarrow> string SinkManager" where
  "sampleSinks steps = fold manager_exec steps
     \<lparr>smLive = [], smInstances = [], smRunning = False, smPending = [], smStopped = False, smTails = [], smCalls = []\<rparr>"

lemma manager_reach_fold: "manager_reach m \<Longrightarrow> manager_reach (fold manager_exec steps m)"
  by (induction steps arbitrary: m) (simp_all add: manager_step)

lemma sampleSinks_reach: "manager_reach (sampleSinks steps)"
  unfolding sampleSinks_def by (rule manager_reach_fold [OF manager_new]) (simp add: NewSinkManager_def)


section \<open>Rotation\<close>

lemma ensureLocked_same:
  assumes "mget (smLive m) name = Some a" "lsFingerprint (smInstances m ! a) = mgFingerprint env cfg"
  shows "ensureLocked env name cfg m = (None, m)"
  using assms by (simp add: ensureLocked_def Let_def)

text \<open>Declaring a sink.  On a running manager \<open>Ensure\<close> fails only if the factory does, and then changes
  nothing, so the previous instance keeps serving.  Otherwise the name is routed to an instance of the
  declared fingerprint, no other route changes, no instance that existed before is touched, and the
  background work is what it was, plus the drain of the instance replaced if its fingerprint differed,
  so routing moves before the old instance is stopped.  Declaring the same again does nothing.\<close>

theorem ensure_rotates:
  assumes "manager_reach m" "smRunning m" "\<not> smStopped m" "name \<noteq> ''''" "Ensure env name (Some cfg) m = (err, m')"
  shows "case err of
      Some e \<Rightarrow> m' = m \<and> (\<exists>msg. e = BuildFailed name msg \<and> mgFactory env name cfg = Inl msg)
    | None \<Rightarrow>
        (\<exists>a. mget (smLive m') name = Some a \<and> lsFingerprint (smInstances m' ! a) = mgFingerprint env cfg \<and>
           \<not> lsCancelled (smInstances m' ! a)) \<and>
        (\<forall>other. other \<noteq> name \<longrightarrow> mget (smLive m') other = mget (smLive m) other) \<and>
        take (length (smInstances m)) (smInstances m') = smInstances m \<and>
        smTails m' = smTails m @ (case mget (smLive m) name of
            None \<Rightarrow> []
          | Some old \<Rightarrow> if lsFingerprint (smInstances m ! old) = mgFingerprint env cfg then [] else [DrainStart old None]) \<and>
        Ensure env name (Some cfg) m' = (None, m')"
proof -
  have eq: "ensureLocked env name cfg m = (err, m')" using assms(2-5) by (simp add: Ensure_def)
  note R = routedD [OF manager_invD(2) [OF manager_reach_inv [OF assms(1)]]]
  show ?thesis
  proof (cases "\<exists>a. mget (smLive m) name = Some a \<and> lsFingerprint (smInstances m ! a) = mgFingerprint env cfg")
    case True
    then obtain a where a: "mget (smLive m) name = Some a" "lsFingerprint (smInstances m ! a) = mgFingerprint env cfg" by blast
    then have "err = None" "m' = m" using eq by (simp_all add: ensureLocked_same)
    then show ?thesis using a R(3) [OF a(1)] assms(5) by simp
  next
    case False
    then have new: "\<not> (mget (smLive m) name \<noteq> None \<and> lsFingerprint (smInstances m ! the (mget (smLive m) name)) = mgFingerprint env cfg)"
      by auto
    show ?thesis
    proof (cases "mgFactory env name cfg")
      case (Inl msg)
      then show ?thesis using eq new by (auto simp: ensureLocked_def Let_def)
    next
      case (Inr b)
      define inst where "inst = (newLiveSink name (mgFingerprint env cfg) b)\<lparr>lsProbing := (lsProber (newLiveSink name (mgFingerprint env cfg) b) \<noteq> None)\<rparr>"
      have inst: "lsFingerprint inst = mgFingerprint env cfg" "\<not> lsCancelled inst" by (simp_all add: inst_def newLiveSink_def)
      have res: "err = None" "m' = m\<lparr>smInstances := smInstances m @ [inst], smLive := mput name (length (smInstances m)) (smLive m),
            smTails := smTails m @ (case mget (smLive m) name of None \<Rightarrow> [] | Some old \<Rightarrow> [DrainStart old None])\<rparr>"
        using eq new Inr
        by (auto simp: ensureLocked_def Let_def startInstance_def swapLocked_def spawn_def inst_def split: option.splits)
      have "ensureLocked env name cfg m' = (None, m')"
        by (rule ensureLocked_same [of _ _ "length (smInstances m)"]) (simp_all add: res(2) inst)
      then have "Ensure env name (Some cfg) m' = (None, m')" using assms(2-4) by (simp add: Ensure_def res(2))
      moreover have "smTails m' = smTails m @ (case mget (smLive m) name of
            None \<Rightarrow> [] | Some old \<Rightarrow> if lsFingerprint (smInstances m ! old) = mgFingerprint env cfg then [] else [DrainStart old None])"
        using False by (auto simp: res(2) split: option.split)
      moreover have "\<exists>a. mget (smLive m') name = Some a \<and> lsFingerprint (smInstances m' ! a) = mgFingerprint env cfg \<and>
           \<not> lsCancelled (smInstances m' ! a)" by (simp add: res(2) inst)
      moreover have "\<forall>other. other \<noteq> name \<longrightarrow> mget (smLive m') other = mget (smLive m) other" "take (length (smInstances m)) (smInstances m') = smInstances m"
        by (simp_all add: res(2))
      ultimately show ?thesis unfolding res(1) option.case by (intro conjI)
    qed
  qed
qed

theorem ensure_rotates_witness:
  "let m = sampleSinks [DoStart sampleManagerEnv, DoEnsure sampleManagerEnv ''s'' (Some ''v1'')];
       (err, m') = Ensure sampleManagerEnv ''s'' (Some ''v2'') m
   in err = None \<and> smTails m' = smTails m @ [DrainStart 0 None] \<and> Ensure sampleManagerEnv ''s'' (Some ''v2'') m' = (None, m') \<and>
      Ensure sampleManagerEnv ''s'' (Some ''bad'') m = (Some (BuildFailed ''s'' ''refused''), m)"
proof -
  define m where "m = sampleSinks [DoStart sampleManagerEnv, DoEnsure sampleManagerEnv ''s'' (Some ''v1'')]"
  obtain err m' where e: "Ensure sampleManagerEnv ''s'' (Some ''v2'') m = (err, m')" by fastforce
  have "manager_reach m" unfolding m_def by (rule sampleSinks_reach)
  moreover have st: "smRunning m" "\<not> smStopped m" "mget (smLive m) ''s'' = Some 0" "lsFingerprint (smInstances m ! 0) = ''v1''"
    "fst (Ensure sampleManagerEnv ''s'' (Some ''v2'') m) = None" "fst (Ensure sampleManagerEnv ''s'' (Some ''bad'') m) = Some (BuildFailed ''s'' ''refused'')"
    unfolding m_def by code_simp+
  ultimately have law: "\<And>err m'. Ensure sampleManagerEnv ''s'' (Some ''v2'') m = (err, m') \<Longrightarrow> err = None \<Longrightarrow>
        smTails m' = smTails m @ [DrainStart 0 None] \<and> Ensure sampleManagerEnv ''s'' (Some ''v2'') m' = (None, m')"
      "\<And>err m'. Ensure sampleManagerEnv ''s'' (Some ''bad'') m = (err, m') \<Longrightarrow> err \<noteq> None \<Longrightarrow> m' = m"
    using ensure_rotates [of m "''s''" sampleManagerEnv "''v2''"] ensure_rotates [of m "''s''" sampleManagerEnv "''bad''"]
    by (auto simp: sampleManagerEnv_def)
  obtain x y where b: "Ensure sampleManagerEnv ''s'' (Some ''bad'') m = (x, y)" by fastforce
  show ?thesis using law(1) [OF e] law(2) [OF b] st(5,6) unfolding Let_def m_def [symmetric] e b by simp
qed

section \<open>Shutdown\<close>

fun work :: "tail \<Rightarrow> nat" where
  "work (DrainStart a goal) = 6"
| "work (DrainWait a goal) = 5"
| "work (CheckRecreated n inst gaveUp) = 4"
| "work (Evict n inst gaveUp) = 3"
| "work (Forget n inst gaveUp) = 2"
| "work (ParkDependents n inst gaveUp) = 1"

definition totalWork :: "'c SinkManager \<Rightarrow> nat" where
  "totalWork m = sum_list (map work (smTails m))"

lemma runTail_work:
  assumes "runTail env timedOut t m = (r, m')"
  shows "smTails m' = smTails m" "smStopped m' = smStopped m"
    and "timedOut \<Longrightarrow> (case r of None \<Rightarrow> 0 | Some u \<Rightarrow> work u) < work t"
    and "(case r of None \<Rightarrow> 0 | Some u \<Rightarrow> work u) \<le> work t"
  using assms by (cases t; auto simp: cancelInstance_def parkDependents_def split: if_splits option.splits)+

lemma totalWork_tail:
  assumes "i < length (smTails m)"
  shows "totalWork (manager_exec (DoTail env True i) m) < totalWork m" "totalWork (manager_exec (DoTail env timedOut i) m) \<le> totalWork m"
    and "smStopped (manager_exec (DoTail env timedOut i) m) = smStopped m"
proof -
  have split: "totalWork m = sum_list (map work (take i (smTails m))) + work (smTails m ! i) + sum_list (map work (drop (Suc i) (smTails m)))"
  proof -
    have "totalWork m = sum_list (map work (take i (smTails m) @ smTails m ! i # drop (Suc i) (smTails m)))"
      unfolding totalWork_def using id_take_nth_drop [OF assms] by simp
    then show ?thesis by simp
  qed
  have after: "totalWork (manager_exec (DoTail env timedOut i) m) = sum_list (map work (take i (smTails m))) +
      (case fst (runTail env timedOut (smTails m ! i) m) of None \<Rightarrow> 0 | Some u \<Rightarrow> work u) + sum_list (map work (drop (Suc i) (smTails m)))" for timedOut
  proof -
    obtain r m' where r: "runTail env timedOut (smTails m ! i) m = (r, m')" by fastforce
    then show ?thesis using assms runTail_work(1) [OF r] by (auto simp: totalWork_def settleTail_def split: option.split)
  qed
  obtain r m' where r: "runTail env True (smTails m ! i) m = (r, m')" by fastforce
  show "totalWork (manager_exec (DoTail env True i) m) < totalWork m" using split after [of True] runTail_work(3) [OF r] r by simp
  obtain r m' where r: "runTail env timedOut (smTails m ! i) m = (r, m')" by fastforce
  show "totalWork (manager_exec (DoTail env timedOut i) m) \<le> totalWork m" using split after [of timedOut] runTail_work(4) [OF r] r by simp
  show "smStopped (manager_exec (DoTail env timedOut i) m) = smStopped m" using assms r runTail_work(2) [OF r] by (simp add: settleTail_sel)
qed



section \<open>Deletion and re-creation\<close>

text \<open>C16. A sink that is created again just as its deletion finishes loses the state of the new instance.
  The deletion looks for a successor, releases its lock and only then evicts: with the new instance
  declared in between, the pipeline state and the warm-up bookkeeping of the sink are discarded and its
  rules are parked although the name is routed to a running instance.\<close>

theorem recreated_sink_evicted:
  assumes "manager_reach m" "smRunning m" "\<not> smStopped m" "name \<noteq> ''''" "mget (smLive m) name = Some a" "smTails m = []"
    and "mgFactory env name cfg = Inr b" "mgWarm env" "mgPark env"
  shows "let m' = fold manager_exec [DoDelete name, DoTail env False 0, DoReturn a, DoTail env False 0, DoTail env False 0,
               DoEnsure env name (Some cfg), DoTail env False 0, DoTail env False 0, DoTail env False 0] m
    in WriterFor m' name = Some (bkWriter b) \<and> smTails m' = [] \<and>
       smCalls m' = smCalls m @ [CallRemoveSink name, CallForgetSink name,
         CallPark name (case mgDependents env of None \<Rightarrow> [] | Some f \<Rightarrow> f name)]"
proof -
  note R = routedD [OF manager_invD(2) [OF manager_reach_inv [OF assms(1)]] assms(5)]
  have gone: "mget (mdel name (smLive m)) name = None" "\<not> mhas (mdel name (smLive m)) name" by (simp_all add: mhas_def)
  show ?thesis
    using assms R gone
    by (simp add: Delete_def Let_def swapLocked_def spawn_def settleTail_def cancelInstance_def Ensure_def ensureLocked_def
        startInstance_def newLiveSink_def parkDependents_def WriterFor_def nth_append)
qed

theorem recreated_sink_evicted_witness:
  "let m = sampleSinks [DoStart sampleManagerEnv, DoEnsure sampleManagerEnv ''s'' (Some ''v1'')];
       m' = fold manager_exec [DoDelete ''s'', DoTail sampleManagerEnv False 0, DoReturn 0, DoTail sampleManagerEnv False 0, DoTail sampleManagerEnv False 0,
               DoEnsure sampleManagerEnv ''s'' (Some ''v1''), DoTail sampleManagerEnv False 0, DoTail sampleManagerEnv False 0, DoTail sampleManagerEnv False 0] m
   in WriterFor m' ''s'' = Some (bkWriter sampleBackend) \<and> CallRemoveSink ''s'' \<in> set (smCalls m')"
proof -
  define m where "m = sampleSinks [DoStart sampleManagerEnv, DoEnsure sampleManagerEnv ''s'' (Some ''v1'')]"
  have "manager_reach m" unfolding m_def by (rule sampleSinks_reach)
  moreover have "smRunning m" "\<not> smStopped m" "mget (smLive m) ''s'' = Some 0" "smTails m = []"
    unfolding m_def by code_simp+
  ultimately show ?thesis
    using recreated_sink_evicted [of m "''s''" 0 sampleManagerEnv "''v1''" sampleBackend] unfolding m_def [symmetric] Let_def
    by (simp add: sampleManagerEnv_def del: fold.simps manager_exec.simps)
qed

end
