(* ===== verification/WriteQueue.thy ===== *)
theory WriteQueue
imports Sink "HOL-Library.Multiset"
begin

text \<open>
  The asynchronous writer of the ClickHouse sink (internal/sink/clickhouse/writer.go and
  scopewriter.go): a bounded queue of row jobs drained by several workers that batch, retry and
  isolate, a second queue of scope events drained by one worker with its own retry queue, and the
  shutdown that closes both.  A sender that passed the closing check is a value of \<open>sender\<close> until it
  has sent or given up; a worker is the batch it holds, or None once it has returned.  What the
  database does with an attempt is an \<open>attempt\<close> chosen by the environment: the driver's documented
  outcomes, a failed send included that stored any part of the batch.  Deadlines are not modelled: a
  step may give up, or a timer fire, at any time.
\<close>

section \<open>Rows\<close>

datatype chValue = VTime int | VString string | VMap "(string, string) gomap" | VArray "string list"

definition insertArgs :: "Record \<Rightarrow> chValue list" where
  "insertArgs r =
     [VTime (rTimestamp r), VString (rClusterID r), VString (rEventType r), VString (rAPIGroup r), VString (rAPIVersion r),
      VString (rKind r), VString (rNamespace r), VString (rName r), VString (rUID r), VString (rResourceVersion r),
      VMap (rLabels r), VArray (rActors r), VString (rData r), VString (rDiff r), VString (rSHA256 r)]"

definition actionString :: "ScopeAction \<Rightarrow> string" where
  "actionString a = (case a of ScopeActionStarted \<Rightarrow> ''Started'' | ScopeActionStopped \<Rightarrow> ''Stopped'')"

definition scopeInsertArgs :: "ScopeEvent \<Rightarrow> chValue list" where
  "scopeInsertArgs e =
     [VTime (seTS e), VString (sfClusterID (seScope e)), VString (sfAPIGroup (seScope e)), VString (seAPIVersion e),
      VString (sfKind (seScope e)), VString (sfNamespace (seScope e)), VString (actionString (seAction e)), VString (seRuleRef e)]"

record 'c writeJob =
  wjArgs :: "chValue list"
  wjCommit :: "'c option"

section \<open>State\<close>

datatype 'c sender = SendJob "'c writeJob" | SendScope ScopeEvent

record 'c CHWriter =
  cwQueueSize :: int
  cwWorkerCount :: int
  cwBatchMaxRows :: int
  cwBatchMaxWait :: int
  cwEnqueueTimeout :: int
  cwInsertTimeout :: int
  cwMaxRetryBackoff :: int
  cwShutdownDrainTimeout :: int
  cwCheckpointEvery :: int
  cwDatabase :: string
  cwAutoCreate :: bool
  cwJobs :: "'c writeJob list"
  cwWorkers :: "'c writeJob list option list"
  cwScopeEvents :: "ScopeEvent list"
  cwScopeWorker :: "ScopeEvent list option"
  cwScopeRetries :: "ScopeEvent list"
  cwStarted :: bool
  cwClosing :: bool
  cwClosed :: bool
  cwSenders :: "'c sender list"
  cwOtherUsers :: nat
  cwConnOpen :: bool
  cwAccepted :: "'c writeJob list"
  cwSettled :: "('c writeJob \<times> bool) list"
  cwRows :: "chValue list list"
  cwScopeAccepted :: "ScopeEvent list"
  cwScopeDone :: "ScopeEvent list"
  cwScopeDropped :: "ScopeEvent list"
  cwScopeRows :: "ScopeEvent list"
  cwPanicked :: bool
  cwUsedClosed :: bool

text \<open>The last nine fields are a record of the run: jobs and events taken over, callbacks fired, rows and
  events stored, events dropped, and the two accidents that must not happen, a send on a closed
  channel and a use of a closed connection.\<close>

definition second :: int where
  "second = 1000000000"

definition DefaultWriteQueueSize :: int where "DefaultWriteQueueSize = 5000"
definition DefaultWriteWorkers :: int where "DefaultWriteWorkers = 4"
definition DefaultBatchMaxRows :: int where "DefaultBatchMaxRows = 1000"
definition DefaultBatchMaxWait :: int where "DefaultBatchMaxWait = second"
definition DefaultEnqueueTimeout :: int where "DefaultEnqueueTimeout = 2 * second"
definition DefaultShutdownDrainTimeout :: int where "DefaultShutdownDrainTimeout = 15 * second"
definition DefaultCheckpointEvery :: int where "DefaultCheckpointEvery = 50"
definition defaultInsertTimeout :: int where "defaultInsertTimeout = 5 * second"
definition defaultMaxRetryBackoff :: int where "defaultMaxRetryBackoff = 60 * second"
definition scopeQueueSize :: int where "scopeQueueSize = 2048"
definition scopeBatchMaxRows :: int where "scopeBatchMaxRows = 64"
definition scopeRetryQueueMaxLen :: int where "scopeRetryQueueMaxLen = 4096"

definition orDefault :: "int \<Rightarrow> int \<Rightarrow> int" where
  "orDefault d x = (if x \<le> 0 then d else x)"

definition NewCHWriter :: "int \<Rightarrow> int \<Rightarrow> int \<Rightarrow> int \<Rightarrow> int \<Rightarrow> int \<Rightarrow> int \<Rightarrow> int \<Rightarrow> 'c CHWriter" where
  "NewCHWriter queueSize workers batchMaxRows insertTimeout maxRetryBackoff shutdownDrainTimeout batchMaxWait enqueueTimeout =
     \<lparr>cwQueueSize = orDefault DefaultWriteQueueSize queueSize, cwWorkerCount = orDefault DefaultWriteWorkers workers,
      cwBatchMaxRows = orDefault DefaultBatchMaxRows batchMaxRows, cwBatchMaxWait = orDefault DefaultBatchMaxWait batchMaxWait,
      cwEnqueueTimeout = orDefault DefaultEnqueueTimeout enqueueTimeout,
      cwInsertTimeout = orDefault defaultInsertTimeout insertTimeout,
      cwMaxRetryBackoff = orDefault defaultMaxRetryBackoff maxRetryBackoff,
      cwShutdownDrainTimeout = orDefault DefaultShutdownDrainTimeout shutdownDrainTimeout,
      cwCheckpointEvery = DefaultCheckpointEvery, cwDatabase = '''', cwAutoCreate = False,
      cwJobs = [], cwWorkers = [], cwScopeEvents = [], cwScopeWorker = None, cwScopeRetries = [],
      cwStarted = False, cwClosing = False, cwClosed = False, cwSenders = [], cwOtherUsers = 0, cwConnOpen = True,
      cwAccepted = [], cwSettled = [], cwRows = [], cwScopeAccepted = [], cwScopeDone = [], cwScopeDropped = [],
      cwScopeRows = [], cwPanicked = False, cwUsedClosed = False\<rparr>"

section \<open>Sending\<close>

datatype attempt = PrepareFails | AppendFails | SendFails "nat \<Rightarrow> bool" | SendOk

text \<open>Whether an attempt reports success, and the rows it stored.\<close>

fun sendBatchOnce :: "attempt \<Rightarrow> 'r list \<Rightarrow> bool \<times> 'r list" where
  "sendBatchOnce PrepareFails batch = (False, [])"
| "sendBatchOnce AppendFails batch = (False, [])"
| "sendBatchOnce (SendFails stored) batch = (False, map ((!) batch) (filter stored [0..<length batch]))"
| "sendBatchOnce SendOk batch = (True, batch)"

text \<open>\<open>backoff.Retry\<close>: a first attempt, and as many more as the back-off grants while none succeeds.\<close>

fun sendBatch :: "attempt \<Rightarrow> attempt list \<Rightarrow> 'r list \<Rightarrow> bool \<times> 'r list" where
  "sendBatch a [] batch = sendBatchOnce a batch"
| "sendBatch a (b # more_attempts) batch =
     (case sendBatchOnce a batch of
        (True, rows) \<Rightarrow> (True, rows)
      | (False, rows) \<Rightarrow> (case sendBatch b more_attempts batch of (ok, later) \<Rightarrow> (ok, rows @ later)))"

record flushEnv =
  feFirst :: attempt
  feRetries :: "attempt list"
  feRow :: "nat \<Rightarrow> attempt"

definition useConn :: "'c CHWriter \<Rightarrow> 'c CHWriter" where
  "useConn w = w\<lparr>cwUsedClosed := (cwUsedClosed w \<or> \<not> cwConnOpen w)\<rparr>"

definition settleJob :: "bool \<Rightarrow> 'c writeJob \<Rightarrow> 'c CHWriter \<Rightarrow> 'c CHWriter" where
  "settleJob ok job w = w\<lparr>cwSettled := cwSettled w @ [(job, ok)]\<rparr>"

definition isolateRow :: "flushEnv \<Rightarrow> nat \<times> 'c writeJob \<Rightarrow> 'c CHWriter \<Rightarrow> 'c CHWriter" where
  "isolateRow env ij w =
     (case sendBatchOnce (feRow env (fst ij)) [wjArgs (snd ij)] of
        (ok, rows) \<Rightarrow> settleJob ok (snd ij) (w\<lparr>cwRows := cwRows w @ rows\<rparr>))"

definition flushBatch :: "flushEnv \<Rightarrow> 'c writeJob list \<Rightarrow> 'c CHWriter \<Rightarrow> 'c CHWriter" where
  "flushBatch env batch w =
     (case sendBatch (feFirst env) (feRetries env) (map wjArgs batch) of
        (ok, rows) \<Rightarrow>
          let w = (useConn w)\<lparr>cwRows := cwRows w @ rows\<rparr>
          in if ok then fold (settleJob True) batch w
             else fold (isolateRow env) (enumerate 0 batch) w)"

section \<open>Enqueueing\<close>

datatype enqueueError = ShuttingDown

definition EnqueueBegin :: "Record \<Rightarrow> 'c option \<Rightarrow> 'c CHWriter \<Rightarrow> enqueueError option \<times> 'c CHWriter" where
  "EnqueueBegin rec commit w =
     (let internal = \<lparr>wjArgs = insertArgs rec, wjCommit = commit\<rparr>
      in if cwClosing w then (Some ShuttingDown, w)
         else (None, w\<lparr>cwSenders := cwSenders w @ [SendJob internal]\<rparr>))"

definition EnqueueScopeEvent :: "ScopeEvent \<Rightarrow> 'c CHWriter \<Rightarrow> enqueueError option \<times> 'c CHWriter" where
  "EnqueueScopeEvent event w =
     (if cwClosing w then (Some ShuttingDown, w)
      else (None, w\<lparr>cwSenders := cwSenders w @ [SendScope event]\<rparr>))"

definition removeSender :: "nat \<Rightarrow> 'c CHWriter \<Rightarrow> 'c CHWriter" where
  "removeSender i w = w\<lparr>cwSenders := take i (cwSenders w) @ drop (Suc i) (cwSenders w)\<rparr>"

definition EnqueueSend :: "nat \<Rightarrow> 'c CHWriter \<Rightarrow> 'c CHWriter" where
  "EnqueueSend i w =
     (if i \<ge> length (cwSenders w) then w
      else if cwClosed w then w\<lparr>cwPanicked := True\<rparr>
      else case cwSenders w ! i of
        SendJob job \<Rightarrow>
          if int (length (cwJobs w)) < cwQueueSize w
          then (removeSender i w)\<lparr>cwJobs := cwJobs w @ [job], cwAccepted := cwAccepted w @ [job]\<rparr> else w
      | SendScope event \<Rightarrow>
          if int (length (cwScopeEvents w)) < scopeQueueSize
          then (removeSender i w)\<lparr>cwScopeEvents := cwScopeEvents w @ [event], cwScopeAccepted := cwScopeAccepted w @ [event]\<rparr> else w)"

section \<open>Workers\<close>

definition startWorkers :: "'c CHWriter \<Rightarrow> 'c CHWriter" where
  "startWorkers w =
     w\<lparr>cwStarted := True, cwWorkers := replicate (nat (cwWorkerCount w)) (Some []), cwScopeWorker := Some [],
       cwOtherUsers := cwOtherUsers w + (if cwAutoCreate w \<and> \<not> cwClosing w then 1 else 0)\<rparr>"

definition workerReceive :: "flushEnv \<Rightarrow> nat \<Rightarrow> 'c CHWriter \<Rightarrow> 'c CHWriter" where
  "workerReceive env k w =
     (if k \<ge> length (cwWorkers w) then w
      else case cwWorkers w ! k of
        None \<Rightarrow> w
      | Some batch \<Rightarrow>
          (case cwJobs w of
             [] \<Rightarrow>
               if \<not> cwClosed w then w
               else let w = (if batch \<noteq> [] then flushBatch env batch w else w) in w\<lparr>cwWorkers := (cwWorkers w)[k := None]\<rparr>
           | job # rest \<Rightarrow>
               let w = w\<lparr>cwJobs := rest\<rparr>; batch = batch @ [job]
               in if int (length batch) \<ge> cwBatchMaxRows w
                  then let w = flushBatch env batch w in w\<lparr>cwWorkers := (cwWorkers w)[k := Some []]\<rparr>
                  else w\<lparr>cwWorkers := (cwWorkers w)[k := Some batch]\<rparr>))"

definition workerTimer :: "flushEnv \<Rightarrow> nat \<Rightarrow> 'c CHWriter \<Rightarrow> 'c CHWriter" where
  "workerTimer env k w =
     (if k \<ge> length (cwWorkers w) then w
      else case cwWorkers w ! k of
        None \<Rightarrow> w
      | Some batch \<Rightarrow>
          if batch = [] then w
          else let w = flushBatch env batch w in w\<lparr>cwWorkers := (cwWorkers w)[k := Some []]\<rparr>)"

definition queueScopeRetries :: "ScopeEvent list \<Rightarrow> 'c CHWriter \<Rightarrow> 'c CHWriter" where
  "queueScopeRetries batch w =
     (let retries = cwScopeRetries w @ batch;
          overflow = int (length retries) - scopeRetryQueueMaxLen
      in if overflow > 0
         then w\<lparr>cwScopeRetries := drop (nat overflow) retries, cwScopeDropped := cwScopeDropped w @ take (nat overflow) retries\<rparr>
         else w\<lparr>cwScopeRetries := retries\<rparr>)"

definition takeScopeRetries :: "'c CHWriter \<Rightarrow> ScopeEvent list \<times> 'c CHWriter" where
  "takeScopeRetries w = (cwScopeRetries w, w\<lparr>cwScopeRetries := []\<rparr>)"

definition flushScopeBatch :: "flushEnv \<Rightarrow> ScopeEvent list \<Rightarrow> 'c CHWriter \<Rightarrow> 'c CHWriter" where
  "flushScopeBatch env batch w =
     (if batch = [] then w
      else case sendBatch (feFirst env) (feRetries env) batch of
        (ok, rows) \<Rightarrow>
          let w = (useConn w)\<lparr>cwScopeRows := cwScopeRows w @ rows\<rparr>
          in if ok then w\<lparr>cwScopeDone := cwScopeDone w @ batch\<rparr> else queueScopeRetries batch w)"

definition scopeReceive :: "flushEnv \<Rightarrow> 'c CHWriter \<Rightarrow> 'c CHWriter" where
  "scopeReceive env w =
     (case cwScopeWorker w of
        None \<Rightarrow> w
      | Some batch \<Rightarrow>
          (case cwScopeEvents w of
             [] \<Rightarrow>
               if \<not> cwClosed w then w
               else let (pending, w) = takeScopeRetries w; batch = batch @ pending;
                        w = (if batch \<noteq> [] then flushScopeBatch env batch w else w)
                    in w\<lparr>cwScopeWorker := None\<rparr>
           | event # rest \<Rightarrow>
               let w = w\<lparr>cwScopeEvents := rest\<rparr>; batch = batch @ [event]
               in if int (length batch) \<ge> scopeBatchMaxRows
                  then (flushScopeBatch env batch w)\<lparr>cwScopeWorker := Some []\<rparr>
                  else w\<lparr>cwScopeWorker := Some batch\<rparr>))"

definition scopeTimer :: "flushEnv \<Rightarrow> 'c CHWriter \<Rightarrow> 'c CHWriter" where
  "scopeTimer env w =
     (case cwScopeWorker w of
        None \<Rightarrow> w
      | Some batch \<Rightarrow> if batch = [] then w else (flushScopeBatch env batch w)\<lparr>cwScopeWorker := Some []\<rparr>)"

definition retryTick :: "flushEnv \<Rightarrow> 'c CHWriter \<Rightarrow> 'c CHWriter" where
  "retryTick env w =
     (case cwScopeWorker w of
        None \<Rightarrow> w
      | Some batch \<Rightarrow>
          (case takeScopeRetries w of (pending, w') \<Rightarrow>
             if pending = [] then w'
             else (flushScopeBatch env (pending @ batch) w')\<lparr>cwScopeWorker := Some []\<rparr>))"

section \<open>Shutdown and readers\<close>

definition beginShutdown :: "'c CHWriter \<Rightarrow> 'c CHWriter" where
  "beginShutdown w = (if cwStarted w then w\<lparr>cwClosing := True\<rparr> else w)"

definition closeChannels :: "'c CHWriter \<Rightarrow> 'c CHWriter" where
  "closeChannels w = (if cwClosing w \<and> cwSenders w = [] then w\<lparr>cwClosed := True\<rparr> else w)"

definition closeConn :: "'c CHWriter \<Rightarrow> 'c CHWriter" where
  "closeConn w =
     (if cwClosed w \<and> (\<forall>x \<in> set (cwWorkers w). x = None) \<and> cwScopeWorker w = None \<and> cwOtherUsers w = 0
      then w\<lparr>cwConnOpen := False\<rparr> else w)"

text \<open>A reader of the shared connection -- a state read, a probe, the schema creation -- registers under the
  closing check, uses the connection while it is registered, and leaves.\<close>

definition readBegin :: "'c CHWriter \<Rightarrow> enqueueError option \<times> 'c CHWriter" where
  "readBegin w = (if cwClosing w then (Some ShuttingDown, w) else (None, w\<lparr>cwOtherUsers := cwOtherUsers w + 1\<rparr>))"

definition readUse :: "'c CHWriter \<Rightarrow> 'c CHWriter" where
  "readUse w = (if cwOtherUsers w = 0 then w else useConn w)"

definition readEnd :: "'c CHWriter \<Rightarrow> 'c CHWriter" where
  "readEnd w = w\<lparr>cwOtherUsers := cwOtherUsers w - 1\<rparr>"

section \<open>Runs\<close>

datatype 'c writerStep =
    WEnqueue Record "'c option"
  | WEnqueueScope ScopeEvent
  | WSend nat
  | WGiveUp nat
  | WStart
  | WReceive flushEnv nat
  | WTimer flushEnv nat
  | WScopeReceive flushEnv
  | WScopeTimer flushEnv
  | WRetryTick flushEnv
  | WShutdown
  | WClose
  | WConnClose
  | WReadBegin
  | WReadUse
  | WReadEnd

fun writer_exec :: "'c writerStep \<Rightarrow> 'c CHWriter \<Rightarrow> 'c CHWriter" where
  "writer_exec (WEnqueue rec commit) w = snd (EnqueueBegin rec commit w)"
| "writer_exec (WEnqueueScope event) w = snd (EnqueueScopeEvent event w)"
| "writer_exec (WSend i) w = EnqueueSend i w"
| "writer_exec (WGiveUp i) w = removeSender i w"
| "writer_exec WStart w = (if cwStarted w then w else startWorkers w)"
| "writer_exec (WReceive env k) w = workerReceive env k w"
| "writer_exec (WTimer env k) w = workerTimer env k w"
| "writer_exec (WScopeReceive env) w = scopeReceive env w"
| "writer_exec (WScopeTimer env) w = scopeTimer env w"
| "writer_exec (WRetryTick env) w = retryTick env w"
| "writer_exec WShutdown w = beginShutdown w"
| "writer_exec WClose w = closeChannels w"
| "writer_exec WConnClose w = closeConn w"
| "writer_exec WReadBegin w = snd (readBegin w)"
| "writer_exec WReadUse w = readUse w"
| "writer_exec WReadEnd w = readEnd w"

section \<open>Conservation\<close>

text \<open>What any hand-over path promises: at every moment whatever entered is held or has left; so nothing
  leaves more often than it entered, and once nothing is held everything has left exactly as often as
  it entered.\<close>

locale conveyor =
  fixes exec :: "'step \<Rightarrow> 's \<Rightarrow> 's" and inv :: "'s \<Rightarrow> bool"
    and entered :: "'s \<Rightarrow> 'x multiset" and held :: "'s \<Rightarrow> 'x multiset" and left :: "'s \<Rightarrow> 'x multiset"
  assumes keeps: "inv s \<Longrightarrow> inv (exec step s)" and balance: "inv s \<Longrightarrow> entered s = held s + left s"
begin

lemma run_inv: "inv s \<Longrightarrow> inv (fold exec steps s)"
  by (induction steps arbitrary: s) (simp_all add: keeps)

lemma left_at_most: "inv s \<Longrightarrow> count (left (fold exec steps s)) x \<le> count (entered (fold exec steps s)) x"
  by (simp add: balance [OF run_inv])

lemma all_left: "inv s \<Longrightarrow> held (fold exec steps s) = {#} \<Longrightarrow> left (fold exec steps s) = entered (fold exec steps s)"
  by (simp add: balance [OF run_inv])

end

definition heldJobs :: "'c CHWriter \<Rightarrow> 'c writeJob multiset" where
  "heldJobs w = mset (cwJobs w) + mset (concat (map (case_option [] id) (cwWorkers w)))"

definition settledJobs :: "'c CHWriter \<Rightarrow> 'c writeJob multiset" where
  "settledJobs w = mset (map fst (cwSettled w))"

definition heldEvents :: "'c CHWriter \<Rightarrow> ScopeEvent multiset" where
  "heldEvents w = mset (cwScopeEvents w) + mset (case_option [] id (cwScopeWorker w)) + mset (cwScopeRetries w)"

definition goneEvents :: "'c CHWriter \<Rightarrow> ScopeEvent multiset" where
  "goneEvents w = mset (cwScopeDone w) + mset (cwScopeDropped w)"

lemma fold_settle: "fold (settleJob True) batch w = w\<lparr>cwSettled := cwSettled w @ map (\<lambda>j. (j, True)) batch\<rparr>"
  by (induction batch arbitrary: w) (simp_all add: settleJob_def)

lemma sendBatchOnce_rows:
  assumes "sendBatchOnce a batch = (ok, rows)"
  shows "set rows \<subseteq> set batch" "ok \<Longrightarrow> rows = batch"
  using assms by (cases a; auto)+

lemma sendBatch_spec: "sendBatch a as batch = (ok, rows) \<Longrightarrow> set rows \<subseteq> set batch \<and> (ok \<longrightarrow> set batch \<subseteq> set rows)"
proof (induction as arbitrary: a ok rows)
  case Nil
  then show ?case using sendBatchOnce_rows by fastforce
next
  case (Cons b as)
  obtain ok1 rows1 where o1: "sendBatchOnce a batch = (ok1, rows1)" by fastforce
  obtain ok2 rows2 where o2: "sendBatch b as batch = (ok2, rows2)" by fastforce
  show ?case using sendBatchOnce_rows [OF o1] Cons.IH [OF o2] Cons.prems o1 o2 by (cases ok1) auto
qed

lemmas sendBatch_rows = conjunct1 [OF sendBatch_spec] mp [OF conjunct2 [OF sendBatch_spec]]

text \<open>What a flush does: it settles every job of the batch once, reports success only for stored rows, and
  stores only rows of the batch.\<close>

lemma isolate_effect:
  "\<exists>rows outcomes. fold (isolateRow env) ijs w = w\<lparr>cwRows := cwRows w @ rows, cwSettled := cwSettled w @ outcomes\<rparr> \<and>
     map fst outcomes = map snd ijs \<and> set rows \<subseteq> wjArgs ` snd ` set ijs \<and> (\<forall>j. (j, True) \<in> set outcomes \<longrightarrow> wjArgs j \<in> set rows)"
proof (induction ijs arbitrary: w)
  case (Cons ij ijs)
  obtain ok r where o: "sendBatchOnce (feRow env (fst ij)) [wjArgs (snd ij)] = (ok, r)" by fastforce
  have w1: "isolateRow env ij w = w\<lparr>cwRows := cwRows w @ r, cwSettled := cwSettled w @ [(snd ij, ok)]\<rparr>"
    by (simp add: isolateRow_def o settleJob_def)
  obtain rows outcomes where "fold (isolateRow env) ijs (isolateRow env ij w) =
      (isolateRow env ij w)\<lparr>cwRows := cwRows (isolateRow env ij w) @ rows, cwSettled := cwSettled (isolateRow env ij w) @ outcomes\<rparr>"
    and IH: "map fst outcomes = map snd ijs" "set rows \<subseteq> wjArgs ` snd ` set ijs" "\<forall>j. (j, True) \<in> set outcomes \<longrightarrow> wjArgs j \<in> set rows"
    using Cons.IH [of "isolateRow env ij w"] by blast
  then have "fold (isolateRow env) (ij # ijs) w = w\<lparr>cwRows := cwRows w @ (r @ rows), cwSettled := cwSettled w @ ((snd ij, ok) # outcomes)\<rparr>"
    by (simp add: w1)
  moreover have "set (r @ rows) \<subseteq> wjArgs ` snd ` set (ij # ijs)" using sendBatchOnce_rows(1) [OF o] IH(2) by auto
  moreover have "\<forall>j. (j, True) \<in> set ((snd ij, ok) # outcomes) \<longrightarrow> wjArgs j \<in> set (r @ rows)"
    using sendBatchOnce_rows(2) [OF o] IH(3) by auto
  moreover have "map fst ((snd ij, ok) # outcomes) = map snd (ij # ijs)" using IH(1) by simp
  ultimately show ?case by blast
qed (intro exI [of _ "[]"], simp)

lemma flushBatch_effect:
  obtains rows outcomes where "flushBatch env batch w = w\<lparr>cwRows := cwRows w @ rows, cwSettled := cwSettled w @ outcomes,
      cwUsedClosed := (cwUsedClosed w \<or> \<not> cwConnOpen w)\<rparr>"
    "map fst outcomes = batch" "set rows \<subseteq> wjArgs ` set batch" "\<forall>j. (j, True) \<in> set outcomes \<longrightarrow> wjArgs j \<in> set rows"
proof -
  obtain ok rows where s: "sendBatch (feFirst env) (feRetries env) (map wjArgs batch) = (ok, rows)" by fastforce
  note S = sendBatch_rows [OF s]
  show ?thesis
  proof (cases ok)
    case True
    then have "flushBatch env batch w = w\<lparr>cwRows := cwRows w @ rows, cwSettled := cwSettled w @ map (\<lambda>j. (j, True)) batch,
        cwUsedClosed := (cwUsedClosed w \<or> \<not> cwConnOpen w)\<rparr>"
      by (simp add: flushBatch_def s fold_settle useConn_def)
    then show ?thesis using S True by (intro that [of "map (\<lambda>j. (j, True)) batch" rows]) (auto simp: comp_def)
  next
    case False
    define w1 where "w1 = (useConn w)\<lparr>cwRows := cwRows w @ rows\<rparr>"
    obtain r2 outcomes where i: "fold (isolateRow env) (enumerate 0 batch) w1 = w1\<lparr>cwRows := cwRows w1 @ r2, cwSettled := cwSettled w1 @ outcomes\<rparr>"
      and I: "map fst outcomes = map snd (enumerate 0 batch)" "set r2 \<subseteq> wjArgs ` snd ` set (enumerate 0 batch)"
        "\<forall>j. (j, True) \<in> set outcomes \<longrightarrow> wjArgs j \<in> set r2"
      using isolate_effect [of env "enumerate 0 batch" w1] by blast
    have "flushBatch env batch w = w\<lparr>cwRows := cwRows w @ (rows @ r2), cwSettled := cwSettled w @ outcomes,
        cwUsedClosed := (cwUsedClosed w \<or> \<not> cwConnOpen w)\<rparr>"
      using False i by (simp add: flushBatch_def s w1_def useConn_def)
    moreover have "snd ` set (enumerate 0 batch) = set batch" by (metis map_snd_enumerate set_map)
    ultimately show ?thesis using S I by (intro that [of outcomes "rows @ r2"]) auto
  qed
qed

lemma mset_concat_update:
  assumes "k < length xs"
  shows "mset (concat (map f (xs[k := v]))) + mset (f (xs ! k)) = mset (concat (map f xs)) + mset (f v)"
proof -
  have "xs = take k xs @ xs ! k # drop (Suc k) xs" by (rule id_take_nth_drop [OF assms])
  then have "mset (concat (map f xs)) = mset (concat (map f (take k xs))) + mset (f (xs ! k)) + mset (concat (map f (drop (Suc k) xs)))"
    by (metis (no_types, lifting) append_Cons append_Nil concat.simps(2) concat_append list.simps(9) map_append mset_append union_assoc)
  moreover have "mset (concat (map f (xs[k := v]))) = mset (concat (map f (take k xs))) + mset (f v) + mset (concat (map f (drop (Suc k) xs)))"
    by (simp add: upd_conv_take_nth_drop [OF assms])
  ultimately show ?thesis by simp
qed

section \<open>Invariants\<close>

definition control_ok :: "'c CHWriter \<Rightarrow> bool" where
  "control_ok w \<longleftrightarrow>
     (\<not> cwStarted w \<longrightarrow> cwWorkers w = [] \<and> cwScopeWorker w = None \<and> \<not> cwClosing w) \<and>
     (cwStarted w \<longrightarrow> cwWorkers w \<noteq> []) \<and> cwWorkerCount w > 0 \<and>
     (cwClosed w \<longrightarrow> cwClosing w \<and> cwSenders w = []) \<and>
     (None \<in> set (cwWorkers w) \<longrightarrow> cwClosed w \<and> cwJobs w = []) \<and>
     (cwStarted w \<longrightarrow> cwScopeWorker w = None \<longrightarrow> cwClosed w \<and> cwScopeEvents w = []) \<and>
     (\<not> cwConnOpen w \<longrightarrow> cwClosed w \<and> set (cwWorkers w) \<subseteq> {None} \<and> cwScopeWorker w = None \<and> cwOtherUsers w = 0) \<and>
     int (length (cwJobs w)) \<le> max 0 (cwQueueSize w) \<and> int (length (cwScopeRetries w)) \<le> scopeRetryQueueMaxLen \<and>
     \<not> cwPanicked w \<and> \<not> cwUsedClosed w"

definition truthful :: "'c CHWriter \<Rightarrow> bool" where
  "truthful w \<longleftrightarrow> (\<forall>j. (j, True) \<in> set (cwSettled w) \<longrightarrow> wjArgs j \<in> set (cwRows w)) \<and>
     set (cwRows w) \<subseteq> wjArgs ` set (cwAccepted w) \<and> set_mset (heldJobs w) \<subseteq> set (cwAccepted w) \<and>
     set (cwScopeDone w) \<subseteq> set (cwScopeRows w) \<and> set (cwScopeRows w) \<subseteq> set (cwScopeAccepted w) \<and>
     set_mset (heldEvents w) \<subseteq> set (cwScopeAccepted w)"

definition jobs_balanced :: "'c CHWriter \<Rightarrow> bool" where
  "jobs_balanced w \<longleftrightarrow> mset (cwAccepted w) = heldJobs w + settledJobs w"

definition events_balanced :: "'c CHWriter \<Rightarrow> bool" where
  "events_balanced w \<longleftrightarrow> mset (cwScopeAccepted w) = heldEvents w + goneEvents w"

definition writer_inv :: "'c CHWriter \<Rightarrow> bool" where
  "writer_inv w \<longleftrightarrow> control_ok w \<and> truthful w \<and> jobs_balanced w \<and> events_balanced w"

lemmas writer_defs = control_ok_def truthful_def jobs_balanced_def events_balanced_def heldJobs_def settledJobs_def heldEvents_def goneEvents_def

lemma held_flush:
  assumes "k < length (cwWorkers w)" "cwWorkers w ! k = Some batch"
  shows "mset (concat (map (case_option [] id) ((cwWorkers w)[k := v]))) + mset batch =
    mset (concat (map (case_option [] id) (cwWorkers w))) + mset (case_option [] id v)"
  using mset_concat_update [OF assms(1), of "case_option [] id" v] assms(2) by simp

text \<open>A worker hands a batch over and goes on with another one, or returns.\<close>

lemma inv_flush:
  assumes inv: "writer_inv w" and k: "k < length (cwWorkers w)" "cwWorkers w ! k = Some batch"
    and jobs: "cwJobs w = now @ jobs" and v: "v = Some [] \<or> v = None \<and> cwClosed w \<and> jobs = []"
  shows "writer_inv ((flushBatch env (batch @ now) (w\<lparr>cwJobs := jobs\<rparr>))\<lparr>cwWorkers := (cwWorkers w)[k := v]\<rparr>)"
proof -
  define w0 where "w0 = w\<lparr>cwJobs := jobs\<rparr>"
  obtain rows outcomes where f0: "flushBatch env (batch @ now) w0 =
      w0\<lparr>cwRows := cwRows w0 @ rows, cwSettled := cwSettled w0 @ outcomes, cwUsedClosed := (cwUsedClosed w0 \<or> \<not> cwConnOpen w0)\<rparr>"
    and F: "map fst outcomes = batch @ now" "set rows \<subseteq> wjArgs ` set (batch @ now)" "\<forall>j. (j, True) \<in> set outcomes \<longrightarrow> wjArgs j \<in> set rows"
    by (rule flushBatch_effect [of env "batch @ now" w0])
  have "Some batch \<in> set (cwWorkers w)" using k by (metis nth_mem)
  then have open_conn: "cwConnOpen w" using inv by (auto simp: writer_inv_def control_ok_def)
  define w' where "w' = (flushBatch env (batch @ now) (w\<lparr>cwJobs := jobs\<rparr>))\<lparr>cwWorkers := (cwWorkers w)[k := v]\<rparr>"
  have w': "w' = w\<lparr>cwJobs := jobs, cwRows := cwRows w @ rows, cwSettled := cwSettled w @ outcomes, cwUsedClosed := cwUsedClosed w,
      cwWorkers := (cwWorkers w)[k := v]\<rparr>"
    using open_conn f0 by (simp add: w'_def w0_def)
  have bal: "mset (cwAccepted w) = heldJobs w + settledJobs w" using inv by (simp add: writer_inv_def jobs_balanced_def)
  have hold: "heldJobs w' + mset (batch @ now) = heldJobs w"
    using held_flush [OF k, of v] v by (auto simp: heldJobs_def w' jobs)
  have "mset (map fst outcomes) = mset batch + mset now" by (simp add: F(1))
  then have settled: "settledJobs w' = settledJobs w + mset (batch @ now)" by (simp add: settledJobs_def w')
  have acc: "cwAccepted w' = cwAccepted w" by (simp add: w')
  have jb: "jobs_balanced w'" unfolding jobs_balanced_def acc bal settled hold [symmetric] by (simp add: ac_simps)
  have "set (cwAccepted w) = set_mset (heldJobs w) \<union> set_mset (settledJobs w)" using arg_cong [OF bal, of set_mset] by simp
  moreover have hs: "set_mset (heldJobs w) = set_mset (heldJobs w') \<union> set batch \<union> set now" using arg_cong [OF hold, of set_mset] by auto
  ultimately have sub: "set batch \<union> set now \<subseteq> set (cwAccepted w)" by blast
  have T: "\<forall>j. (j, True) \<in> set (cwSettled w) \<longrightarrow> wjArgs j \<in> set (cwRows w)" "set (cwRows w) \<subseteq> wjArgs ` set (cwAccepted w)"
      "set_mset (heldJobs w) \<subseteq> set (cwAccepted w)"
    using inv unfolding writer_inv_def truthful_def by blast+
  have "set_mset (heldJobs w') \<subseteq> set (cwAccepted w')" using T(3) unfolding hs acc by simp
  moreover have "\<forall>j. (j, True) \<in> set (cwSettled w') \<longrightarrow> wjArgs j \<in> set (cwRows w')" using T(1) F(3) by (auto simp: w')
  moreover have "set rows \<subseteq> wjArgs ` set (cwAccepted w)" using F(2) image_mono [OF sub, of wjArgs] by simp
  then have "set (cwRows w') \<subseteq> wjArgs ` set (cwAccepted w')" using T(2) by (simp add: w')
  moreover have "heldEvents w' = heldEvents w" by (simp add: heldEvents_def w')
  ultimately have tr: "truthful w'" using inv unfolding writer_inv_def truthful_def by (simp add: w')
  have "set ((cwWorkers w)[k := v]) \<subseteq> insert v (set (cwWorkers w))" by (rule set_update_subset_insert)
  then have none: "None \<in> set ((cwWorkers w)[k := v]) \<Longrightarrow> v = None \<or> None \<in> set (cwWorkers w)" by blast
  have C: "control_ok w" using inv by (simp add: writer_inv_def)
  have "None \<in> set ((cwWorkers w)[k := v]) \<longrightarrow> cwClosed w \<and> jobs = []"
    using none v C by (auto simp: control_ok_def jobs)
  then have ct: "control_ok w'" using C open_conn k(1) unfolding control_ok_def by (simp add: w' jobs)
  show ?thesis using inv jb tr ct unfolding w'_def [symmetric] by (simp add: writer_inv_def events_balanced_def w' heldEvents_def goneEvents_def)
qed

lemma writer_invD:
  assumes "writer_inv w"
  shows "control_ok w" "truthful w" "mset (cwAccepted w) = heldJobs w + settledJobs w" "mset (cwScopeAccepted w) = heldEvents w + goneEvents w"
  using assms by (simp_all add: writer_inv_def jobs_balanced_def events_balanced_def)

lemma queueScopeRetries_effect:
  obtains kept dropped where "queueScopeRetries batch w = w\<lparr>cwScopeRetries := kept, cwScopeDropped := cwScopeDropped w @ dropped\<rparr>"
    "dropped @ kept = cwScopeRetries w @ batch" "int (length kept) \<le> scopeRetryQueueMaxLen"
proof (cases "int (length (cwScopeRetries w @ batch)) - scopeRetryQueueMaxLen > 0")
  case True
  define n where "n = nat (int (length (cwScopeRetries w @ batch)) - scopeRetryQueueMaxLen)"
  show ?thesis
    by (rule that [of "take n (cwScopeRetries w @ batch)" "drop n (cwScopeRetries w @ batch)"])
      (use True in \<open>auto simp: queueScopeRetries_def Let_def n_def scopeRetryQueueMaxLen_def simp del: take_append drop_append\<close>)
next
  case False
  then show ?thesis
    by (intro that [of "[]" "cwScopeRetries w @ batch"]) (auto simp: queueScopeRetries_def Let_def)
qed

lemma flushScopeBatch_effect:
  obtains rows finished kept dropped where "flushScopeBatch env batch w = w\<lparr>cwScopeRows := cwScopeRows w @ rows, cwScopeDone := cwScopeDone w @ finished,
      cwScopeRetries := kept, cwScopeDropped := cwScopeDropped w @ dropped,
      cwUsedClosed := (cwUsedClosed w \<or> batch \<noteq> [] \<and> \<not> cwConnOpen w)\<rparr>"
    "finished @ dropped @ kept = cwScopeRetries w @ batch \<or> finished = batch \<and> dropped = [] \<and> kept = cwScopeRetries w"
    "set finished \<subseteq> set rows" "set rows \<subseteq> set batch"
    "int (length kept) \<le> max scopeRetryQueueMaxLen (int (length (cwScopeRetries w)))"
proof (cases "batch = []")
  case True
  then show ?thesis by (intro that [of "[]" "cwScopeRetries w" "[]" "[]"]) (simp_all add: flushScopeBatch_def)
next
  case False
  obtain ok rows where s: "sendBatch (feFirst env) (feRetries env) batch = (ok, rows)" by fastforce
  note S = sendBatch_rows [OF s]
  show ?thesis
  proof (cases ok)
    case True
    then show ?thesis using S False
      by (intro that [of "[]" "cwScopeRetries w" batch rows]) (simp_all add: flushScopeBatch_def s useConn_def)
  next
    case notok: False
    define w1 where "w1 = (useConn w)\<lparr>cwScopeRows := cwScopeRows w @ rows\<rparr>"
    obtain kept dropped where q: "queueScopeRetries batch w1 = w1\<lparr>cwScopeRetries := kept, cwScopeDropped := cwScopeDropped w1 @ dropped\<rparr>"
      "dropped @ kept = cwScopeRetries w1 @ batch" "int (length kept) \<le> scopeRetryQueueMaxLen"
      by (rule queueScopeRetries_effect [of batch w1])
    then show ?thesis using S False notok
      by (intro that [of dropped kept "[]" rows]) (simp_all add: flushScopeBatch_def s w1_def useConn_def)
  qed
qed

lemma inv_scope_flush:
  assumes inv: "writer_inv w" and worker: "cwScopeWorker w = Some batch" and events: "cwScopeEvents w = now @ events"
    and parts: "mset all_events + mset retries = mset batch + mset now + mset (cwScopeRetries w)"
    and bound: "int (length retries) \<le> scopeRetryQueueMaxLen"
    and v: "v = Some [] \<or> v = None \<and> cwClosed w \<and> events = []"
  shows "writer_inv ((flushScopeBatch env all_events (w\<lparr>cwScopeEvents := events, cwScopeRetries := retries\<rparr>))\<lparr>cwScopeWorker := v\<rparr>)"
proof -
  define w0 where "w0 = w\<lparr>cwScopeEvents := events, cwScopeRetries := retries\<rparr>"
  define w' where "w' = (flushScopeBatch env all_events w0)\<lparr>cwScopeWorker := v\<rparr>"
  obtain rows finished kept dropped where f: "flushScopeBatch env all_events w0 = w0\<lparr>cwScopeRows := cwScopeRows w0 @ rows,
      cwScopeDone := cwScopeDone w0 @ finished, cwScopeRetries := kept, cwScopeDropped := cwScopeDropped w0 @ dropped,
      cwUsedClosed := (cwUsedClosed w0 \<or> all_events \<noteq> [] \<and> \<not> cwConnOpen w0)\<rparr>"
    and F: "finished @ dropped @ kept = cwScopeRetries w0 @ all_events \<or> finished = all_events \<and> dropped = [] \<and> kept = cwScopeRetries w0"
      "set finished \<subseteq> set rows" "set rows \<subseteq> set all_events" "int (length kept) \<le> max scopeRetryQueueMaxLen (int (length (cwScopeRetries w0)))"
    by (rule flushScopeBatch_effect [of env all_events w0])
  note C = writer_invD(1) [OF inv] and T = writer_invD(2) [OF inv] and E = writer_invD(4) [OF inv]
  have open_conn: "cwConnOpen w" using C worker by (auto simp: control_ok_def)
  have w': "w' = w\<lparr>cwScopeEvents := events, cwScopeRetries := kept, cwScopeRows := cwScopeRows w @ rows, cwScopeDone := cwScopeDone w @ finished,
      cwScopeDropped := cwScopeDropped w @ dropped, cwScopeWorker := v\<rparr>"
    using f open_conn by (simp add: w'_def w0_def)
  have split: "mset finished + mset dropped + mset kept = mset all_events + mset retries"
    using F(1) by (auto simp: w0_def ac_simps dest: arg_cong [of _ _ mset])
  have hv: "mset (case_option [] id v) = {#}" using v by auto
  have hold: "heldEvents w = mset events + (mset finished + mset dropped + mset kept)"
    unfolding split parts by (simp add: heldEvents_def worker events ac_simps)
  have held': "heldEvents w' = mset events + mset kept" by (simp add: heldEvents_def w' hv)
  have eb: "events_balanced w'"
    using E unfolding events_balanced_def hold held' by (simp add: w' goneEvents_def ac_simps)
  have sub: "set_mset (mset all_events + mset retries) \<subseteq> set (cwScopeAccepted w)"
    using T arg_cong [OF hold, of set_mset] unfolding split truthful_def by auto
  have "set_mset (heldEvents w') \<subseteq> set_mset (heldEvents w)" unfolding held' hold by auto
  then have "truthful w'" using T F(2,3) sub by (auto simp: truthful_def w' heldJobs_def)
  moreover have "control_ok w'" using C v F(4) bound open_conn events worker by (auto simp: control_ok_def w' w0_def)
  ultimately show ?thesis using inv eb unfolding w'_def [symmetric] w0_def [symmetric]
    by (simp add: writer_inv_def jobs_balanced_def heldJobs_def settledJobs_def w')
qed

lemma inv_hold:
  assumes inv: "writer_inv w" and k: "k < length (cwWorkers w)" "cwWorkers w ! k = Some batch" and jobs: "cwJobs w = now @ jobs"
    and v: "mset (case_option [] id v) = mset batch + mset now" "v = None \<longrightarrow> cwClosed w \<and> jobs = []"
  shows "writer_inv (w\<lparr>cwJobs := jobs, cwWorkers := (cwWorkers w)[k := v]\<rparr>)"
proof -
  define w' where "w' = w\<lparr>cwJobs := jobs, cwWorkers := (cwWorkers w)[k := v]\<rparr>"
  have hold: "heldJobs w' = heldJobs w"
    using held_flush [OF k, of v] v(1) by (simp add: heldJobs_def w'_def jobs ac_simps)
  have "Some batch \<in> set (cwWorkers w)" using k by (metis nth_mem)
  then have open_conn: "cwConnOpen w" using inv by (auto simp: writer_inv_def control_ok_def)
  have "None \<in> set ((cwWorkers w)[k := v]) \<Longrightarrow> v = None \<or> None \<in> set (cwWorkers w)"
    using set_update_subset_insert [of "cwWorkers w" k v] by blast
  then have "None \<in> set ((cwWorkers w)[k := v]) \<longrightarrow> cwClosed w \<and> jobs = []"
    using v(2) inv by (auto simp: writer_inv_def control_ok_def jobs)
  then have "control_ok w'" using writer_invD(1) [OF inv] open_conn k(1) by (simp add: control_ok_def w'_def jobs)
  then show ?thesis using inv hold unfolding w'_def [symmetric]
    by (simp add: writer_inv_def truthful_def jobs_balanced_def events_balanced_def w'_def settledJobs_def heldEvents_def goneEvents_def)
qed

lemma flushBatch_workers: "cwWorkers (flushBatch env batch w) = cwWorkers w"
  by (rule flushBatch_effect [of env batch w]) simp

lemma inv_receive:
  assumes inv: "writer_inv w"
  shows "writer_inv (workerReceive env k w)"
proof (cases "k < length (cwWorkers w) \<and> cwWorkers w ! k \<noteq> None")
  case True
  then obtain batch where k: "k < length (cwWorkers w)" "cwWorkers w ! k = Some batch" by auto
  show ?thesis
  proof (cases "cwJobs w")
    case Nil
    have idle: "w\<lparr>cwJobs := []\<rparr> = w" using Nil by simp
    show ?thesis
    proof (cases "cwClosed w")
      case True
      then show ?thesis
        using inv_hold [OF inv k, of "[]" "[]" None] inv_flush [OF inv k, of "[]" "[]" None env] k Nil
        by (auto simp: workerReceive_def idle flushBatch_workers Let_def)
    qed (use inv k Nil in \<open>simp add: workerReceive_def\<close>)
  next
    case (Cons job rest)
    then show ?thesis
      using inv_hold [OF inv k, of "[job]" rest "Some (batch @ [job])"] inv_flush [OF inv k, of "[job]" rest "Some []" env] k
      by (auto simp: workerReceive_def flushBatch_workers Let_def)
  qed
qed (use inv in \<open>auto simp: workerReceive_def\<close>)

lemma inv_timer:
  assumes inv: "writer_inv w"
  shows "writer_inv (workerTimer env k w)"
proof (cases "k < length (cwWorkers w) \<and> cwWorkers w ! k \<noteq> None")
  case True
  then obtain batch where k: "k < length (cwWorkers w)" "cwWorkers w ! k = Some batch" by auto
  have "w\<lparr>cwJobs := cwJobs w\<rparr> = w" by simp
  then show ?thesis using inv_flush [OF inv k, of "[]" "cwJobs w" "Some []" env] inv k
    by (auto simp: workerTimer_def flushBatch_workers Let_def)
qed (use inv in \<open>auto simp: workerTimer_def\<close>)

lemma inv_scope_receive:
  assumes inv: "writer_inv w"
  shows "writer_inv (scopeReceive env w)"
proof (cases "cwScopeWorker w")
  case None
  then show ?thesis using inv by (simp add: scopeReceive_def)
next
  case (Some batch)
  have bound: "int (length (cwScopeRetries w)) \<le> scopeRetryQueueMaxLen" using writer_invD(1) [OF inv] by (simp add: control_ok_def)
  show ?thesis
  proof (cases "cwScopeEvents w")
    case Nil
    have idle: "w\<lparr>cwScopeEvents := []\<rparr> = w" using Nil by simp
    have "writer_inv (flushScopeBatch env (batch @ cwScopeRetries w) (w\<lparr>cwScopeEvents := [], cwScopeRetries := []\<rparr>)\<lparr>cwScopeWorker := None\<rparr>)"
      if "cwClosed w"
      by (rule inv_scope_flush [OF inv Some, of "[]"]) (use that Nil in \<open>simp_all add: scopeRetryQueueMaxLen_def\<close>)
    moreover have "w\<lparr>cwScopeEvents := [], cwScopeRetries := []\<rparr> = w\<lparr>cwScopeRetries := []\<rparr>"
      using arg_cong [OF idle, of "\<lambda>w. w\<lparr>cwScopeRetries := []\<rparr>"] by simp
    moreover have "flushScopeBatch env [] u = u" for u :: "'a CHWriter" by (simp add: flushScopeBatch_def)
    ultimately show ?thesis using inv Some Nil
      by (cases "batch @ cwScopeRetries w = []") (auto simp: scopeReceive_def takeScopeRetries_def Let_def)
  next
    case (Cons event rest)
    have keep: "w\<lparr>cwScopeEvents := rest, cwScopeRetries := cwScopeRetries w\<rparr> = w\<lparr>cwScopeEvents := rest\<rparr>" by simp
    have "writer_inv (flushScopeBatch env (batch @ [event]) (w\<lparr>cwScopeEvents := rest, cwScopeRetries := cwScopeRetries w\<rparr>)\<lparr>cwScopeWorker := Some []\<rparr>)"
      by (rule inv_scope_flush [OF inv Some, of "[event]"]) (use Cons bound in simp_all)
    moreover have "writer_inv (w\<lparr>cwScopeEvents := rest, cwScopeWorker := Some (batch @ [event])\<rparr>)"
      using inv Some Cons by (auto simp: writer_inv_def writer_defs)
    ultimately show ?thesis using Some Cons by (simp add: scopeReceive_def Let_def keep)
  qed
qed

lemma inv_scope_timer:
  assumes inv: "writer_inv w"
  shows "writer_inv (scopeTimer env w)" "writer_inv (retryTick env w)"
proof -
  have bound: "int (length (cwScopeRetries w)) \<le> scopeRetryQueueMaxLen" using writer_invD(1) [OF inv] by (simp add: control_ok_def)
  have keep: "w\<lparr>cwScopeEvents := cwScopeEvents w, cwScopeRetries := cwScopeRetries w\<rparr> = w"
    "w\<lparr>cwScopeEvents := cwScopeEvents w, cwScopeRetries := []\<rparr> = w\<lparr>cwScopeRetries := []\<rparr>" by simp_all
  have "writer_inv (flushScopeBatch env batch (w\<lparr>cwScopeEvents := cwScopeEvents w, cwScopeRetries := cwScopeRetries w\<rparr>)\<lparr>cwScopeWorker := Some []\<rparr>)"
    if "cwScopeWorker w = Some batch" for batch
    by (rule inv_scope_flush [OF inv that, of "[]"]) (use bound in simp_all)
  then show "writer_inv (scopeTimer env w)" using inv by (auto simp: scopeTimer_def keep split: option.split)
  have "writer_inv (flushScopeBatch env (cwScopeRetries w @ batch) (w\<lparr>cwScopeEvents := cwScopeEvents w, cwScopeRetries := []\<rparr>)\<lparr>cwScopeWorker := Some []\<rparr>)"
    if "cwScopeWorker w = Some batch" for batch
    by (rule inv_scope_flush [OF inv that, of "[]"]) (simp_all add: scopeRetryQueueMaxLen_def)
  moreover have "writer_inv (w\<lparr>cwScopeRetries := []\<rparr>)" if "cwScopeRetries w = []"
  proof -
    have "w\<lparr>cwScopeRetries := cwScopeRetries w\<rparr> = w" by simp
    from this [unfolded that] inv show ?thesis by metis
  qed
  ultimately show "writer_inv (retryTick env w)" using inv by (auto simp: retryTick_def takeScopeRetries_def keep split: option.split)
qed

lemma NewCHWriter_inv: "writer_inv (NewCHWriter qs ws rows ins retry drain wait enq)"
  by (simp add: writer_inv_def writer_defs NewCHWriter_def orDefault_def DefaultWriteWorkers_def scopeRetryQueueMaxLen_def)

text \<open>A step that moves no job, event or row only has to keep the control state.\<close>

lemma inv_control:
  assumes "writer_inv w" "control_ok w'"
    and "(cwJobs w', cwWorkers w', cwScopeEvents w', cwScopeWorker w', cwScopeRetries w', cwAccepted w', cwSettled w', cwRows w') =
      (cwJobs w, cwWorkers w, cwScopeEvents w, cwScopeWorker w, cwScopeRetries w, cwAccepted w, cwSettled w, cwRows w)"
    and "(cwScopeAccepted w', cwScopeDone w', cwScopeDropped w', cwScopeRows w') = (cwScopeAccepted w, cwScopeDone w, cwScopeDropped w, cwScopeRows w)"
  shows "writer_inv w'"
  using assms by (simp add: writer_inv_def truthful_def jobs_balanced_def events_balanced_def heldJobs_def settledJobs_def heldEvents_def goneEvents_def)

lemma control_moves:
  assumes "control_ok w"
  shows "control_ok (snd (EnqueueBegin rec commit w))" "control_ok (snd (EnqueueScopeEvent event w))" "control_ok (removeSender i w)"
    and "control_ok (beginShutdown w)" "control_ok (closeChannels w)" "control_ok (closeConn w)"
    and "control_ok (snd (readBegin w))" "control_ok (readUse w)" "control_ok (readEnd w)"
  using assms
  by (auto simp: EnqueueBegin_def EnqueueScopeEvent_def removeSender_def beginShutdown_def closeChannels_def closeConn_def
      readBegin_def readUse_def useConn_def readEnd_def Let_def control_ok_def)

lemma control_steps:
  assumes inv: "writer_inv w"
  shows "writer_inv (snd (EnqueueBegin rec commit w))" "writer_inv (snd (EnqueueScopeEvent event w))" "writer_inv (removeSender i w)"
    and "writer_inv (beginShutdown w)" "writer_inv (closeChannels w)" "writer_inv (closeConn w)"
    and "writer_inv (snd (readBegin w))" "writer_inv (readUse w)" "writer_inv (readEnd w)"
  by (rule inv_control [OF inv]; (rule control_moves [OF writer_invD(1) [OF inv]])?;
      simp add: EnqueueBegin_def EnqueueScopeEvent_def removeSender_def beginShutdown_def closeChannels_def closeConn_def
      readBegin_def readUse_def useConn_def readEnd_def Let_def)+

lemma writer_step_inv:
  assumes inv: "writer_inv w"
  shows "writer_inv (writer_exec step w)"
proof (cases step)
  case (WSend i)
  show ?thesis
  proof (cases "i < length (cwSenders w)")
    case True
    then have nc: "\<not> cwClosed w" using writer_invD(1) [OF inv] by (auto simp: control_ok_def)
    show ?thesis
    proof (cases "cwSenders w ! i")
      case (SendJob job)
      define w' where "w' = (removeSender i w)\<lparr>cwJobs := cwJobs w @ [job], cwAccepted := cwAccepted w @ [job]\<rparr>"
      have hold: "heldJobs w' = heldJobs w + {#job#}" by (simp add: w'_def removeSender_def heldJobs_def)
      have "truthful w'" using writer_invD(2) [OF inv] unfolding truthful_def hold by (auto simp: w'_def removeSender_def heldEvents_def)
      moreover have "jobs_balanced w'" "events_balanced w'"
        using writer_invD(3,4) [OF inv] unfolding jobs_balanced_def events_balanced_def hold
        by (simp_all add: w'_def removeSender_def settledJobs_def heldEvents_def goneEvents_def)
      moreover have "control_ok w'" if "int (length (cwJobs w)) < cwQueueSize w"
        using that writer_invD(1) [OF inv] nc by (auto simp: control_ok_def w'_def removeSender_def)
      ultimately show ?thesis using inv True nc WSend SendJob
        by (simp add: EnqueueSend_def w'_def [symmetric] writer_inv_def)
    next
      case (SendScope event)
      then show ?thesis using inv True nc WSend
        by (auto simp: EnqueueSend_def removeSender_def writer_inv_def writer_defs)
    qed
  qed (use inv WSend in \<open>simp add: EnqueueSend_def\<close>)
next
  case WStart
  then show ?thesis using inv by (auto simp: startWorkers_def writer_inv_def writer_defs)
qed (simp_all add: inv_receive [OF inv] inv_timer [OF inv] inv_scope_receive [OF inv] inv_scope_timer [OF inv] control_steps [OF inv])

interpretation rows: conveyor writer_exec writer_inv "\<lambda>w. mset (cwAccepted w)" heldJobs settledJobs
  by unfold_locales (simp_all add: writer_step_inv writer_invD(3))

interpretation epochs: conveyor writer_exec writer_inv "\<lambda>w. mset (cwScopeAccepted w)" heldEvents goneEvents
  by unfold_locales (simp_all add: writer_step_inv writer_invD(4))

inductive writer_reach :: "'c CHWriter \<Rightarrow> bool" where
  writer_new: "writer_reach ((NewCHWriter queueSize workers batchMaxRows insertTimeout maxRetryBackoff drain wait enq)\<lparr>cwDatabase := database, cwAutoCreate := autoCreate, cwCheckpointEvery := every\<rparr>)"
| writer_step: "writer_reach w \<Longrightarrow> writer_reach (writer_exec step w)"

lemma NewCHWriter_auto_inv:
  "writer_inv ((NewCHWriter queueSize workers batchMaxRows insertTimeout maxRetryBackoff drain wait enq)\<lparr>cwDatabase := database, cwAutoCreate := autoCreate, cwCheckpointEvery := every\<rparr>)"
proof -
  note inv = NewCHWriter_inv [of queueSize workers batchMaxRows insertTimeout maxRetryBackoff drain wait enq]
  show ?thesis by (rule inv_control [OF inv]) (use writer_invD(1) [OF inv] in \<open>simp_all add: control_ok_def\<close>)
qed

lemma writer_reach_inv: "writer_reach w \<Longrightarrow> writer_inv w"
  by (induction rule: writer_reach.induct) (simp_all only: NewCHWriter_auto_inv writer_step_inv)

lemma writer_reach_fold: "writer_reach w \<Longrightarrow> writer_reach (fold writer_exec steps w)"
  by (induction steps arbitrary: w) (simp_all add: writer_step del: writer_exec.simps)

lemma held_returned: "set (cwWorkers w) \<subseteq> {None} \<Longrightarrow> cwJobs w = [] \<Longrightarrow> heldJobs w = {#}"
  by (force simp: heldJobs_def)

text \<open>C17. Every job is settled at most once, truthfully, and at shutdown exactly once.  Over every run of
  senders, workers, readers and shutdown, with any answers of the database and any timers: a job's
  callback has fired at most as often as the job was taken over; a callback reported success only for a
  row that was stored; every stored row is the row of a job taken over; no sender ever hit a closed
  channel, nobody used the connection after it was closed, the queue stayed within its size; and once
  the workers of a started writer have returned, each job taken over has been settled exactly as often
  as it was taken over.\<close>

theorem jobs_settled_once:
  assumes "writer_reach w0" "w = fold writer_exec steps w0"
  shows "count (mset (map fst (cwSettled w))) job \<le> count (mset (cwAccepted w)) job \<and>
    ((job, True) \<in> set (cwSettled w) \<longrightarrow> wjArgs job \<in> set (cwRows w)) \<and>
    set (cwRows w) \<subseteq> wjArgs ` set (cwAccepted w) \<and>
    \<not> cwPanicked w \<and> \<not> cwUsedClosed w \<and> int (length (cwJobs w)) \<le> max 0 (cwQueueSize w) \<and>
    (cwStarted w \<and> set (cwWorkers w) \<subseteq> {None} \<longrightarrow> mset (map fst (cwSettled w)) = mset (cwAccepted w))"
proof -
  note inv0 = writer_reach_inv [OF assms(1)]
  have inv: "writer_inv w" unfolding assms(2) by (rule rows.run_inv [OF inv0])
  have "count (settledJobs w) job \<le> count (mset (cwAccepted w)) job" unfolding assms(2) by (rule rows.left_at_most [OF inv0])
  moreover have "settledJobs w = mset (cwAccepted w)" if "cwStarted w" "set (cwWorkers w) \<subseteq> {None}"
  proof -
    have "cwWorkers w \<noteq> []" using writer_invD(1) [OF inv] that(1) by (simp add: control_ok_def)
    then have "None \<in> set (cwWorkers w)" using that(2) by (cases "cwWorkers w") auto
    then have "cwJobs w = []" using writer_invD(1) [OF inv] by (simp add: control_ok_def)
    then have "heldJobs w = {#}" by (rule held_returned [OF that(2)])
    then show ?thesis unfolding assms(2) by (rule rows.all_left [OF inv0])
  qed
  ultimately show ?thesis
    using writer_invD(1,2) [OF inv] by (simp add: settledJobs_def control_ok_def truthful_def)
qed

definition sampleRecord :: "string \<Rightarrow> Record" where
  "sampleRecord name = zeroRecord\<lparr>rEventType := ''Snapshot'', rKind := ''Pod'', rName := name\<rparr>"

definition sampleWriter :: "nat CHWriter" where
  "sampleWriter = (NewCHWriter 10 1 2 0 0 0 0 0)\<lparr>cwDatabase := '''', cwAutoCreate := False, cwCheckpointEvery := 50\<rparr>"

lemma sampleWriter_reach: "writer_reach sampleWriter"
  unfolding sampleWriter_def by (rule writer_new)

text \<open>A batch whose acknowledgement is lost although its rows were stored, then isolated: the first row
  fails, the second does not.\<close>

definition lossyFlush :: flushEnv where
  "lossyFlush = \<lparr>feFirst = SendFails (\<lambda>i. True), feRetries = [PrepareFails], feRow = (\<lambda>i. if i = 0 then AppendFails else SendOk)\<rparr>"

definition smoothFlush :: flushEnv where
  "smoothFlush = \<lparr>feFirst = SendOk, feRetries = [], feRow = (\<lambda>i. SendOk)\<rparr>"

definition deadFlush :: flushEnv where
  "deadFlush = \<lparr>feFirst = PrepareFails, feRetries = [], feRow = (\<lambda>i. PrepareFails)\<rparr>"

theorem jobs_settled_once_witness:
  "let w = fold writer_exec [WStart, WEnqueue (sampleRecord ''a'') (Some 1), WEnqueue (sampleRecord ''b'') (Some 2), WSend 0, WSend 0,
       WReceive lossyFlush 0, WReceive lossyFlush 0, WShutdown, WClose, WReceive smoothFlush 0] sampleWriter
   in map snd (cwSettled w) = [False, True] \<and> length (cwRows w) = 3 \<and> mset (map fst (cwSettled w)) = mset (cwAccepted w)"
proof -
  define steps :: "nat writerStep list" where "steps = [WStart, WEnqueue (sampleRecord ''a'') (Some 1), WEnqueue (sampleRecord ''b'') (Some 2), WSend 0, WSend 0,
       WReceive lossyFlush 0, WReceive lossyFlush 0, WShutdown, WClose, WReceive smoothFlush 0]"
  define w where "w = fold writer_exec steps sampleWriter"
  have "map snd (cwSettled w) = [False, True]" "length (cwRows w) = 3" "cwStarted w" "cwWorkers w = [None]"
    unfolding w_def steps_def by code_simp+
  then show ?thesis
    using jobs_settled_once [OF sampleWriter_reach w_def] unfolding Let_def steps_def [symmetric] w_def [symmetric] by simp
qed

section \<open>Draining\<close>

definition drainWork :: "'c CHWriter \<Rightarrow> nat" where
  "drainWork w = length (cwJobs w) + length (filter (\<lambda>x. x \<noteq> None) (cwWorkers w)) +
     length (cwScopeEvents w) + (if cwScopeWorker w = None then 0 else 1)"

lemma length_filter_update:
  assumes "k < length xs"
  shows "length (filter P (xs[k := v])) + (if P (xs ! k) then 1 else 0) = length (filter P xs) + (if P v then 1 else 0)"
proof -
  have "length (filter P xs) = length (filter P (take k xs @ xs ! k # drop (Suc k) xs))"
    using id_take_nth_drop [OF assms] by simp
  then show ?thesis by (simp add: upd_conv_take_nth_drop [OF assms])
qed

lemma flushBatch_sel:
  "cwJobs (flushBatch env batch w) = cwJobs w" "cwScopeEvents (flushBatch env batch w) = cwScopeEvents w"
  "cwScopeWorker (flushBatch env batch w) = cwScopeWorker w" "cwClosed (flushBatch env batch w) = cwClosed w"
  by (rule flushBatch_effect [of env batch w], simp)+

lemma flushScopeBatch_sel:
  "cwJobs (flushScopeBatch env batch w) = cwJobs w" "cwScopeEvents (flushScopeBatch env batch w) = cwScopeEvents w"
  "cwWorkers (flushScopeBatch env batch w) = cwWorkers w" "cwClosed (flushScopeBatch env batch w) = cwClosed w"
  "cwScopeWorker (flushScopeBatch env batch w) = cwScopeWorker w"
  by (rule flushScopeBatch_effect [of env batch w], simp)+

lemma receive_works:
  assumes "cwClosed w" "k < length (cwWorkers w)" "cwWorkers w ! k \<noteq> None"
  shows "drainWork (workerReceive env k w) < drainWork w"
proof -
  from assms(3) obtain batch where b: "cwWorkers w ! k = Some batch" by auto
  note upd = length_filter_update [OF assms(2), of "\<lambda>x. x \<noteq> None"]
  show ?thesis
    using assms(1,2) b upd [of None] upd [of "Some []"] upd [of "Some (batch @ [hd (cwJobs w)])"]
    by (cases "cwJobs w") (auto simp: workerReceive_def drainWork_def Let_def flushBatch_sel flushBatch_workers)
qed

lemma scope_receive_works:
  assumes "cwClosed w" "cwScopeWorker w \<noteq> None"
  shows "drainWork (scopeReceive env w) < drainWork w"
  using assms
  by (cases "cwScopeEvents w") (auto simp: scopeReceive_def drainWork_def Let_def takeScopeRetries_def flushScopeBatch_sel)

lemma closed_stays:
  assumes "writer_inv w" "cwClosed w"
  shows "cwClosed (writer_exec step w) \<and> drainWork (writer_exec step w) \<le> drainWork w"
proof (cases step)
  case (WReceive env k)
  have "cwClosed (workerReceive env k w)"
    using assms(2) by (auto simp: workerReceive_def Let_def flushBatch_sel split: option.split list.split)
  moreover have "drainWork (workerReceive env k w) \<le> drainWork w"
    using receive_works [OF assms(2), of k env] by (cases "k < length (cwWorkers w) \<and> cwWorkers w ! k \<noteq> None") (auto simp: workerReceive_def)
  ultimately show ?thesis using WReceive by simp
next
  case (WScopeReceive env)
  have "cwClosed (scopeReceive env w)"
    using assms(2) by (auto simp: scopeReceive_def Let_def takeScopeRetries_def flushScopeBatch_sel split: option.split list.split)
  moreover have "drainWork (scopeReceive env w) \<le> drainWork w"
    using scope_receive_works [OF assms(2), of env] by (cases "cwScopeWorker w = None") (auto simp: scopeReceive_def)
  ultimately show ?thesis using WScopeReceive by simp
next
  case (WTimer env k)
  show ?thesis
  proof (cases "k < length (cwWorkers w) \<and> cwWorkers w ! k \<noteq> None")
    case True
    then obtain batch where b: "k < length (cwWorkers w)" "cwWorkers w ! k = Some batch" by auto
    then show ?thesis using assms(2) WTimer length_filter_update [of k "cwWorkers w" "\<lambda>x. x \<noteq> None" "Some []"]
      by (cases "batch = []") (simp_all add: workerTimer_def drainWork_def Let_def flushBatch_sel flushBatch_workers)
  qed (use assms(2) WTimer in \<open>auto simp: workerTimer_def\<close>)
next
  case WStart
  then show ?thesis using assms writer_invD(1) [OF assms(1)] by (auto simp: control_ok_def)
next
  case (WSend i)
  then show ?thesis using assms writer_invD(1) [OF assms(1)] by (simp add: control_ok_def EnqueueSend_def)
qed (use assms(2) in \<open>auto simp: EnqueueBegin_def EnqueueScopeEvent_def removeSender_def beginShutdown_def closeChannels_def closeConn_def
      readBegin_def readUse_def useConn_def readEnd_def Let_def scopeTimer_def retryTick_def takeScopeRetries_def drainWork_def
      flushScopeBatch_sel split: option.split\<close>)



section \<open>Order of scope events\<close>

text \<open>C19. Scope events can be stored out of order.  From every started, open writer whose scope path is
  idle: when the flush of an event fails and the next event is flushed by its timer before the retry
  tick, the later event is stored before the earlier one.\<close>

theorem scope_retry_reorders:
  assumes "writer_reach w" "cwScopeWorker w = Some []" "cwScopeEvents w = []" "cwScopeRetries w = []" "cwSenders w = []"
    and "\<not> cwClosing w"
  shows "cwScopeRows (fold writer_exec [WEnqueueScope e1, WSend 0, WScopeReceive deadFlush, WScopeTimer deadFlush,
      WEnqueueScope e2, WSend 0, WScopeReceive deadFlush, WScopeTimer smoothFlush, WRetryTick smoothFlush] w) = cwScopeRows w @ [e2, e1]"
proof -
  have "\<not> cwClosed w" using writer_invD(1) [OF writer_reach_inv [OF assms(1)]] assms(6) by (auto simp: control_ok_def)
  then show ?thesis
    using assms(2-6)
    by (simp add: EnqueueScopeEvent_def EnqueueSend_def removeSender_def scopeQueueSize_def scopeReceive_def scopeBatchMaxRows_def
        scopeTimer_def flushScopeBatch_def deadFlush_def smoothFlush_def useConn_def queueScopeRetries_def scopeRetryQueueMaxLen_def
        retryTick_def takeScopeRetries_def Let_def)
qed

definition sampleEvent :: "ScopeAction \<Rightarrow> int \<Rightarrow> ScopeEvent" where
  "sampleEvent action ts = \<lparr>seAction = action, seScope = \<lparr>sfClusterID = ''c'', sfAPIGroup = '''', sfKind = ''Pod'', sfNamespace = ''ns''\<rparr>,
     seAPIVersion = ''v1'', seRuleRef = ''r'', seTS = ts\<rparr>"

theorem scope_retry_reorders_witness:
  "cwScopeRows (fold writer_exec [WEnqueueScope (sampleEvent ScopeActionStarted 1), WSend 0, WScopeReceive deadFlush, WScopeTimer deadFlush,
      WEnqueueScope (sampleEvent ScopeActionStopped 2), WSend 0, WScopeReceive deadFlush, WScopeTimer smoothFlush, WRetryTick smoothFlush]
      (writer_exec WStart sampleWriter)) = [sampleEvent ScopeActionStopped 2, sampleEvent ScopeActionStarted 1]"
proof -
  have "cwScopeWorker (writer_exec WStart sampleWriter) = Some []" "cwScopeEvents (writer_exec WStart sampleWriter) = []"
    "cwScopeRetries (writer_exec WStart sampleWriter) = []" "cwSenders (writer_exec WStart sampleWriter) = []"
    "\<not> cwClosing (writer_exec WStart sampleWriter)" "cwScopeRows (writer_exec WStart sampleWriter) = []"
    by code_simp+
  with scope_retry_reorders [OF writer_step [OF sampleWriter_reach], of WStart] show ?thesis by (simp del: writer_exec.simps fold.simps)
qed

end
