(* ===== verification/Durations.thy ===== *)
theory Durations
imports Json
begin

text \<open>
  Instants and durations as package time renders them, for the queries and the fingerprint of the
  ClickHouse sink; and that the renderings the fingerprint is made of -- quoted strings, numbers,
  durations -- can be told apart and told where they end.
\<close>

section \<open>Rendering\<close>

definition pad :: "nat \<Rightarrow> nat \<Rightarrow> string" where
  "pad w n = replicate (w - length (showNat n)) (CHR ''0'') @ showNat n"

definition stripZeros :: "string \<Rightarrow> string" where
  "stripZeros s = rev (dropWhile (\<lambda>c. c = CHR ''0'') (rev s))"

text \<open>The fraction of \<open>v\<close> over a power of ten, without trailing zeros, and nothing at all when it is zero
  (\<open>fmtFrac\<close> of package time, and the layout element .999999999).\<close>

definition fmtFrac :: "nat \<Rightarrow> nat \<Rightarrow> string" where
  "fmtFrac v prec = (let digits = stripZeros (pad prec (v mod 10 ^ prec)) in if digits = [] then [] else CHR ''.'' # digits)"

text \<open>\<open>time.Duration.String\<close>.\<close>

definition durationText :: "nat \<Rightarrow> string" where
  "durationText u =
     (if u = 0 then ''0s''
      else if u < 1000 then showNat u @ ''ns''
      else if u < 1000000 then showNat (u div 1000) @ fmtFrac u 3 @ [CHR 0xC2, CHR 0xB5] @ ''s''
      else if u < 1000000000 then showNat (u div 1000000) @ fmtFrac u 6 @ ''ms''
      else let s = u div 1000000000
           in (if s \<ge> 60
               then (if s \<ge> 3600 then showNat (s div 60 div 60) @ ''h'' else '''') @ showNat (s div 60 mod 60) @ ''m''
               else '''') @
              showNat (s mod 60) @ fmtFrac u 9 @ ''s'')"

definition Duration_String :: "int \<Rightarrow> string" where
  "Duration_String d = (if d < 0 then ''-'' else '''') @ durationText (nat \<bar>d\<bar>)"

text \<open>The civil date of a day counted from 1970-01-01, and the layout \<open>chTimeFormat\<close>.\<close>

definition civil :: "int \<Rightarrow> int \<times> int \<times> int" where
  "civil days =
     (let z = days + 719468; era = z div 146097; doe = z mod 146097;
          yoe = (doe - doe div 1460 + doe div 36524 - doe div 146096) div 365;
          doy = doe - (365 * yoe + yoe div 4 - yoe div 100);
          mp = (5 * doy + 2) div 153;
          m = (if mp < 10 then mp + 3 else mp - 9)
      in (yoe + era * 400 + (if m \<le> 2 then 1 else 0), m, doy - (153 * mp + 2) div 5 + 1))"

definition formatTime :: "int \<Rightarrow> string" where
  "formatTime ts =
     (let secs = ts div 1000000000; clock = nat (secs mod 86400); (y, m, d) = civil (secs div 86400)
      in pad 4 (nat y) @ ''-'' @ pad 2 (nat m) @ ''-'' @ pad 2 (nat d) @ '' '' @
         pad 2 (clock div 3600) @ '':'' @ pad 2 (clock div 60 mod 60) @ '':'' @ pad 2 (clock mod 60) @
         fmtFrac (nat (ts mod 1000000000)) 9)"

section \<open>Numbers\<close>

definition isDigit :: "char \<Rightarrow> bool" where
  "isDigit c \<longleftrightarrow> 48 \<le> (of_char c :: nat) \<and> (of_char c :: nat) \<le> 57"

definition decVal :: "string \<Rightarrow> nat" where
  "decVal s = foldl (\<lambda>a c. 10 * a + (of_char c - 48)) 0 s"

lemma of_char_digit: "n < 10 \<Longrightarrow> (of_char (digit n) :: nat) = 48 + n"
  by (simp add: digit_def)

lemma showNat_digits: "c \<in> set (showNat n) \<Longrightarrow> isDigit c"
proof (induction n rule: showNat.induct)
  case (1 n)
  show ?case
  proof (cases "n < 10")
    case True
    then show ?thesis using 1(2) by (simp add: showNat.simps [of n] isDigit_def of_char_digit)
  next
    case False
    have "isDigit (digit (n mod 10))" by (simp add: isDigit_def of_char_digit)
    then show ?thesis using False 1 by (auto simp: showNat.simps [of n])
  qed
qed

lemma decVal_showNat: "decVal (showNat n) = n"
proof (induction n rule: showNat.induct)
  case (1 n)
  show ?case
  proof (cases "n < 10")
    case True
    then show ?thesis by (simp add: showNat.simps [of n] decVal_def of_char_digit)
  next
    case False
    then show ?thesis using 1 by (simp add: showNat.simps [of n] decVal_def of_char_digit)
  qed
qed

lemma showNat_inj [simp]: "showNat m = showNat n \<longleftrightarrow> m = n"
  using decVal_showNat by metis

lemma showNat_not_Nil [simp]: "showNat n \<noteq> []"
  by (simp add: showNat.simps [of n])

lemma nondigits [simp]:
  "\<not> isDigit (CHR '' '')" "\<not> isDigit (CHR ''-'')" "\<not> isDigit (CHR ''.'')" "\<not> isDigit (CHR ''s'')" "\<not> isDigit (CHR ''n'')"
  "\<not> isDigit (CHR ''m'')" "\<not> isDigit (CHR ''h'')" "\<not> isDigit (CHR 0xB5)" "\<not> isDigit (CHR 0xC2)"
  by (simp_all add: isDigit_def)

lemma digits_split:
  assumes "list_all isDigit a" "list_all isDigit b" "a @ x = b @ y"
    "x = [] \<or> \<not> isDigit (hd x)" "y = [] \<or> \<not> isDigit (hd y)"
  shows "a = b \<and> x = y"
  using assms
proof (induction a arbitrary: b)
  case Nil
  then show ?case by (cases b) auto
next
  case (Cons c a)
  then show ?case by (cases b) auto
qed

lemma all_digits: "list_all isDigit (showNat n)"
  by (auto simp: list_all_iff showNat_digits)

lemma showNat_split:
  assumes "showNat m @ x = showNat n @ y" "x = [] \<or> \<not> isDigit (hd x)" "y = [] \<or> \<not> isDigit (hd y)"
  shows "m = n \<and> x = y"
  using digits_split [OF all_digits all_digits assms] by simp

lemma showInt_split:
  assumes "showInt i @ x = showInt j @ y" "x = [] \<or> \<not> isDigit (hd x)" "y = [] \<or> \<not> isDigit (hd y)"
  shows "i = j \<and> x = y"
proof -
  have hd: "hd (showNat n) \<noteq> CHR ''-''" for n
    using showNat_digits [of "hd (showNat n)" n] by (metis hd_in_set nondigits(2) showNat_not_Nil)
  have no: "showNat n @ z \<noteq> CHR ''-'' # z'" for n z z'
    using hd [of n] by (cases "showNat n") auto
  show ?thesis
  proof (cases "i < 0")
    case True
    then have "j < 0" using assms(1) no [of "nat j" y, symmetric] by (cases "j < 0") (simp_all add: showInt_def)
    with True have "showNat (nat (- i)) @ x = showNat (nat (- j)) @ y" using assms(1) by (simp add: showInt_def)
    from showNat_split [OF this assms(2,3)] show ?thesis using True \<open>j < 0\<close> by (simp add: eq_nat_nat_iff)
  next
    case False
    then have "\<not> j < 0" using assms(1) no [of "nat i" x] by (cases "j < 0") (simp_all add: showInt_def)
    with False have "showNat (nat i) @ x = showNat (nat j) @ y" using assms(1) by (simp add: showInt_def)
    from showNat_split [OF this assms(2,3)] show ?thesis using False \<open>\<not> j < 0\<close> by (simp add: eq_nat_nat_iff)
  qed
qed

section \<open>Quoted strings delimit themselves\<close>

lemma of_hexDigit: "n < 16 \<Longrightarrow> (of_char (hexDigit n) :: nat) = (if n < 10 then 48 + n else 87 + n)"
  by (simp add: hexDigit_def of_char_of take_bit_nat_def)

lemma hexVal_hexDigit: "n < 16 \<Longrightarrow> hexVal (hexDigit n) = Some n"
  by (simp add: hexVal_def of_hexDigit Let_def)

lemma hexVals_hexByte: "hexVals 0 (hexByte c) = Some (of_char c)"
proof -
  have "(of_char c :: nat) < 16 * 16" by (cases c) (simp add: of_char_def)
  then have "(of_char c :: nat) div 16 < 16" by (rule less_mult_imp_div_less)
  then show ?thesis by (simp add: hexByte_def hexVal_hexDigit)
qed

text \<open>The byte a quoted text starts with, and the rest.\<close>

definition readByte :: "string \<Rightarrow> (char \<times> string) option" where
  "readByte s =
     (case s of
        [] \<Rightarrow> None
      | c # r \<Rightarrow>
          if c = CHR 0x5C then (case unquoteEscape r of Some ([v], r') \<Rightarrow> Some (v, r') | _ \<Rightarrow> None) else Some (c, r))"

lemma readByte_hex: "readByte (CHR 0x5C # CHR ''x'' # hexByte c @ x) = Some (c, x)"
proof -
  obtain a b where ab: "hexByte c = [a, b]" by (simp add: hexByte_def)
  then have "hexVals 0 [a, b] = Some (of_char c)" using hexVals_hexByte [of c] by simp
  moreover have "(of_char c :: nat) \<le> 255" by (cases c) (simp add: of_char_def)
  ultimately show ?thesis by (simp add: readByte_def unquoteEscape_def simpleEscapes_def byteEscape_def ab)
qed

lemma readByte_quote: "readByte (quoteByte c @ x) = Some (c, x)"
proof (cases "c \<in> {CHR 0x22, CHR 0x5C, CHR 0x07, CHR 0x08, CHR 0x0C, CHR 0x0A, CHR 0x0D, CHR 0x09, CHR 0x0B}")
  case True
  have "\<forall>c \<in> {CHR 0x22, CHR 0x5C, CHR 0x07, CHR 0x08, CHR 0x0C, CHR 0x0A, CHR 0x0D, CHR 0x09, CHR 0x0B}.
      readByte (quoteByte c @ x) = Some (c, x)"
    by (simp add: quoteByte_def readByte_def unquoteEscape_def simpleEscapes_def)
  from bspec [OF this True] show ?thesis .
next
  case False
  then have "quoteByte c = (if (of_char c :: nat) < 32 \<or> c = CHR 0x7F then [CHR 0x5C, CHR ''x''] @ hexByte c else [c])"
    unfolding quoteByte_def by (simp only: insert_iff empty_iff de_Morgan_disj if_False simp_thms)
  then show ?thesis using False by (simp add: readByte_hex) (simp add: readByte_def)
qed

lemma quoteByte_split:
  assumes "quoteByte c @ x = quoteByte d @ y"
  shows "c = d \<and> x = y"
proof -
  have "Some (c, x) = readByte (quoteByte c @ x)" by (simp only: readByte_quote)
  also have "\<dots> = Some (d, y)" by (simp only: assms readByte_quote)
  finally show ?thesis by simp
qed

lemma quoteByte_nonempty: "quoteByte c \<noteq> []" and quoteByte_hd: "hd (quoteByte c) \<noteq> CHR 0x22"
  by (simp_all add: quoteByte_def)

lemma quoted_split:
  "concat (map quoteByte s) @ CHR 0x22 # x = concat (map quoteByte t) @ CHR 0x22 # y \<Longrightarrow> s = t \<and> x = y"
proof (induction s arbitrary: t)
  case Nil
  then show ?case
  proof (cases t)
    case (Cons d ds)
    then show ?thesis using Nil quoteByte_nonempty [of d] quoteByte_hd [of d] by (cases "quoteByte d") auto
  qed simp
next
  case (Cons c s)
  then show ?case
  proof (cases t)
    case Nil
    then show ?thesis using Cons quoteByte_nonempty [of c] quoteByte_hd [of c] by (cases "quoteByte c") auto
  next
    case (Cons d ds)
    then have "quoteByte c @ concat (map quoteByte s) @ CHR 0x22 # x = quoteByte d @ concat (map quoteByte ds) @ CHR 0x22 # y"
      using Cons.prems by simp
    from quoteByte_split [OF this] show ?thesis using Cons.IH [of ds] Cons by simp
  qed
qed

lemma Quote_split: "Quote s @ x = Quote t @ y \<longleftrightarrow> s = t \<and> x = y"
  using quoted_split [of s x t y] by (auto simp: Quote_def)

section \<open>Durations are told apart\<close>

lemma length_showNat: "0 < w \<Longrightarrow> x < 10 ^ w \<Longrightarrow> length (showNat x) \<le> w"
proof (induction x arbitrary: w rule: showNat.induct)
  case (1 n)
  show ?case
  proof (cases "n < 10")
    case True
    then show ?thesis using 1(2) by (simp add: showNat.simps [of n])
  next
    case False
    then obtain v where v: "w = Suc v" "0 < v" using 1(2,3) by (cases w; cases "w - 1") auto
    then have "n div 10 < 10 ^ v" using 1(3) by (simp add: less_mult_imp_div_less mult.commute)
    then show ?thesis using 1(1) [OF False, of v] v False by (simp add: showNat.simps [of n])
  qed
qed

lemma decVal_zeros: "decVal (replicate k (CHR ''0'') @ s) = decVal s"
  by (induction k) (simp_all add: decVal_def)

lemma pad_inj: "pad w x = pad w y \<Longrightarrow> x = y"
  using decVal_zeros decVal_showNat unfolding pad_def by metis

lemma strip_zeros: "s = stripZeros s @ replicate (length s - length (stripZeros s)) (CHR ''0'')"
proof (induction s rule: rev_induct)
  case (snoc c s)
  show ?case
  proof (cases "c = CHR ''0''")
    case True
    have "length (stripZeros s) \<le> length s" unfolding stripZeros_def using length_dropWhile_le [of "\<lambda>c. c = CHR ''0''" "rev s"] by simp
    then have "s @ [c] = stripZeros s @ replicate (Suc (length s) - length (stripZeros s)) (CHR ''0'')"
      using snoc.IH True by (metis Suc_diff_le append.assoc replicate_Suc replicate_append_same)
    moreover have "stripZeros (s @ [c]) = stripZeros s" using True by (simp add: stripZeros_def)
    ultimately show ?thesis by (metis length_append_singleton)
  qed (simp add: stripZeros_def)
qed (simp add: stripZeros_def)

lemma strip_inj: "length s = length t \<Longrightarrow> stripZeros s = stripZeros t \<Longrightarrow> s = t"
  using strip_zeros [of s] strip_zeros [of t] by metis

lemma length_pad: "0 < w \<Longrightarrow> x < 10 ^ w \<Longrightarrow> length (pad w x) = w"
  using length_showNat [of w x] by (simp add: pad_def)

lemma fmtFrac_inj:
  assumes "fmtFrac v p = fmtFrac v' p" "0 < p"
  shows "v mod 10 ^ p = v' mod 10 ^ p"
proof -
  have "stripZeros (pad p (v mod 10 ^ p)) = stripZeros (pad p (v' mod 10 ^ p))"
    using assms(1) by (auto simp: fmtFrac_def Let_def split: if_splits)
  moreover have "length (pad p (v mod 10 ^ p)) = length (pad p (v' mod 10 ^ p))"
    by (simp add: length_pad [OF assms(2)])
  ultimately show ?thesis using strip_inj pad_inj by blast
qed

lemma fmtFrac_hd: "fmtFrac v p = [] \<or> hd (fmtFrac v p) = CHR ''.''"
  by (simp add: fmtFrac_def Let_def)

lemma fmtFrac_digit: "fmtFrac v p = [] \<or> isDigit (last (fmtFrac v p))"
proof -
  let ?d = "stripZeros (pad p (v mod 10 ^ p))"
  have "set (pad p x) \<subseteq> {c. isDigit c}" for x
    using showNat_digits by (auto simp: pad_def isDigit_def)
  moreover have "set ?d \<subseteq> set (pad p (v mod 10 ^ p))"
    unfolding stripZeros_def by (metis set_dropWhileD set_rev subsetI)
  ultimately have "?d = [] \<or> isDigit (last ?d)" by (metis last_in_set mem_Collect_eq subsetD)
  then show ?thesis by (auto simp: fmtFrac_def Let_def)
qed

lemma frac_rest: "\<not> isDigit (hd unit) \<Longrightarrow> fmtFrac v p @ unit = [] \<or> \<not> isDigit (hd (fmtFrac v p @ unit))"
  using fmtFrac_hd [of v p] by (cases "fmtFrac v p") auto

definition fracUnit :: "nat \<Rightarrow> nat \<Rightarrow> string \<Rightarrow> string" where
  "fracUnit v p unit = showNat (v div 10 ^ p) @ fmtFrac v p @ unit"

lemma fracUnit_inj:
  assumes "fracUnit v p unit = fracUnit v' p unit" "0 < p" "\<not> isDigit (hd unit)"
  shows "v = v'"
proof -
  have "v div 10 ^ p = v' div 10 ^ p \<and> fmtFrac v p @ unit = fmtFrac v' p @ unit"
    using assms(1) unfolding fracUnit_def
    by (rule showNat_split) (rule frac_rest [OF assms(3)])+
  then have eqs: "v div 10 ^ p = v' div 10 ^ p" "fmtFrac v p = fmtFrac v' p" by simp_all
  have "v = v div 10 ^ p * 10 ^ p + v mod 10 ^ p" by (simp only: div_mult_mod_eq)
  also have "\<dots> = v' div 10 ^ p * 10 ^ p + v' mod 10 ^ p" by (simp only: eqs(1) fmtFrac_inj [OF eqs(2) assms(2)])
  finally show ?thesis by (simp only: div_mult_mod_eq)
qed

text \<open>Of a second and more, and of zero.\<close>

definition seconds :: "nat \<Rightarrow> string" where
  "seconds u = showNat (u div 1000000000 mod 60) @ fmtFrac u 9 @ ''s''"

definition minutes :: "nat \<Rightarrow> string" where
  "minutes u = showNat (u div 1000000000 div 60 mod 60) @ ''m'' @ seconds u"

definition hours :: "nat \<Rightarrow> string" where
  "hours u = showNat (u div 1000000000 div 60 div 60) @ ''h'' @ minutes u"

definition clock :: "nat \<Rightarrow> string" where
  "clock u = (let s = u div 1000000000 in if s \<ge> 3600 then hours u else if s \<ge> 60 then minutes u else seconds u)"

lemma seconds_split:
  assumes "seconds u = seconds u'"
  shows "u div 1000000000 mod 60 = u' div 1000000000 mod 60 \<and> u mod 1000000000 = u' mod 1000000000"
proof -
  have "u div 1000000000 mod 60 = u' div 1000000000 mod 60 \<and> fmtFrac u 9 @ ''s'' = fmtFrac u' 9 @ ''s''"
    using assms unfolding seconds_def by (rule showNat_split) (rule frac_rest, simp)+
  then have eqs: "u div 1000000000 mod 60 = u' div 1000000000 mod 60" "fmtFrac u 9 = fmtFrac u' 9" by simp_all
  show ?thesis using eqs(1) fmtFrac_inj [OF eqs(2)] by simp
qed

lemma minutes_split:
  assumes "minutes u = minutes u'"
  shows "u div 1000000000 div 60 mod 60 = u' div 1000000000 div 60 mod 60 \<and> seconds u = seconds u'"
proof -
  have "u div 1000000000 div 60 mod 60 = u' div 1000000000 div 60 mod 60 \<and> ''m'' @ seconds u = ''m'' @ seconds u'"
    using assms unfolding minutes_def by (rule showNat_split) simp_all
  then show ?thesis by simp
qed

lemma hours_split:
  assumes "hours u = hours u'"
  shows "u div 1000000000 div 60 div 60 = u' div 1000000000 div 60 div 60 \<and> minutes u = minutes u'"
proof -
  have "u div 1000000000 div 60 div 60 = u' div 1000000000 div 60 div 60 \<and> ''h'' @ minutes u = ''h'' @ minutes u'"
    using assms unfolding hours_def by (rule showNat_split) simp_all
  then show ?thesis by simp
qed

lemma clock_forms: "hours u \<noteq> minutes u'" "hours u \<noteq> seconds u'" "minutes u \<noteq> seconds u'"
proof -
  note hd = fmtFrac_hd [of u' 9]
  show "hours u \<noteq> minutes u'"
    using showNat_split [of "u div 1000000000 div 60 div 60" "''h'' @ minutes u" "u' div 1000000000 div 60 mod 60" "''m'' @ seconds u'"]
    by (auto simp: hours_def minutes_def [of u'])
  have rest: "''h'' @ x \<noteq> fmtFrac u' 9 @ ''s''" "''m'' @ x \<noteq> fmtFrac u' 9 @ ''s''" for x
    using hd by (cases "fmtFrac u' 9"; simp)+
  have frac: "fmtFrac u' 9 @ ''s'' = [] \<or> \<not> isDigit (hd (fmtFrac u' 9 @ ''s''))" by (rule frac_rest) simp
  show "hours u \<noteq> seconds u'"
    using showNat_split [of "u div 1000000000 div 60 div 60" "''h'' @ minutes u" "u' div 1000000000 mod 60" "fmtFrac u' 9 @ ''s''"] rest frac
    by (auto simp: hours_def seconds_def [of u'])
  show "minutes u \<noteq> seconds u'"
    using showNat_split [of "u div 1000000000 div 60 mod 60" "''m'' @ seconds u" "u' div 1000000000 mod 60" "fmtFrac u' 9 @ ''s''"] rest frac
    by (auto simp: minutes_def seconds_def [of u'])
qed

lemma div_mod_inj: "(u :: nat) div n = u' div n \<Longrightarrow> u mod n = u' mod n \<Longrightarrow> u = u'"
  by (metis div_mult_mod_eq)

lemma clock_inj:
  assumes "clock u = clock u'"
  shows "u = u'"
proof -
  let ?s = "u div 1000000000" and ?t = "u' div 1000000000"
  consider (h) "3600 \<le> ?s" "3600 \<le> ?t" | (m) "60 \<le> ?s" "?s < 3600" "60 \<le> ?t" "?t < 3600" | (s) "?s < 60" "?t < 60"
    using assms clock_forms [of u u'] clock_forms [of u' u] by (fastforce simp: clock_def Let_def split: if_splits)
  then have "?s = ?t \<and> u mod 1000000000 = u' mod 1000000000"
  proof cases
    case h
    then have "hours u = hours u'" using assms by (simp add: clock_def Let_def)
    then have "?s div 60 div 60 = ?t div 60 div 60" "?s div 60 mod 60 = ?t div 60 mod 60" "?s mod 60 = ?t mod 60"
      "u mod 1000000000 = u' mod 1000000000"
      using hours_split minutes_split seconds_split by blast+
    then show ?thesis using div_mod_inj [of "?s div 60" 60 "?t div 60"] div_mod_inj [of ?s 60 ?t] by blast
  next
    case m
    then have "minutes u = minutes u'" using assms by (simp add: clock_def Let_def)
    then have "?s div 60 mod 60 = ?t div 60 mod 60" "?s mod 60 = ?t mod 60" "u mod 1000000000 = u' mod 1000000000"
      using minutes_split seconds_split by blast+
    moreover have "?s div 60 < 60" "?t div 60 < 60" using m by (simp_all add: less_mult_imp_div_less)
    ultimately show ?thesis using div_mod_inj [of ?s 60 ?t] by simp
  next
    case s
    then have "seconds u = seconds u'" using assms by (simp add: clock_def Let_def)
    then show ?thesis using seconds_split [of u u'] s by simp
  qed
  then show ?thesis using div_mod_inj by blast
qed

definition durationBody :: "nat \<Rightarrow> string" where
  "durationBody u =
     (if u = 0 \<or> u \<ge> 1000000000 then clock u
      else if u < 1000 then showNat u @ ''ns''
      else if u < 1000000 then fracUnit u 3 [CHR 0xC2, CHR 0xB5, CHR ''s'']
      else fracUnit u 6 ''ms'')"

lemma showNat_zero: "showNat 0 = ''0''"
  by code_simp

lemma strip_all_zeros: "stripZeros (replicate n (CHR ''0'') @ ''0'') = []"
  by (auto simp: stripZeros_def dropWhile_eq_Nil_conv)

lemma clock_zero: "clock 0 = ''0s''"
  by (simp add: clock_def seconds_def showNat_zero fmtFrac_def pad_def strip_all_zeros)

lemma durationText_body: "durationText u = durationBody u"
proof -
  consider "u = 0" | "0 < u" "u < 1000" | "1000 \<le> u" "u < 1000000" | "1000000 \<le> u" "u < 1000000000" | "1000000000 \<le> u"
    by linarith
  then show ?thesis
  proof cases
    case 5
    then have "durationText u = (let s = u div 1000000000
           in (if s \<ge> 60
               then (if s \<ge> 3600 then showNat (s div 60 div 60) @ ''h'' else '''') @ showNat (s div 60 mod 60) @ ''m''
               else '''') @
              showNat (s mod 60) @ fmtFrac u 9 @ ''s'')"
      by (simp add: durationText_def)
    also have "\<dots> = clock u" by (simp add: clock_def hours_def minutes_def seconds_def Let_def)
    finally show ?thesis using 5 by (simp add: durationBody_def)
  qed (simp_all add: durationText_def durationBody_def clock_zero fracUnit_def)
qed

lemma second_last: "last (butlast (x @ [a, b])) = a"
  by (simp add: butlast_append)

lemma clock_unit: "isDigit (last (butlast (clock u)))"
proof -
  have sec: "isDigit (last (butlast (seconds u)))"
  proof (cases "fmtFrac u 9 = []")
    case True
    then show ?thesis using showNat_digits [OF last_in_set [OF showNat_not_Nil]] by (simp add: seconds_def butlast_append)
  next
    case False
    then show ?thesis using fmtFrac_digit [of u 9] by (simp add: seconds_def butlast_append)
  qed
  moreover have "butlast (seconds u) \<noteq> []" by (simp add: seconds_def butlast_append)
  ultimately show ?thesis by (auto simp: clock_def hours_def minutes_def butlast_append Let_def)
qed

definition unitClass :: "char \<Rightarrow> nat" where
  "unitClass c = (if isDigit c then 0 else if c = CHR ''n'' then 1 else if c = CHR 0xB5 then 2 else 3)"

lemma unitClass_body:
  "unitClass (last (butlast (durationBody u))) =
     (if u = 0 \<or> u \<ge> 1000000000 then 0 else if u < 1000 then 1 else if u < 1000000 then 2 else 3)"
  by (simp add: durationBody_def clock_unit fracUnit_def butlast_append unitClass_def)

lemma durationBody_inj:
  assumes "durationBody u = durationBody u'"
  shows "u = u'"
proof -
  have same: "(if u = 0 \<or> u \<ge> 1000000000 then 0 else if u < 1000 then 1 else if u < 1000000 then 2 else (3 :: nat)) =
      (if u' = 0 \<or> u' \<ge> 1000000000 then 0 else if u' < 1000 then 1 else if u' < 1000000 then 2 else 3)"
    using unitClass_body [of u] unitClass_body [of u'] assms by simp
  consider "u = 0 \<or> u \<ge> 1000000000" | "0 < u" "u < 1000" | "1000 \<le> u" "u < 1000000" | "1000000 \<le> u" "u < 1000000000"
    by linarith
  then show ?thesis
  proof cases
    case 1
    then have "u' = 0 \<or> u' \<ge> 1000000000" using same by (simp split: if_splits)
    then show ?thesis using assms clock_inj [of u u'] 1 by (simp add: durationBody_def)
  next
    case 2
    then have "0 < u'" "u' < 1000" using same by (simp_all split: if_splits)
    then show ?thesis using assms 2 by (simp add: durationBody_def)
  next
    case 3
    then have "1000 \<le> u'" "u' < 1000000" using same by (simp_all split: if_splits)
    then have "fracUnit u 3 [CHR 0xC2, CHR 0xB5, CHR ''s''] = fracUnit u' 3 [CHR 0xC2, CHR 0xB5, CHR ''s'']"
      using assms 3 by (simp add: durationBody_def)
    then show ?thesis by (rule fracUnit_inj) simp_all
  next
    case 4
    then have "1000000 \<le> u'" "u' < 1000000000" using same by (simp_all split: if_splits)
    then have "fracUnit u 6 ''ms'' = fracUnit u' 6 ''ms''" using assms 4 by (simp add: durationBody_def)
    then show ?thesis by (rule fracUnit_inj) simp_all
  qed
qed

lemma clock_digit: "isDigit (hd (clock u))"
  using showNat_digits [OF hd_in_set [OF showNat_not_Nil]]
  by (simp add: clock_def hours_def minutes_def seconds_def Let_def)

lemma durationBody_digit: "durationBody u \<noteq> [] \<and> isDigit (hd (durationBody u))"
proof -
  have "durationBody u \<noteq> []" by (simp add: durationBody_def clock_def hours_def minutes_def seconds_def fracUnit_def Let_def)
  then show ?thesis
    using showNat_digits [OF hd_in_set [OF showNat_not_Nil]] clock_digit by (simp add: durationBody_def fracUnit_def)
qed

lemma Duration_String_inj [simp]: "Duration_String d = Duration_String d' \<longleftrightarrow> d = d'"
proof
  assume eq: "Duration_String d = Duration_String d'"
  have no: "durationBody u \<noteq> CHR ''-'' # x" for u x
    using durationBody_digit [of u] by auto
  have "(d < 0) = (d' < 0)"
    using eq no no [symmetric] by (simp add: Duration_String_def durationText_body split: if_split_asm)
  then have "durationBody (nat \<bar>d\<bar>) = durationBody (nat \<bar>d'\<bar>)"
    using eq by (simp add: Duration_String_def durationText_body split: if_split_asm)
  from durationBody_inj [OF this] \<open>(d < 0) = (d' < 0)\<close> show "d = d'" by (cases "d < 0") simp_all
qed simp

section \<open>Renderings that can be told apart in context\<close>

text \<open>A rendering is delimited when what follows it, if admissible, cannot be mistaken for a part of it: a
  text that starts with a rendering has one reading.\<close>

locale delimited =
  fixes render :: "'a \<Rightarrow> string" and stops :: "string \<Rightarrow> bool"
  assumes split: "render x @ a = render y @ b \<Longrightarrow> stops a \<Longrightarrow> stops b \<Longrightarrow> x = y \<and> a = b"
    and stops_Nil: "stops []"
begin

lemma one_reading: "stops a \<Longrightarrow> stops b \<Longrightarrow> render x @ a = render y @ b \<longleftrightarrow> x = y \<and> a = b"
  using split by blast

lemma alone: "render x = render y \<longleftrightarrow> x = y"
  using one_reading [OF stops_Nil stops_Nil] by simp

end

definition afterNumber :: "string \<Rightarrow> bool" where
  "afterNumber x \<longleftrightarrow> x = [] \<or> \<not> isDigit (hd x)"

lemma afterNumber_space [simp]: "afterNumber (CHR '' '' # x)"
  by (simp add: afterNumber_def isDigit_def)

interpretation quoted: delimited Quote "\<lambda>_. True"
  by unfold_locales (simp_all add: Quote_split)

interpretation natural: delimited showNat afterNumber
  by unfold_locales (unfold afterNumber_def, erule showNat_split, simp_all)

interpretation integer: delimited showInt afterNumber
  by unfold_locales (unfold afterNumber_def, erule showInt_split, simp_all)

end
