(* ===== verification/ClickHouse.thy ===== *)
theory ClickHouse
imports WriteQueue Sinks Durations Sha256
begin

text \<open>
  The parts of the ClickHouse sink around its writer: the schema contract and its validation
  (internal/sink/clickhouse/schema.go), the reads of the stored history (statereader.go), the
  configuration with its fingerprint and the health probe (instance.go, writer.go).  The driver is a
  parameter: what it answers to a query is a stream of rows, each of which may fail to scan, with an
  error that may follow the last row it delivered.
\<close>

section \<open>Schema\<close>

record schemaColumn =
  scName :: string
  scType :: string

definition col :: "string \<Rightarrow> string \<Rightarrow> schemaColumn" where
  "col n t = \<lparr>scName = n, scType = t\<rparr>"

definition tableResourceStates :: string where
  "tableResourceStates = ''resource_states''"

definition tableWatchScopes :: string where
  "tableWatchScopes = ''watch_scopes''"

definition requiredColumns :: "(string, schemaColumn list) gomap" where
  "requiredColumns =
     [(tableResourceStates,
       [col ''ts'' ''DateTime64(9, 'UTC')'',
        col ''cluster_id'' ''LowCardinality(String)'',
        col ''event_type'' ''LowCardinality(String)'',
        col ''api_group'' ''LowCardinality(String)'',
        col ''api_version'' ''LowCardinality(String)'',
        col ''kind'' ''LowCardinality(String)'',
        col ''namespace'' ''String'',
        col ''name'' ''String'',
        col ''uid'' ''String'',
        col ''resource_version'' ''String'',
        col ''labels'' ''Map(LowCardinality(String), String)'',
        col ''actors'' ''Array(LowCardinality(String))'',
        col ''data'' ''String'',
        col ''diff'' ''String'',
        col ''sha256'' ''String'']),
      (tableWatchScopes,
       [col ''ts'' ''DateTime64(9, 'UTC')'',
        col ''cluster_id'' ''LowCardinality(String)'',
        col ''api_group'' ''LowCardinality(String)'',
        col ''api_version'' ''LowCardinality(String)'',
        col ''kind'' ''LowCardinality(String)'',
        col ''namespace'' ''String'',
        col ''action'' ''LowCardinality(String)'',
        col ''rule_ref'' ''String''])]"

definition requiredFor :: "string \<Rightarrow> schemaColumn list" where
  "requiredFor table = (case mget requiredColumns table of None \<Rightarrow> [] | Some cols \<Rightarrow> cols)"

definition nl :: string where
  "nl = [CHR 0x0A]"

definition insertResourceStateQuery :: string where
  "insertResourceStateQuery = nl @
     ''        INSERT INTO resource_states ('' @ nl @
     ''            ts, cluster_id, event_type, api_group, api_version, kind, namespace, name, uid, resource_version, labels, actors, data, diff, sha256'' @ nl @
     ''        ) VALUES (?, ?, ?, ?, ?, ?, ?, ?, ?, ?, ?, ?, ?, ?, ?)''"

definition insertScopeEventQuery :: string where
  "insertScopeEventQuery = nl @
     ''        INSERT INTO watch_scopes ('' @ nl @
     ''            ts, cluster_id, api_group, api_version, kind, namespace, action, rule_ref'' @ nl @
     ''        ) VALUES (?, ?, ?, ?, ?, ?, ?, ?)''"

section \<open>Reading rows\<close>

record 'r rowStream =
  rsRows :: "(string + 'r) list"
  rsErr :: "string option"

type_synonym 'r reply = "string + 'r rowStream"

text \<open>The loop over \<open>rows.Next\<close> with its \<open>Scan\<close>, and the look at \<open>rows.Err\<close> behind it.\<close>

fun scanRows :: "(string + 'r) list \<Rightarrow> string option \<Rightarrow> string + 'r list" where
  "scanRows [] err = (case err of None \<Rightarrow> Inr [] | Some e \<Rightarrow> Inl e)"
| "scanRows (Inl e # rows) err = Inl e"
| "scanRows (Inr r # rows) err = (case scanRows rows err of Inl e \<Rightarrow> Inl e | Inr rs \<Rightarrow> Inr (r # rs))"

definition readAll :: "'r reply \<Rightarrow> string + 'r list" where
  "readAll reply = (case reply of Inl e \<Rightarrow> Inl e | Inr s \<Rightarrow> scanRows (rsRows s) (rsErr s))"

definition observeColumn ::
    "string \<times> string \<times> string \<Rightarrow> (string, (string, string) gomap) gomap \<Rightarrow> (string, (string, string) gomap) gomap" where
  "observeColumn row observed =
     (case row of (table, name, chType) \<Rightarrow>
        mput table (mput name chType (case mget observed table of None \<Rightarrow> [] | Some cols \<Rightarrow> cols)) observed)"

definition introspectColumns ::
    "(string \<times> string \<times> string) reply \<Rightarrow> string + (string, (string, string) gomap) gomap" where
  "introspectColumns reply =
     (case readAll reply of Inl e \<Rightarrow> Inl e | Inr rows \<Rightarrow> Inr (fold observeColumn rows []))"

datatype validateError = schemaMismatchError "string list" | ReadFailed string

definition columnDiscrepancy :: "string \<Rightarrow> (string, string) gomap \<Rightarrow> schemaColumn \<Rightarrow> string list" where
  "columnDiscrepancy table cols req =
     (case mget cols (scName req) of
        None \<Rightarrow> [''table '' @ Quote table @ '' is missing column '' @ Quote (scName req) @ '' (expected type '' @ scType req @ '')'']
      | Some got \<Rightarrow>
          if got \<noteq> scType req
          then [''table '' @ Quote table @ '' column '' @ Quote (scName req) @ '' has type '' @ got @ '', expected '' @ scType req]
          else [])"

definition tableDiscrepancies :: "(string, (string, string) gomap) gomap \<Rightarrow> string \<Rightarrow> string list" where
  "tableDiscrepancies observed table =
     (case mget observed table of
        None \<Rightarrow> [''table '' @ Quote table @ '' is missing'']
      | Some cols \<Rightarrow> concat (map (columnDiscrepancy table cols) (requiredFor table)))"

definition validateSchema :: "(string \<times> string \<times> string) reply \<Rightarrow> validateError option" where
  "validateSchema reply =
     (case introspectColumns reply of
        Inl e \<Rightarrow> Some (ReadFailed e)
      | Inr observed \<Rightarrow>
          let discrepancies = concat (map (tableDiscrepancies observed) [tableResourceStates, tableWatchScopes])
          in if discrepancies \<noteq> [] then Some (schemaMismatchError discrepancies) else None)"

definition mismatch_Error :: "string list \<Rightarrow> string" where
  "mismatch_Error discrepancies = ''clickhouse schema mismatch: '' @ join ''; '' discrepancies"

section \<open>Using the connection\<close>

definition ErrSchemaInvalid :: string where
  "ErrSchemaInvalid = ''sink schema does not match the schema the operator writes''"

definition Probe :: "string option \<Rightarrow> (string \<times> string \<times> string) reply \<Rightarrow> 'c CHWriter \<Rightarrow> probeError option \<times> 'c CHWriter" where
  "Probe ping columns w =
     (case readBegin w of
        (Some _, w) \<Rightarrow> (Some (ProbeFailed ''chwriter: shutting down, refusing health probe''), w)
      | (None, w) \<Rightarrow>
          ((case ping of
              Some e \<Rightarrow> Some (ProbeFailed (''ping clickhouse: '' @ e))
            | None \<Rightarrow>
                (case validateSchema columns of
                   None \<Rightarrow> None
                 | Some (schemaMismatchError ds) \<Rightarrow> Some (SchemaMismatch (ErrSchemaInvalid @ '': '' @ mismatch_Error ds))
                 | Some (ReadFailed e) \<Rightarrow> Some (ProbeFailed e))),
           readEnd (readUse w)))"

section \<open>State reads\<close>

definition lastKnownStatesQuery :: "ScopeFilter \<Rightarrow> string \<times> chValue list" where
  "lastKnownStatesQuery flt =
     (let query = nl @
            ''        SELECT namespace, name, uid, argMax(sha256, ts), argMax(api_version, ts), max(ts)'' @ nl @
            ''        FROM resource_states'' @ nl @
            ''        WHERE api_group = ? AND kind = ? AND cluster_id = ?'';
          args = [VString (sfAPIGroup flt), VString (sfKind flt), VString (sfClusterID flt)];
          (query, args) =
            (if sfNamespace flt \<noteq> '''' then (query @ nl @ ''        AND namespace = ?'', args @ [VString (sfNamespace flt)])
             else (query, args))
      in (query @ nl @
            ''        GROUP BY namespace, name, uid'' @ nl @
            ''        HAVING argMax(event_type, ts) != '' @ [CHR 0x27] @ ''Deleted'' @ [CHR 0x27],
          args))"

definition scopeWasActiveQuery :: "ScopeFilter \<Rightarrow> int \<Rightarrow> string \<times> chValue list" where
  "scopeWasActiveQuery flt asOf =
     (nl @
        ''        SELECT argMax(action, ts)'' @ nl @
        ''        FROM watch_scopes'' @ nl @
        ''        WHERE cluster_id = ? AND api_group = ? AND kind = ? AND namespace = ? AND ts < ?'',
      [VString (sfClusterID flt), VString (sfAPIGroup flt), VString (sfKind flt), VString (sfNamespace flt),
       VString (formatTime asOf)])"

definition activeScopesQuery :: "string \<Rightarrow> string \<times> chValue list" where
  "activeScopesQuery clusterID =
     (nl @
        ''        SELECT api_group, kind, namespace'' @ nl @
        ''        FROM watch_scopes'' @ nl @
        ''        WHERE cluster_id = ?'' @ nl @
        ''        GROUP BY api_group, kind, namespace'' @ nl @
        ''        HAVING argMax(action, ts) = ?'',
      [VString clusterID, VString (actionString ScopeActionStarted)])"

text \<open>The action of the first row, when there is one.\<close>

definition firstAction :: "string reply \<Rightarrow> string + string" where
  "firstAction reply =
     (case reply of
        Inl e \<Rightarrow> Inl e
      | Inr s \<Rightarrow>
          (case rsRows s of
             Inl e # _ \<Rightarrow> Inl e
           | Inr action # _ \<Rightarrow> (case rsErr s of Some e \<Rightarrow> Inl e | None \<Rightarrow> Inr action)
           | [] \<Rightarrow> (case rsErr s of Some e \<Rightarrow> Inl e | None \<Rightarrow> Inr '''')))"

definition ScopeWasActive ::
    "(string \<Rightarrow> chValue list \<Rightarrow> string reply) \<Rightarrow> int \<Rightarrow> ScopeFilter \<Rightarrow> int option \<Rightarrow> 'c CHWriter \<Rightarrow> (string + bool) \<times> 'c CHWriter" where
  "ScopeWasActive query now flt asOf w =
     (let asOf = (case asOf of None \<Rightarrow> now | Some t \<Rightarrow> t)
      in case readBegin w of
        (Some _, w) \<Rightarrow> (Inl ''chwriter: shutting down, refusing scope epoch read'', w)
      | (None, w) \<Rightarrow>
          ((case firstAction (case scopeWasActiveQuery flt asOf of (q, args) \<Rightarrow> query q args) of
              Inl e \<Rightarrow> Inl e
            | Inr action \<Rightarrow> Inr (action = actionString ScopeActionStarted)),
           readEnd (readUse w)))"

definition scopeOfRow :: "string \<Rightarrow> string \<times> string \<times> string \<Rightarrow> ScopeFilter" where
  "scopeOfRow clusterID row = (case row of (g, k, ns) \<Rightarrow> \<lparr>sfClusterID = clusterID, sfAPIGroup = g, sfKind = k, sfNamespace = ns\<rparr>)"

definition stateOfRow :: "string \<times> string \<times> string \<times> string \<times> string \<times> int \<Rightarrow> KnownState" where
  "stateOfRow row =
     (case row of (ns, n, uid, sha, v, ts) \<Rightarrow>
        \<lparr>ksNamespace = ns, ksName = n, ksUID = uid, ksSHA256 = sha, ksAPIVersion = v, ksTS = ts\<rparr>)"

definition ActiveScopes ::
    "(string \<Rightarrow> chValue list \<Rightarrow> (string \<times> string \<times> string) reply) \<Rightarrow> string \<Rightarrow> 'c CHWriter \<Rightarrow>
     (string + ScopeFilter list) \<times> 'c CHWriter" where
  "ActiveScopes query clusterID w =
     (case readBegin w of
        (Some _, w) \<Rightarrow> (Inl ''chwriter: shutting down, refusing scope enumeration'', w)
      | (None, w) \<Rightarrow>
          ((case readAll (case activeScopesQuery clusterID of (q, args) \<Rightarrow> query q args) of
              Inl e \<Rightarrow> Inl e
            | Inr rows \<Rightarrow>
                Inr (map (scopeOfRow clusterID) rows)),
           readEnd (readUse w)))"

definition LastKnownStates ::
    "(string \<Rightarrow> chValue list \<Rightarrow> (string \<times> string \<times> string \<times> string \<times> string \<times> int) reply) \<Rightarrow> ScopeFilter \<Rightarrow> 'c CHWriter \<Rightarrow>
     (string + KnownState list) \<times> 'c CHWriter" where
  "LastKnownStates query flt w =
     (case readBegin w of
        (Some _, w) \<Rightarrow> (Inl ''chwriter: shutting down, refusing state read'', w)
      | (None, w) \<Rightarrow>
          ((case readAll (case lastKnownStatesQuery flt of (q, args) \<Rightarrow> query q args) of
              Inl e \<Rightarrow> Inl e
            | Inr rows \<Rightarrow>
                Inr (map stateOfRow rows)),
           readEnd (readUse w)))"

section \<open>Creating the schema\<close>

text \<open>\<open>strings.TrimSpace\<close> on the ASCII spaces, \<open>strings.TrimRight\<close> with one character.\<close>

definition asciiSpace :: "char \<Rightarrow> bool" where
  "asciiSpace c = (c \<in> {CHR '' '', CHR 0x09, CHR 0x0A, CHR 0x0B, CHR 0x0C, CHR 0x0D})"

definition TrimSpace :: "string \<Rightarrow> string" where
  "TrimSpace s = rev (dropWhile asciiSpace (rev (dropWhile asciiSpace s)))"

definition TrimRight :: "char \<Rightarrow> string \<Rightarrow> string" where
  "TrimRight c s = rev (dropWhile (\<lambda>x. x = c) (rev s))"

definition HasSuffix :: "string \<Rightarrow> string \<Rightarrow> bool" where
  "HasSuffix s suf = (length suf \<le> length s \<and> drop (length s - length suf) s = suf)"

record ddlEnv =
  deEntries :: "string + (string \<times> bool) list"
  deReadFile :: "string \<Rightarrow> string + string"
  deExec :: "string \<Rightarrow> string option"

fun execFiles :: "ddlEnv \<Rightarrow> string list \<Rightarrow> string list \<Rightarrow> string option \<times> string list" where
  "execFiles env [] done_stmts = (None, done_stmts)"
| "execFiles env (name # names) done_stmts =
     (case deReadFile env name of
        Inl e \<Rightarrow> (Some e, done_stmts)
      | Inr ddl \<Rightarrow>
          let stmt = TrimRight (CHR '';'') (TrimSpace ddl)
          in case deExec env stmt of
               Some e \<Rightarrow> (Some (''executing '' @ name @ '': '' @ e), done_stmts)
             | None \<Rightarrow> execFiles env names (done_stmts @ [stmt]))"

definition autoCreateSchema :: "ddlEnv \<Rightarrow> string option \<times> string list" where
  "autoCreateSchema env =
     (case deEntries env of
        Inl e \<Rightarrow> (Some e, [])
      | Inr entries \<Rightarrow> execFiles env (sort (map fst (filter (\<lambda>(n, isDir). \<not> isDir \<and> HasSuffix n ''.sql'') entries))) [])"

text \<open>\<open>backoff.Retry\<close> without an end of its own: the k-th attempt meets the environment \<open>env k\<close>, and the
  context may be found cancelled after it.\<close>

partial_function (option) autoCreateSchemaWithRetry ::
    "(nat \<Rightarrow> ddlEnv) \<Rightarrow> (nat \<Rightarrow> bool) \<Rightarrow> nat \<Rightarrow> string list \<Rightarrow> (bool \<times> string list) option" where
  "autoCreateSchemaWithRetry env cancelled n done_stmts =
     (case autoCreateSchema (env n) of
        (None, stmts) \<Rightarrow> Some (True, done_stmts @ stmts)
      | (Some _, stmts) \<Rightarrow>
          if cancelled n then Some (False, done_stmts @ stmts)
          else autoCreateSchemaWithRetry env cancelled (Suc n) (done_stmts @ stmts))"

section \<open>Configuration\<close>

record Config =
  cfAddr :: string
  cfDatabase :: string
  cfUsername :: string
  cfPassword :: string
  cfDialTimeout :: int
  cfReadTimeout :: int
  cfAutoCreateSchema :: bool
  cfBatchMaxRows :: int
  cfBatchMaxWait :: int
  cfWriteQueueSize :: int
  cfWriteWorkers :: int
  cfEnqueueTimeout :: int
  cfShutdownDrainTimeout :: int
  cfCheckpointEvery :: int

definition Open :: "(Config \<Rightarrow> string option) \<Rightarrow> Config \<Rightarrow> string + 'c CHWriter" where
  "Open dial cfg =
     (case dial cfg of
        Some e \<Rightarrow> Inl e
      | None \<Rightarrow>
          let w = NewCHWriter (cfWriteQueueSize cfg) (cfWriteWorkers cfg) (cfBatchMaxRows cfg) (cfReadTimeout cfg) 0
                    (cfShutdownDrainTimeout cfg) (cfBatchMaxWait cfg) (cfEnqueueTimeout cfg);
              w = w\<lparr>cwDatabase := cfDatabase cfg, cwAutoCreate := cfAutoCreateSchema cfg\<rparr>
          in Inr (if cfCheckpointEvery cfg \<ge> 0 then w\<lparr>cwCheckpointEvery := cfCheckpointEvery cfg\<rparr> else w))"

definition CheckpointEvery :: "'c CHWriter \<Rightarrow> int" where
  "CheckpointEvery w = cwCheckpointEvery w"

definition showBool :: "bool \<Rightarrow> string" where
  "showBool b = (if b then ''true'' else ''false'')"

definition fingerprintInput :: "Config \<Rightarrow> string" where
  "fingerprintInput c =
     ''addr='' @ Quote (cfAddr c) @ '' db='' @ Quote (cfDatabase c) @ '' user='' @ Quote (cfUsername c) @
     '' pass='' @ Quote (cfPassword c) @ '' dial='' @ Quote (Duration_String (cfDialTimeout c)) @
     '' read='' @ Quote (Duration_String (cfReadTimeout c)) @ '' autocreate='' @ showBool (cfAutoCreateSchema c) @ '' '' @
     ''batchrows='' @ showInt (cfBatchMaxRows c) @ '' batchwait='' @ Quote (Duration_String (cfBatchMaxWait c)) @
     '' queue='' @ showInt (cfWriteQueueSize c) @ '' workers='' @ showInt (cfWriteWorkers c) @
     '' enqueue='' @ Quote (Duration_String (cfEnqueueTimeout c)) @
     '' drain='' @ Quote (Duration_String (cfShutdownDrainTimeout c)) @ '' checkpoint='' @ showInt (cfCheckpointEvery c)"

definition Fingerprint :: "Config \<Rightarrow> string" where
  "Fingerprint c = sha256Hex (fingerprintInput c)"

section \<open>Rows fit the schema\<close>

text \<open>What an INSERT names: its table, its columns, and how many values it takes; and which values the
  driver binds to a column of a type.\<close>

definition intoTable :: "string \<Rightarrow> string" where
  "intoTable q = takeWhile (\<lambda>c. c \<noteq> CHR '' '') (drop (length ''INSERT INTO '') (TrimSpace q))"

definition columnsOf :: "string \<Rightarrow> string list" where
  "columnsOf q = map TrimSpace (split_on (CHR '','') (takeWhile (\<lambda>c. c \<noteq> CHR '')'') (tl (dropWhile (\<lambda>c. c \<noteq> CHR ''('') q))))"

definition placeholders :: "string \<Rightarrow> nat" where
  "placeholders q = length (filter (\<lambda>c. c = CHR ''?'') q)"

definition binds :: "string \<Rightarrow> chValue \<Rightarrow> bool" where
  "binds t v =
     (case v of
        VTime _ \<Rightarrow> t = ''DateTime64(9, 'UTC')''
      | VString _ \<Rightarrow> t \<in> {''String'', ''LowCardinality(String)''}
      | VMap _ \<Rightarrow> t = ''Map(LowCardinality(String), String)''
      | VArray _ \<Rightarrow> t = ''Array(LowCardinality(String))'')"

lemma placeholders_append [simp]: "placeholders (a @ b) = placeholders a + placeholders b"
  by (simp add: placeholders_def)

lemma required_columns [simp]:
  "map scName (requiredFor tableResourceStates) =
     [''ts'', ''cluster_id'', ''event_type'', ''api_group'', ''api_version'', ''kind'', ''namespace'', ''name'', ''uid'',
      ''resource_version'', ''labels'', ''actors'', ''data'', ''diff'', ''sha256'']"
  "map scName (requiredFor tableWatchScopes) =
     [''ts'', ''cluster_id'', ''api_group'', ''api_version'', ''kind'', ''namespace'', ''action'', ''rule_ref'']"
  by (simp_all add: requiredFor_def requiredColumns_def tableResourceStates_def tableWatchScopes_def col_def)

lemma required_types [simp]:
  "map scType (requiredFor tableResourceStates) =
     [''DateTime64(9, 'UTC')'', ''LowCardinality(String)'', ''LowCardinality(String)'', ''LowCardinality(String)'',
      ''LowCardinality(String)'', ''LowCardinality(String)'', ''String'', ''String'', ''String'', ''String'',
      ''Map(LowCardinality(String), String)'', ''Array(LowCardinality(String))'', ''String'', ''String'', ''String'']"
  "map scType (requiredFor tableWatchScopes) =
     [''DateTime64(9, 'UTC')'', ''LowCardinality(String)'', ''LowCardinality(String)'', ''LowCardinality(String)'',
      ''LowCardinality(String)'', ''String'', ''LowCardinality(String)'', ''String'']"
  by (simp_all add: requiredFor_def requiredColumns_def tableResourceStates_def tableWatchScopes_def col_def)

lemma insert_columns:
  "columnsOf insertResourceStateQuery = map scName (requiredFor tableResourceStates)"
  "columnsOf insertScopeEventQuery = map scName (requiredFor tableWatchScopes)"
  by code_simp+

lemma insert_tables:
  "intoTable insertResourceStateQuery = tableResourceStates" "intoTable insertScopeEventQuery = tableWatchScopes"
  by code_simp+

lemma insert_placeholders: "placeholders insertResourceStateQuery = 15" "placeholders insertScopeEventQuery = 8"
  by code_simp+

lemma insert_values:
  "list_all2 binds (map scType (requiredFor tableResourceStates)) (insertArgs r)"
  "list_all2 binds (map scType (requiredFor tableWatchScopes)) (scopeInsertArgs e)"
  by (simp_all add: insertArgs_def scopeInsertArgs_def binds_def)


section \<open>The schema verdict\<close>

definition delivered :: "'r reply \<Rightarrow> 'r list \<Rightarrow> bool" where
  "delivered reply rows \<longleftrightarrow> (\<exists>s. reply = Inr s \<and> rsErr s = None \<and> rsRows s = map Inr rows)"

text \<open>The type reported last for a column.\<close>

definition reported :: "(string \<times> string \<times> string) list \<Rightarrow> string \<Rightarrow> string \<Rightarrow> string option" where
  "reported rows table name = map_of (rev (map (\<lambda>(t, n, ty). ((t, n), ty)) rows)) (table, name)"

definition conforms :: "(string \<times> string \<times> string) list \<Rightarrow> bool" where
  "conforms rows \<longleftrightarrow>
     (\<forall>table \<in> {tableResourceStates, tableWatchScopes}. \<forall>c \<in> set (requiredFor table).
        reported rows table (scName c) = Some (scType c))"

lemma scanRows_all: "scanRows (map Inr rs) None = Inr rs"
  by (induction rs) simp_all

lemma scanRows_only: "scanRows rows err = Inr rs \<Longrightarrow> err = None \<and> rows = map Inr rs"
  by (induction rows err arbitrary: rs rule: scanRows.induct) (fastforce split: option.splits sum.splits)+

lemma scanRows_Inr: "scanRows rows err = Inr rs \<longleftrightarrow> err = None \<and> rows = map Inr rs"
  using scanRows_all scanRows_only by blast

lemma readAll_Inr: "readAll reply = Inr rows \<longleftrightarrow> delivered reply rows"
  by (auto simp: readAll_def delivered_def scanRows_Inr split: sum.splits)

lemma delivered_unique: "delivered reply rows \<Longrightarrow> delivered reply rows' \<Longrightarrow> rows = rows'"
  using readAll_Inr [of reply rows] readAll_Inr [of reply rows'] by simp

lemma observed_column:
  "(case mget (fold observeColumn rows []) table of None \<Rightarrow> None | Some cols \<Rightarrow> mget cols name) = reported rows table name"
  by (induction rows rule: rev_induct)
    (auto simp: reported_def observeColumn_def split: option.splits if_splits)

lemma required_nonempty: "table \<in> {tableResourceStates, tableWatchScopes} \<Longrightarrow> requiredFor table \<noteq> []"
  by (auto simp: requiredFor_def requiredColumns_def tableResourceStates_def tableWatchScopes_def)

lemma column_agrees: "columnDiscrepancy table cols c = [] \<longleftrightarrow> mget cols (scName c) = Some (scType c)"
  by (auto simp: columnDiscrepancy_def split: option.splits)

lemma no_discrepancy:
  assumes "table \<in> {tableResourceStates, tableWatchScopes}"
  shows "tableDiscrepancies (fold observeColumn rows []) table = [] \<longleftrightarrow>
         (\<forall>c \<in> set (requiredFor table). reported rows table (scName c) = Some (scType c))"
proof (cases "mget (fold observeColumn rows []) table")
  case None
  then show ?thesis
    using required_nonempty [OF assms] observed_column [where rows = rows and table = table]
    by (cases "requiredFor table") (auto simp: tableDiscrepancies_def)
next
  case (Some cols)
  then have "reported rows table n = mget cols n" for n
    using observed_column [where rows = rows and table = table and name = n] by simp
  then show ?thesis using Some
    by (auto simp: tableDiscrepancies_def column_agrees)
qed

lemma validate_delivered:
  "delivered reply rows \<Longrightarrow>
   validateSchema reply =
     (if conforms rows then None
      else Some (schemaMismatchError
        (concat (map (tableDiscrepancies (fold observeColumn rows [])) [tableResourceStates, tableWatchScopes]))))"
  using no_discrepancy [of tableResourceStates rows] no_discrepancy [of tableWatchScopes rows]
  by (simp add: validateSchema_def introspectColumns_def readAll_Inr [symmetric] conforms_def)

lemma validate_undelivered: "(\<nexists>rows. delivered reply rows) \<Longrightarrow> \<exists>e. validateSchema reply = Some (ReadFailed e)"
  using readAll_Inr [of reply] by (cases "readAll reply") (auto simp: validateSchema_def introspectColumns_def)

lemma probe_verdict:
  "fst (Probe ping columns w) =
     (if cwClosing w then Some (ProbeFailed ''chwriter: shutting down, refusing health probe'')
      else case ping of
        Some e \<Rightarrow> Some (ProbeFailed (''ping clickhouse: '' @ e))
      | None \<Rightarrow>
          (case validateSchema columns of
             None \<Rightarrow> None
           | Some (schemaMismatchError ds) \<Rightarrow> Some (SchemaMismatch (ErrSchemaInvalid @ '': '' @ mismatch_Error ds))
           | Some (ReadFailed e) \<Rightarrow> Some (ProbeFailed e)))"
  by (simp add: Probe_def readBegin_def)

lemmas probe_reasons = probe_def ProbeReasonSchemaInvalid_def ProbeReasonUnreachable_def


lemma delivered_answer:
  "delivered (Inr \<lparr>rsRows = map Inr rows, rsErr = err\<rparr>) rows' \<longleftrightarrow> err = None \<and> rows' = rows"
  by (auto simp: delivered_def inj_map_eq_map)

definition sampleColumns :: "(string \<times> string \<times> string) list" where
  "sampleColumns = concat (map (\<lambda>(t, cs). map (\<lambda>c. (t, scName c, scType c)) cs) requiredColumns)"

lemma sampleColumns_conform:
  "conforms (sampleColumns @ [(''resource_states'', ''extra'', ''UInt8'')])"
  "\<not> conforms (sampleColumns @ [(''watch_scopes'', ''action'', ''String'')])"
  by code_simp+


section \<open>Complete reads\<close>

lemma reader_leaves:
  assumes "writer_reach w"
  shows "cwClosing w \<or> readEnd (readUse (snd (readBegin w))) = w"
proof (cases "cwClosing w")
  case False
  moreover have "cwConnOpen w"
    using writer_invD(1) [OF writer_reach_inv [OF assms]] False unfolding control_ok_def by metis
  ultimately show ?thesis by (simp add: readBegin_def readUse_def readEnd_def useConn_def)
qed simp

lemma Open_reach:
  assumes "Open dial cfg = Inr w"
  shows "writer_reach w"
proof -
  define w0 :: "'a CHWriter" where
    "w0 = NewCHWriter (cfWriteQueueSize cfg) (cfWriteWorkers cfg) (cfBatchMaxRows cfg) (cfReadTimeout cfg) 0
      (cfShutdownDrainTimeout cfg) (cfBatchMaxWait cfg) (cfEnqueueTimeout cfg)"
  obtain every where "w = w0\<lparr>cwDatabase := cfDatabase cfg, cwAutoCreate := cfAutoCreateSchema cfg, cwCheckpointEvery := every\<rparr>"
  proof (cases "cfCheckpointEvery cfg \<ge> 0")
    case True
    then have "w = w0\<lparr>cwDatabase := cfDatabase cfg, cwAutoCreate := cfAutoCreateSchema cfg, cwCheckpointEvery := cfCheckpointEvery cfg\<rparr>"
      using assms by (cases "dial cfg") (simp_all add: Open_def Let_def w0_def)
    then show ?thesis by (rule that)
  next
    case False
    then have "w = w0\<lparr>cwDatabase := cfDatabase cfg, cwAutoCreate := cfAutoCreateSchema cfg\<rparr>"
      using assms by (cases "dial cfg") (simp_all add: Open_def Let_def w0_def)
    also have "\<dots> = w0\<lparr>cwDatabase := cfDatabase cfg, cwAutoCreate := cfAutoCreateSchema cfg, cwCheckpointEvery := cwCheckpointEvery w0\<rparr>"
      by (cases w0) simp
    finally show ?thesis by (rule that)
  qed
  then show ?thesis unfolding w0_def by (simp only: writer_new)
qed


definition replyWith :: "'r list \<Rightarrow> string option \<Rightarrow> string \<Rightarrow> chValue list \<Rightarrow> string + 'r rowStream" where
  "replyWith rows err q args = Inr \<lparr>rsRows = map Inr rows, rsErr = err\<rparr>"


section \<open>Creating the schema ends\<close>

lemma autoCreateSchemaWithRetry_returns:
  assumes "fst (autoCreateSchema (env n)) = None \<or> cancelled n" "m \<le> n"
  shows "\<exists>r. autoCreateSchemaWithRetry env cancelled m stmts = Some r"
  using assms(2)
proof (induction "n - m" arbitrary: m stmts)
  case 0
  then have "m = n" by simp
  then show ?case using assms(1) by (subst autoCreateSchemaWithRetry.simps) (auto split: prod.splits option.splits)
next
  case (Suc k)
  then have "\<exists>r. autoCreateSchemaWithRetry env cancelled (Suc m) stmts' = Some r" for stmts' by simp
  then show ?case by (subst autoCreateSchemaWithRetry.simps) (auto split: prod.splits option.splits)
qed

section \<open>Fingerprints tell configurations apart\<close>

interpretation boolean: delimited showBool "\<lambda>_. True"
  by unfold_locales (auto simp: showBool_def split: if_splits)

lemma fingerprintInput_inj: "fingerprintInput c = fingerprintInput c' \<longleftrightarrow> c = c'"
  by (cases c; cases c')
     (auto simp: fingerprintInput_def quoted.one_reading boolean.one_reading integer.one_reading integer.alone)

definition sha_collision :: "string \<Rightarrow> string \<Rightarrow> bool" where
  "sha_collision x y \<longleftrightarrow> x \<noteq> y \<and> sha256Hex x = sha256Hex y"

text \<open>C23. The fingerprint covers every setting: two configurations are rendered alike before hashing iff
  they agree in all fourteen fields -- no pair of neighbouring values can be cut differently.  So a
  declaration that repeats the running configuration leaves the sink alone, and one that changes anything,
  a rotated password included, starts an instance of the new configuration, routes the name to it and
  drains the old one -- or exhibits a collision of SHA-256.\<close>

theorem fingerprint_separates:
  assumes "mget (smLive m) name = Some a" "lsFingerprint (smInstances m ! a) = Fingerprint c"
    and "mgFingerprint env = Fingerprint" "mgFactory env name c' = Inr writer"
  shows "(fingerprintInput c = fingerprintInput c' \<longleftrightarrow> c = c') \<and>
    (if c = c' then ensureLocked env name c' m = (None, m)
     else sha_collision (fingerprintInput c) (fingerprintInput c') \<or>
       (\<exists>m'. ensureLocked env name c' m = (None, m') \<and> smTails m' = smTails m @ [DrainStart a None] \<and>
          mget (smLive m') name = Some (length (smInstances m)) \<and>
          lsFingerprint (smInstances m' ! length (smInstances m)) = Fingerprint c'))"
proof -
  note inj = fingerprintInput_inj [of c c']
  have same: "ensureLocked env name c' m = (None, m)" if "c = c'"
    by (rule ensureLocked_same [OF assms(1)]) (simp add: assms(2,3) that)
  have moved: "\<exists>m'. ensureLocked env name c' m = (None, m') \<and> smTails m' = smTails m @ [DrainStart a None] \<and>
          mget (smLive m') name = Some (length (smInstances m)) \<and>
          lsFingerprint (smInstances m' ! length (smInstances m)) = Fingerprint c'"
    if "Fingerprint c \<noteq> Fingerprint c'"
    using that assms by (simp add: ensureLocked_def startInstance_def swapLocked_def spawn_def newLiveSink_def Let_def)
  show ?thesis
  proof (cases "c = c'")
    case False
    then have "sha_collision (fingerprintInput c) (fingerprintInput c') \<or> Fingerprint c \<noteq> Fingerprint c'"
      using inj by (auto simp: sha_collision_def Fingerprint_def)
    with False moved inj show ?thesis by presburger
  qed (use same inj in simp)
qed

definition sampleConfig :: "string \<Rightarrow> Config" where
  "sampleConfig password =
     \<lparr>cfAddr = ''ch:9000'', cfDatabase = ''kube'', cfUsername = ''w'', cfPassword = password, cfDialTimeout = 5, cfReadTimeout = 10,
      cfAutoCreateSchema = True, cfBatchMaxRows = 100, cfBatchMaxWait = 1, cfWriteQueueSize = 10, cfWriteWorkers = 2,
      cfEnqueueTimeout = 1, cfShutdownDrainTimeout = 5, cfCheckpointEvery = 10\<rparr>"

definition fingerprintEnv :: "Config managerEnv" where
  "fingerprintEnv =
     \<lparr>mgFactory = (\<lambda>name cfg. Inr sampleBackend),
      mgFingerprint = Fingerprint, mgWarm = True, mgDependents = None, mgPark = False\<rparr>"

theorem fingerprint_separates_witness:
  "\<exists>m. smLive m = [(''s'', 0)] \<and> ensureLocked fingerprintEnv ''s'' (sampleConfig ''p1'') m = (None, m) \<and>
     (sha_collision (fingerprintInput (sampleConfig ''p1'')) (fingerprintInput (sampleConfig ''p2'')) \<or>
      (\<exists>m'. ensureLocked fingerprintEnv ''s'' (sampleConfig ''p2'') m = (None, m') \<and> smTails m' = [DrainStart 0 None] \<and>
         mget (smLive m') ''s'' = Some 1))"
proof -
  define m :: "Config SinkManager" where
    "m = \<lparr>smLive = [(''s'', 0)], smInstances = [newLiveSink ''s'' (Fingerprint (sampleConfig ''p1''))
            sampleBackend],
          smRunning = True, smPending = [], smStopped = False, smTails = [], smCalls = []\<rparr>"
  have live: "mget (smLive m) ''s'' = Some 0" "lsFingerprint (smInstances m ! 0) = Fingerprint (sampleConfig ''p1'')"
    "mgFingerprint fingerprintEnv = Fingerprint"
    "mgFactory fingerprintEnv ''s'' cfg = Inr sampleBackend" for cfg
    by (simp_all add: m_def newLiveSink_def fingerprintEnv_def)
  have "sampleConfig ''p1'' \<noteq> sampleConfig ''p2''" by (simp add: sampleConfig_def)
  moreover have "smLive m = [(''s'', 0)]" "smTails m = []" "length (smInstances m) = 1" by (simp_all add: m_def)
  ultimately show ?thesis
    using fingerprint_separates [OF live(1-3) live(4) [of "sampleConfig ''p1''"]]
      fingerprint_separates [OF live(1-3) live(4) [of "sampleConfig ''p2''"]] by auto
qed

end
