(* ===== verification/Conditions.thy ===== *)
theory Conditions
imports Json
begin

text \<open>
  What the reconcilers share (internal/controller/conditions.go, metrics.go, the condition types of
  api/v1alpha1/shared_types.go): status conditions and the writer that accumulates them, the roll-up
  into Ready, events on a changed verdict, the registry's rule keys, and the gauge that counts rules by
  condition.  The condition helpers of apimachinery are a parameter, \<open>condAPI\<close>, of which the code relies
  on a lookup returning what was set last for its type; the time of a condition's last transition is
  theirs and not modelled.
\<close>

section \<open>Conditions\<close>

type_synonym ConditionStatus = string

definition ConditionTrue :: ConditionStatus where "ConditionTrue = ''True''"
definition ConditionFalse :: ConditionStatus where "ConditionFalse = ''False''"
definition ConditionUnknown :: ConditionStatus where "ConditionUnknown = ''Unknown''"

record Condition =
  coType :: string
  coStatus :: ConditionStatus
  coReason :: string
  coMessage :: string
  coObservedGeneration :: int

definition ConditionReady :: string where "ConditionReady = ''Ready''"
definition ConditionSchemaValid :: string where "ConditionSchemaValid = ''SchemaValid''"
definition ConditionCredentialsResolved :: string where "ConditionCredentialsResolved = ''CredentialsResolved''"
definition ConditionRBACGranted :: string where "ConditionRBACGranted = ''RBACGranted''"
definition ConditionPolicyAllowed :: string where "ConditionPolicyAllowed = ''PolicyAllowed''"
definition ConditionResourceResolved :: string where "ConditionResourceResolved = ''ResourceResolved''"

definition ReasonSecretResolved :: string where "ReasonSecretResolved = ''SecretResolved''"
definition ReasonSecretNotFound :: string where "ReasonSecretNotFound = ''SecretNotFound''"
definition ReasonSecretKeyMissing :: string where "ReasonSecretKeyMissing = ''SecretKeyMissing''"
definition ReasonSchemaMatches :: string where "ReasonSchemaMatches = ''SchemaMatches''"
definition ReasonProbePending :: string where "ReasonProbePending = ''ProbePending''"
definition ReasonConnected :: string where "ReasonConnected = ''Connected''"
definition ReasonCredentialsUnavailable :: string where "ReasonCredentialsUnavailable = ''CredentialsUnavailable''"
definition ReasonSecretsDenied :: string where "ReasonSecretsDenied = ''SecretsDenied''"
definition ReasonNotInAllowList :: string where "ReasonNotInAllowList = ''NotInAllowList''"
definition ReasonAllResourcesPermitted :: string where "ReasonAllResourcesPermitted = ''AllResourcesPermitted''"
definition ReasonAllVerbsGranted :: string where "ReasonAllVerbsGranted = ''AllVerbsGranted''"
definition ReasonMissingPermissions :: string where "ReasonMissingPermissions = ''MissingPermissions''"
definition ReasonAccessReviewFailed :: string where "ReasonAccessReviewFailed = ''AccessReviewFailed''"
definition ReasonAllKindsResolved :: string where "ReasonAllKindsResolved = ''AllKindsResolved''"
definition ReasonInvalidSelector :: string where "ReasonInvalidSelector = ''InvalidSelector''"
definition ReasonNamespaceSelectorInvalid :: string where "ReasonNamespaceSelectorInvalid = ''NamespaceSelectorInvalid''"
definition ReasonNamespacesUnavailable :: string where "ReasonNamespacesUnavailable = ''NamespacesUnavailable''"
definition ReasonSinkMissing :: string where "ReasonSinkMissing = ''SinkMissing''"
definition ReasonSinkNotReady :: string where "ReasonSinkNotReady = ''SinkNotReady''"
definition ReasonKindsUnresolved :: string where "ReasonKindsUnresolved = ''KindsUnresolved''"
definition ReasonNotEvaluated :: string where "ReasonNotEvaluated = ''NotEvaluated''"
definition ReasonStreaming :: string where "ReasonStreaming = ''Streaming''"
definition EventReasonDegraded :: string where "EventReasonDegraded = ''Degraded''"
definition EventReasonReady :: string where "EventReasonReady = ''Ready''"

lemmas status_values = ConditionTrue_def ConditionFalse_def ConditionUnknown_def

lemma statuses_distinct [simp]:
  "ConditionTrue \<noteq> ConditionFalse" "ConditionTrue \<noteq> ConditionUnknown" "ConditionFalse \<noteq> ConditionTrue"
  "ConditionFalse \<noteq> ConditionUnknown" "ConditionUnknown \<noteq> ConditionTrue" "ConditionUnknown \<noteq> ConditionFalse"
  by (simp_all add: status_values)

text \<open>\<open>SetStatusCondition\<close> and \<open>FindStatusCondition\<close>.\<close>

record condAPI =
  caSet :: "Condition \<Rightarrow> Condition list \<Rightarrow> Condition list"
  caFind :: "Condition list \<Rightarrow> string \<Rightarrow> Condition option"

definition cond_api_ok :: "condAPI \<Rightarrow> bool" where
  "cond_api_ok api \<longleftrightarrow>
     (\<forall>cs t. caFind api cs t = List.find (\<lambda>c. coType c = t) cs) \<and>
     (\<forall>c cs t. caFind api (caSet api c cs) t = (if t = coType c then Some c else caFind api cs t)) \<and>
     (\<forall>c cs. distinct (map coType cs) \<longrightarrow> distinct (map coType (caSet api c cs)))"

section \<open>The status writer\<close>

definition condition :: "string \<Rightarrow> ConditionStatus \<Rightarrow> string \<Rightarrow> string \<Rightarrow> int \<Rightarrow> Condition" where
  "condition condType status reason message generation =
     \<lparr>coType = condType, coStatus = status, coReason = reason, coMessage = message, coObservedGeneration = generation\<rparr>"

record statusWriter =
  swConditions :: "Condition list"
  swGeneration :: int

definition setStatus :: "condAPI \<Rightarrow> string \<Rightarrow> ConditionStatus \<Rightarrow> string \<Rightarrow> string \<Rightarrow> statusWriter \<Rightarrow> statusWriter" where
  "setStatus api condType status reason message w =
     w\<lparr>swConditions := caSet api (condition condType status reason message (swGeneration w)) (swConditions w)\<rparr>"

definition applyStatus :: "condAPI \<Rightarrow> statusWriter \<Rightarrow> Condition list \<Rightarrow> Condition list" where
  "applyStatus api w existing = fold (caSet api) (swConditions w) existing"

text \<open>One attempt of a status update: the object read back, or the error of the read; and how the write
  of the changed object ends.  \<open>RetryOnConflict\<close> repeats while the write conflicts and gives up with the
  last conflict; the attempts it makes are given.\<close>

datatype updateEnd = Updated | Conflict | UpdateRefused string

datatype 's updateAttempt = GetFails string | Attempt 's updateEnd

fun updateStatus :: "'s updateAttempt list \<Rightarrow> ('s \<Rightarrow> 's) \<Rightarrow> string + 's" where
  "updateStatus [] mutate = Inl ''conflict''"
| "updateStatus (GetFails e # more_attempts) mutate = Inl e"
| "updateStatus (Attempt fresh Updated # more_attempts) mutate = Inr (mutate fresh)"
| "updateStatus (Attempt fresh (UpdateRefused e) # more_attempts) mutate = Inl e"
| "updateStatus (Attempt fresh Conflict # more_attempts) mutate = updateStatus more_attempts mutate"

definition readyFor ::
    "condAPI \<Rightarrow> string \<Rightarrow> statusWriter \<Rightarrow> string \<Rightarrow> string list \<Rightarrow> string \<Rightarrow> string \<Rightarrow> Condition" where
  "readyFor api unreachable status readyType order trueReason trueMessage =
     (case List.find (\<lambda>t. case caFind api (swConditions status) t of None \<Rightarrow> False | Some c \<Rightarrow> coStatus c \<noteq> ConditionTrue) order of
        None \<Rightarrow> condition readyType ConditionTrue trueReason trueMessage (swGeneration status)
      | Some t \<Rightarrow>
          let c = the (caFind api (swConditions status) t);
              readyStatus = (if coStatus c = ConditionUnknown \<and> coReason c = unreachable then ConditionFalse else coStatus c)
          in condition readyType readyStatus (coReason c) (coMessage c) (swGeneration status))"

datatype kubeEvent = KubeEvent string string string

definition emitReadyEvent :: "bool \<Rightarrow> Condition option \<Rightarrow> Condition \<Rightarrow> kubeEvent list" where
  "emitReadyEvent hasRecorder previous ready =
     (if \<not> hasRecorder then []
      else if (case previous of None \<Rightarrow> False | Some p \<Rightarrow> coStatus p = coStatus ready \<and> coReason p = coReason ready) then []
      else if coStatus ready = ConditionTrue then [KubeEvent ''Normal'' EventReasonReady (coMessage ready)]
      else if coStatus ready = ConditionFalse
        then [KubeEvent ''Warning'' EventReasonDegraded (coReason ready @ '': '' @ coMessage ready)]
      else [])"

definition maxConditionMessage :: nat where "maxConditionMessage = 4096"

definition truncationSuffix :: string where
  "truncationSuffix = '' ['' @ [CHR 0xE2, CHR 0x80, CHR 0xA6] @ ''truncated]''"

definition truncateMessage :: "string \<Rightarrow> string" where
  "truncateMessage message =
     (if length message \<le> maxConditionMessage then message
      else take (maxConditionMessage - length truncationSuffix) message @ truncationSuffix)"

definition setGateCondition ::
    "condAPI \<Rightarrow> string \<Rightarrow> string list \<Rightarrow> string \<Rightarrow> string \<Rightarrow> string \<Rightarrow> statusWriter \<Rightarrow> statusWriter" where
  "setGateCondition api condType failures trueReason trueMessage falseReason status =
     (if failures = [] then setStatus api condType ConditionTrue trueReason trueMessage status
      else setStatus api condType ConditionFalse falseReason (truncateMessage (join ''; '' failures)) status)"

section \<open>Rule keys\<close>

definition kindStreamRule :: string where "kindStreamRule = ''streamrule''"
definition kindClusterStreamRule :: string where "kindClusterStreamRule = ''clusterstreamrule''"

definition RuleKey :: "string \<Rightarrow> string \<Rightarrow> string \<Rightarrow> string" where
  "RuleKey kind namespace name = kind @ ''/'' @ namespace @ ''/'' @ name"

definition parseRuleKey :: "string \<Rightarrow> (string \<times> string \<times> string) option" where
  "parseRuleKey key =
     (case split_on (CHR ''/'') key of
        [kind, namespace, name] \<Rightarrow>
          if kind = '''' \<or> name = '''' then None
          else if kind = kindStreamRule \<or> kind = kindClusterStreamRule then Some (kind, namespace, name)
          else None
      | _ \<Rightarrow> None)"

section \<open>The gauge of rules\<close>

definition conditionStatuses :: "string list" where
  "conditionStatuses = [''true'', ''false'', ''unknown'']"

record RuleMetrics =
  rmObserved :: "(string, (string, ConditionStatus) gomap) gomap"
  rmPublished :: "string list"
  rmRules :: "(string \<times> string, nat) gomap"

text \<open>\<open>strings.ToLower\<close> on ASCII.\<close>

definition toLower :: "string \<Rightarrow> string" where
  "toLower = map (\<lambda>c. let n = (of_char c :: nat) in if 65 \<le> n \<and> n \<le> 90 then char_of (n + 32) else c)"

definition statusLabel :: "ConditionStatus \<Rightarrow> string" where
  "statusLabel status = (let lowered = toLower status in if lowered \<in> set conditionStatuses then lowered else ''unknown'')"

definition setGauge :: "string \<Rightarrow> string \<Rightarrow> nat \<Rightarrow> RuleMetrics \<Rightarrow> RuleMetrics" where
  "setGauge condType status n m = m\<lparr>rmRules := mput (condType, status) n (rmRules m)\<rparr>"

definition publishType :: "string \<Rightarrow> RuleMetrics \<Rightarrow> RuleMetrics" where
  "publishType condType m =
     (if condType \<in> set (rmPublished m) then m
      else fold (\<lambda>status. setGauge condType status 0) conditionStatuses (m\<lparr>rmPublished := rmPublished m @ [condType]\<rparr>))"

type_synonym counts = "(string, (string, nat) gomap) gomap"

definition countStatus :: "string \<times> ConditionStatus \<Rightarrow> counts \<times> RuleMetrics \<Rightarrow> counts \<times> RuleMetrics" where
  "countStatus tc acc =
     (case (tc, acc) of ((condType, status), (counts, m)) \<Rightarrow>
        let (byStatus, m) = (case mget counts condType of Some b \<Rightarrow> (b, m) | None \<Rightarrow> ([], publishType condType m));
            label = statusLabel status;
            n = (case mget byStatus label of None \<Rightarrow> 0 | Some n \<Rightarrow> n)
        in (mput condType (mput label (n + 1) byStatus) counts, m))"

definition publishCounts :: "string \<times> (string, nat) gomap \<Rightarrow> RuleMetrics \<Rightarrow> RuleMetrics" where
  "publishCounts tb m =
     (case tb of (condType, byStatus) \<Rightarrow>
        fold (\<lambda>status. setGauge condType status (case mget byStatus status of None \<Rightarrow> 0 | Some n \<Rightarrow> n)) conditionStatuses m)"

definition recount :: "RuleMetrics \<Rightarrow> RuleMetrics" where
  "recount m =
     (let (counts, m) = fold (\<lambda>(rule, conds). fold countStatus conds) (rmObserved m) (map (\<lambda>t. (t, [])) (rmPublished m), m)
      in fold publishCounts counts m)"

definition NewRuleMetrics :: RuleMetrics where
  "NewRuleMetrics = publishType ConditionReady \<lparr>rmObserved = [], rmPublished = [], rmRules = []\<rparr>"

definition Observe :: "string \<Rightarrow> Condition list \<Rightarrow> RuleMetrics \<Rightarrow> RuleMetrics" where
  "Observe ruleKey conds m =
     (let current = fold (\<lambda>c. mput (coType c) (coStatus c)) conds [];
          m = m\<lparr>rmObserved := mput ruleKey current (rmObserved m)\<rparr>
      in recount (fold publishType (mkeys current) m))"

definition Forget :: "string \<Rightarrow> RuleMetrics \<Rightarrow> RuleMetrics" where
  "Forget ruleKey m =
     (if mget (rmObserved m) ruleKey = None then m
      else recount (m\<lparr>rmObserved := mdel ruleKey (rmObserved m)\<rparr>))"

section \<open>Reading conditions back\<close>

lemma cond_api_find: "cond_api_ok api \<Longrightarrow> caFind api cs t = List.find (\<lambda>c. coType c = t) cs"
  by (simp add: cond_api_ok_def)

lemma cond_api_set: "cond_api_ok api \<Longrightarrow> caFind api (caSet api c cs) t = (if t = coType c then Some c else caFind api cs t)"
  unfolding cond_api_ok_def by blast

lemma cond_api_empty [simp]: "cond_api_ok api \<Longrightarrow> caFind api [] t = None"
  by (simp add: cond_api_find)

definition writer_ok :: "statusWriter \<Rightarrow> bool" where
  "writer_ok w \<longleftrightarrow> distinct (map coType (swConditions w))"

lemma setStatus_sel [simp]: "swGeneration (setStatus api t st r m w) = swGeneration w"
  by (simp add: setStatus_def)

lemma setStatus_ok [simp]: "cond_api_ok api \<Longrightarrow> writer_ok w \<Longrightarrow> writer_ok (setStatus api t st r m w)"
  by (simp add: cond_api_ok_def writer_ok_def setStatus_def)

lemma find_setStatus [simp]:
  "cond_api_ok api \<Longrightarrow> caFind api (swConditions (setStatus api t st r m w)) t' =
     (if t' = t then Some (condition t st r m (swGeneration w)) else caFind api (swConditions w) t')"
  by (simp add: setStatus_def cond_api_set condition_def)

lemma find_distinct_types:
  "distinct (map coType (c # cs)) \<Longrightarrow> List.find (\<lambda>x. coType x = coType c) cs = None"
  by (simp add: find_None_iff) (metis image_eqI)

lemma find_applied:
  assumes "cond_api_ok api" "distinct (map coType cs)"
  shows "caFind api (fold (caSet api) cs existing) t = (case caFind api cs t of None \<Rightarrow> caFind api existing t | Some c \<Rightarrow> Some c)"
  using assms(2)
proof (induction cs arbitrary: existing)
  case Nil
  then show ?case using assms(1) by simp
next
  case (Cons c cs)
  then have "caFind api (fold (caSet api) cs (caSet api c existing)) t =
      (case caFind api cs t of None \<Rightarrow> caFind api (caSet api c existing) t | Some c \<Rightarrow> Some c)" by simp
  then show ?case
    using find_distinct_types [OF Cons.prems] cond_api_set [OF assms(1)]
    by (auto simp: cond_api_find [OF assms(1), of cs] cond_api_find [OF assms(1), of "c # cs"] split: option.split)
qed

lemma find_applyStatus:
  "cond_api_ok api \<Longrightarrow> writer_ok w \<Longrightarrow>
   caFind api (applyStatus api w existing) t =
     (case caFind api (swConditions w) t of None \<Rightarrow> caFind api existing t | Some c \<Rightarrow> Some c)"
  by (simp add: applyStatus_def writer_ok_def find_applied)

definition settled_true :: "condAPI \<Rightarrow> statusWriter \<Rightarrow> string \<Rightarrow> bool" where
  "settled_true api w t \<longleftrightarrow> (case caFind api (swConditions w) t of None \<Rightarrow> True | Some c \<Rightarrow> coStatus c = ConditionTrue)"

text \<open>The roll-up is True iff no condition it consults was decided otherwise; else it carries the reason and
  the message of the first one that was.\<close>

lemma readyFor_True:
  "coStatus (readyFor api u w rt order reason message) = ConditionTrue \<longleftrightarrow> (\<forall>t \<in> set order. settled_true api w t)"
proof (cases "List.find (\<lambda>t. case caFind api (swConditions w) t of None \<Rightarrow> False | Some c \<Rightarrow> coStatus c \<noteq> ConditionTrue) order")
  case None
  then have "\<forall>t \<in> set order. settled_true api w t"
    by (auto simp: find_None_iff settled_true_def split: option.splits)
  with None show ?thesis by (simp add: readyFor_def condition_def)
next
  case (Some t)
  then have t: "t \<in> set order" "case caFind api (swConditions w) t of None \<Rightarrow> False | Some c \<Rightarrow> coStatus c \<noteq> ConditionTrue"
    by (auto simp: find_Some_iff)
  then have "\<not> settled_true api w t" by (auto simp: settled_true_def split: option.splits)
  moreover have "coStatus (readyFor api u w rt order reason message) \<noteq> ConditionTrue"
    using Some t(2) by (auto simp: readyFor_def condition_def Let_def split: option.splits)
  ultimately show ?thesis using t(1) by blast
qed

lemma truncateMessage_bound: "length (truncateMessage message) \<le> maxConditionMessage"
  by (simp add: truncateMessage_def maxConditionMessage_def truncationSuffix_def)

text \<open>Rule keys round-trip: parsing the key of a rule of either kind gives its kind, namespace and name
  back (names are not empty and, as Kubernetes names, contain no slash), and whatever parses at all is
  the key of what it parses to.\<close>

theorem rule_key_roundtrip:
  "(kind \<in> {kindStreamRule, kindClusterStreamRule} \<and> CHR ''/'' \<notin> set namespace \<and> CHR ''/'' \<notin> set name \<and> name \<noteq> '''' \<longrightarrow>
     parseRuleKey (RuleKey kind namespace name) = Some (kind, namespace, name)) \<and>
   (parseRuleKey key = Some (kind', namespace', name') \<longrightarrow>
     key = RuleKey kind' namespace' name' \<and> kind' \<in> {kindStreamRule, kindClusterStreamRule} \<and> name' \<noteq> '''')"
proof (rule conjI; rule impI)
  assume a: "kind \<in> {kindStreamRule, kindClusterStreamRule} \<and> CHR ''/'' \<notin> set namespace \<and> CHR ''/'' \<notin> set name \<and> name \<noteq> ''''"
  then have k: "CHR ''/'' \<notin> set kind \<and> kind \<noteq> ''''" by (auto simp: kindStreamRule_def kindClusterStreamRule_def)
  then have "split_on (CHR ''/'') (RuleKey kind namespace name) = [kind, namespace, name]"
    using a by (simp add: RuleKey_def split_on_append split_on_no_sep)
  then show "parseRuleKey (RuleKey kind namespace name) = Some (kind, namespace, name)"
    using a k by (auto simp: parseRuleKey_def)
next
  assume p: "parseRuleKey key = Some (kind', namespace', name')"
  then have parts: "split_on (CHR ''/'') key = [kind', namespace', name']"
    and "kind' \<in> {kindStreamRule, kindClusterStreamRule}" "name' \<noteq> ''''"
    by (auto simp: parseRuleKey_def split: list.splits if_splits)
  moreover have "key = RuleKey kind' namespace' name'"
    using join_split_on [of "CHR ''/''" key] unfolding parts by (simp add: RuleKey_def)
  ultimately show "key = RuleKey kind' namespace' name' \<and> kind' \<in> {kindStreamRule, kindClusterStreamRule} \<and> name' \<noteq> ''''" by blast
qed

theorem rule_key_roundtrip_witness:
  "parseRuleKey (RuleKey kindStreamRule ''ns'' ''r'') = Some (kindStreamRule, ''ns'', ''r'') \<and>
   ''clusterstreamrule//all'' = RuleKey ''clusterstreamrule'' '''' ''all''"
proof -
  have "parseRuleKey ''clusterstreamrule//all'' = Some (''clusterstreamrule'', '''', ''all'')" by code_simp
  then show ?thesis
    using rule_key_roundtrip [of kindStreamRule "''ns''" "''r''" "''clusterstreamrule//all''" "''clusterstreamrule''" "''''" "''all''"]
    by simp
qed

section \<open>A condition helper\<close>

text \<open>The helpers of apimachinery as documented: set in place or append, and find by type.\<close>

fun setCond :: "Condition \<Rightarrow> Condition list \<Rightarrow> Condition list" where
  "setCond c [] = [c]"
| "setCond c (x # cs) = (if coType x = coType c then c # cs else x # setCond c cs)"

definition sampleCond :: condAPI where
  "sampleCond = \<lparr>caSet = setCond, caFind = (\<lambda>cs t. List.find (\<lambda>c. coType c = t) cs)\<rparr>"

lemma setCond_find: "List.find (\<lambda>x. coType x = t) (setCond c cs) = (if t = coType c then Some c else List.find (\<lambda>x. coType x = t) cs)"
  by (induction cs) auto

lemma setCond_types: "coType ` set (setCond c cs) = insert (coType c) (coType ` set cs)"
  by (induction cs) auto

lemma setCond_distinct: "distinct (map coType cs) \<Longrightarrow> distinct (map coType (setCond c cs))"
  by (induction cs) (auto simp: setCond_types)

lemma sampleCond_ok: "cond_api_ok sampleCond"
  by (simp add: cond_api_ok_def sampleCond_def setCond_find setCond_distinct)

lemmas type_values = ConditionReady_def ConditionSchemaValid_def ConditionCredentialsResolved_def ConditionRBACGranted_def
  ConditionPolicyAllowed_def ConditionResourceResolved_def

lemma types_neq:
  "ConditionReady \<notin> {ConditionSchemaValid, ConditionCredentialsResolved, ConditionRBACGranted, ConditionPolicyAllowed, ConditionResourceResolved}"
  "ConditionSchemaValid \<notin> {ConditionReady, ConditionCredentialsResolved, ConditionRBACGranted, ConditionPolicyAllowed, ConditionResourceResolved}"
  "ConditionCredentialsResolved \<notin> {ConditionReady, ConditionSchemaValid, ConditionRBACGranted, ConditionPolicyAllowed, ConditionResourceResolved}"
  "ConditionRBACGranted \<notin> {ConditionReady, ConditionSchemaValid, ConditionCredentialsResolved, ConditionPolicyAllowed, ConditionResourceResolved}"
  "ConditionPolicyAllowed \<notin> {ConditionReady, ConditionSchemaValid, ConditionCredentialsResolved, ConditionRBACGranted, ConditionResourceResolved}"
  "ConditionResourceResolved \<notin> {ConditionReady, ConditionSchemaValid, ConditionCredentialsResolved, ConditionRBACGranted, ConditionPolicyAllowed}"
  by (simp_all add: type_values)

lemmas types_apart [simp] = types_neq [simplified]

lemma updateStatus_Inr: "updateStatus attempts mutate = Inr written \<Longrightarrow> \<exists>fresh. written = mutate fresh"
  by (induction attempts mutate rule: updateStatus.induct) auto

lemma condition_sel [simp]:
  "coType (condition t st r m g) = t" "coStatus (condition t st r m g) = st" "coReason (condition t st r m g) = r"
  "coMessage (condition t st r m g) = m"
  by (simp_all add: condition_def)

lemma setGateCondition_find [simp]:
  "cond_api_ok api \<Longrightarrow>
   caFind api (swConditions (setGateCondition api t failures tr tm fr w)) t' =
     (if t' = t then Some (if failures = [] then condition t ConditionTrue tr tm (swGeneration w)
                           else condition t ConditionFalse fr (truncateMessage (join ''; '' failures)) (swGeneration w))
      else caFind api (swConditions w) t')"
  by (simp add: setGateCondition_def)

lemma setGateCondition_ok [simp]: "cond_api_ok api \<Longrightarrow> writer_ok w \<Longrightarrow> writer_ok (setGateCondition api t failures tr tm fr w)"
  by (simp add: setGateCondition_def)

section \<open>The gauge counts the rules\<close>

definition tally :: "(string, (string, ConditionStatus) gomap) gomap \<Rightarrow> string \<Rightarrow> string \<Rightarrow> nat" where
  "tally observed t l =
     length (filter (\<lambda>rc. case mget (snd rc) t of None \<Rightarrow> False | Some st \<Rightarrow> statusLabel st = l) observed)"

definition cget :: "counts \<Rightarrow> string \<Rightarrow> string \<Rightarrow> nat" where
  "cget cs t l = (case mget cs t of None \<Rightarrow> 0 | Some b \<Rightarrow> (case mget b l of None \<Rightarrow> 0 | Some n \<Rightarrow> n))"

lemma countStatus_known:
  assumes "t \<in> set (mkeys cs)"
  obtains cs' where "countStatus (t, st) (cs, m) = (cs', m)" "set (mkeys cs') = set (mkeys cs)" "mwf cs \<Longrightarrow> mwf cs'"
    "\<And>t' l. cget cs' t' l = cget cs t' l + (if t' = t \<and> statusLabel st = l then 1 else 0)"
proof -
  obtain b where b: "mget cs t = Some b" using assms unfolding set_mkeys by blast
  define cs' where "cs' = mput t (mput (statusLabel st) ((case mget b (statusLabel st) of None \<Rightarrow> 0 | Some n \<Rightarrow> n) + 1) b) cs"
  have "countStatus (t, st) (cs, m) = (cs', m)" using b by (simp add: countStatus_def cs'_def Let_def)
  moreover have "set (mkeys cs') = set (mkeys cs)" using assms unfolding cs'_def set_mput by blast
  moreover have "cget cs' t' l = cget cs t' l + (if t' = t \<and> statusLabel st = l then 1 else 0)" for t' l
    using b by (simp add: cget_def cs'_def split: option.split)
  ultimately show ?thesis using that [of cs'] by (simp add: cs'_def)
qed

lemma countStatus_fold:
  "mwf conds \<Longrightarrow> set (mkeys conds) \<subseteq> set (mkeys cs) \<Longrightarrow> mwf cs \<Longrightarrow>
   \<exists>cs'. fold countStatus conds (cs, m) = (cs', m) \<and> set (mkeys cs') = set (mkeys cs) \<and> mwf cs' \<and>
     (\<forall>t l. cget cs' t l = cget cs t l + (case mget conds t of None \<Rightarrow> 0 | Some st \<Rightarrow> if statusLabel st = l then 1 else 0))"
proof (induction conds arbitrary: cs)
  case (Cons c conds)
  obtain t st where c: "c = (t, st)" by (cases c)
  then have "t \<in> set (mkeys cs)" using Cons.prems by auto
  from countStatus_known [OF this, where st = st and m = m] obtain cs1 where
    cs1: "countStatus (t, st) (cs, m) = (cs1, m)" "set (mkeys cs1) = set (mkeys cs)" "mwf cs1"
    "\<And>t' l. cget cs1 t' l = cget cs t' l + (if t' = t \<and> statusLabel st = l then 1 else 0)"
    using Cons.prems(3) by metis
  have "mwf conds" "set (mkeys conds) \<subseteq> set (mkeys cs1)" "mget conds t = None"
    using Cons.prems cs1(2) c by (auto simp: map_of_eq_None_iff)
  from Cons.IH [OF this(1,2) cs1(3)] this(3) show ?case
    unfolding cs1(2) by (auto simp: c cs1(1,4) split: option.split)
qed simp

lemma tally_Cons: "tally (rc # obs) t l = tally obs t l + (case mget (snd rc) t of None \<Rightarrow> 0 | Some st \<Rightarrow> if statusLabel st = l then 1 else 0)"
  by (simp add: tally_def split: option.split)

lemma count_rules_fold:
  "(\<forall>rc \<in> set obs. mwf (snd rc) \<and> set (mkeys (snd rc)) \<subseteq> set (mkeys cs)) \<Longrightarrow> mwf cs \<Longrightarrow>
   \<exists>cs'. fold (\<lambda>(rule, conds). fold countStatus conds) obs (cs, m) = (cs', m) \<and> set (mkeys cs') = set (mkeys cs) \<and> mwf cs' \<and>
     (\<forall>t l. cget cs' t l = cget cs t l + tally obs t l)"
proof (induction obs arbitrary: cs)
  case Nil
  then show ?case by (simp add: tally_def)
next
  case (Cons rc obs)
  obtain cs1 where cs1: "fold countStatus (snd rc) (cs, m) = (cs1, m)" "set (mkeys cs1) = set (mkeys cs)" "mwf cs1"
    "\<forall>t l. cget cs1 t l = cget cs t l + (case mget (snd rc) t of None \<Rightarrow> 0 | Some st \<Rightarrow> if statusLabel st = l then 1 else 0)"
    using countStatus_fold [of "snd rc" cs m] Cons.prems by auto
  have "\<forall>rc \<in> set obs. mwf (snd rc) \<and> set (mkeys (snd rc)) \<subseteq> set (mkeys cs1)" using Cons.prems(1) cs1(2) by simp
  from Cons.IH [OF this cs1(3)] cs1 show ?case by (auto simp: case_prod_unfold tally_Cons)
qed

lemma publishCounts_effect:
  "rmObserved (publishCounts (t, b) m) = rmObserved m" "rmPublished (publishCounts (t, b) m) = rmPublished m"
  "mget (rmRules (publishCounts (t, b) m)) (t', l) =
     (if t' = t \<and> l \<in> set conditionStatuses then Some (case mget b l of None \<Rightarrow> 0 | Some n \<Rightarrow> n) else mget (rmRules m) (t', l))"
  by (auto simp: publishCounts_def conditionStatuses_def setGauge_def)

lemma publish_fold:
  "mwf cs \<Longrightarrow>
   rmObserved (fold publishCounts cs m) = rmObserved m \<and> rmPublished (fold publishCounts cs m) = rmPublished m \<and>
   (\<forall>t \<in> set (mkeys cs). \<forall>l \<in> set conditionStatuses. mget (rmRules (fold publishCounts cs m)) (t, l) = Some (cget cs t l)) \<and>
   (\<forall>t l. t \<notin> set (mkeys cs) \<or> l \<notin> set conditionStatuses \<longrightarrow> mget (rmRules (fold publishCounts cs m)) (t, l) = mget (rmRules m) (t, l))"
proof (induction cs arbitrary: m)
  case (Cons tb cs)
  obtain t b where tb: "tb = (t, b)" by (cases tb)
  have t: "t \<notin> set (mkeys cs)" "mwf cs" using Cons.prems by (auto simp: tb)
  have other: "cget (tb # cs) t' l = cget cs t' l" if "t' \<in> set (mkeys cs)" for t' l
    using that t by (auto simp: cget_def tb)
  have own: "cget (tb # cs) t l = (case mget b l of None \<Rightarrow> 0 | Some n \<Rightarrow> n)" for l by (simp add: cget_def tb)
  show ?case using Cons.IH [OF t(2), of "publishCounts (t, b) m"] t other own
    by (auto simp: tb publishCounts_effect)
qed simp

definition metrics_ok :: "RuleMetrics \<Rightarrow> bool" where
  "metrics_ok m \<longleftrightarrow>
     mwf (rmObserved m) \<and> distinct (rmPublished m) \<and> ConditionReady \<in> set (rmPublished m) \<and>
     (\<forall>rc \<in> set (rmObserved m). mwf (snd rc) \<and> set (mkeys (snd rc)) \<subseteq> set (rmPublished m)) \<and>
     (\<forall>t \<in> set (rmPublished m). \<forall>l \<in> set conditionStatuses. mget (rmRules m) (t, l) = Some (tally (rmObserved m) t l)) \<and>
     (\<forall>t l. t \<notin> set (rmPublished m) \<or> l \<notin> set conditionStatuses \<longrightarrow> mget (rmRules m) (t, l) = None)"

lemma recount_ok:
  assumes "mwf (rmObserved m)" "distinct (rmPublished m)" "ConditionReady \<in> set (rmPublished m)"
    "\<forall>rc \<in> set (rmObserved m). mwf (snd rc) \<and> set (mkeys (snd rc)) \<subseteq> set (rmPublished m)"
    "\<forall>t l. t \<notin> set (rmPublished m) \<or> l \<notin> set conditionStatuses \<longrightarrow> mget (rmRules m) (t, l) = None"
  shows "metrics_ok (recount m) \<and> rmObserved (recount m) = rmObserved m \<and> rmPublished (recount m) = rmPublished m"
proof -
  let ?cs = "map (\<lambda>t. (t, [] :: (string, nat) gomap)) (rmPublished m)"
  have keys: "mkeys ?cs = rmPublished m" by (simp add: comp_def)
  obtain cs' where cs': "fold (\<lambda>(rule, conds). fold countStatus conds) (rmObserved m) (?cs, m) = (cs', m)"
    "set (mkeys cs') = set (rmPublished m)" "mwf cs'" "\<forall>t l. cget cs' t l = cget ?cs t l + tally (rmObserved m) t l"
    using count_rules_fold [of "rmObserved m" ?cs m] assms(2,4) unfolding keys by auto
  have "cget ?cs t l = 0" for t l
    by (auto simp: cget_def split: option.split dest!: map_of_SomeD)
  then have "cget cs' t l = tally (rmObserved m) t l" for t l using cs'(4) by simp
  moreover have "recount m = fold publishCounts cs' m" by (simp add: recount_def cs'(1))
  ultimately show ?thesis using publish_fold [OF cs'(3), of m] assms unfolding metrics_ok_def cs'(2) by simp
qed

lemma publishType_effect:
  "rmObserved (publishType t m) = rmObserved m" "set (rmPublished (publishType t m)) = insert t (set (rmPublished m))"
  "distinct (rmPublished (publishType t m)) = distinct (rmPublished m)"
  "mget (rmRules (publishType t m)) (t', l) =
     (if t' = t \<and> t \<notin> set (rmPublished m) \<and> l \<in> set conditionStatuses then Some 0 else mget (rmRules m) (t', l))"
  by (auto simp: publishType_def conditionStatuses_def setGauge_def)

lemma publishTypes_effect:
  "rmObserved (fold publishType ts m) = rmObserved m \<and> set (rmPublished (fold publishType ts m)) = set ts \<union> set (rmPublished m) \<and>
   distinct (rmPublished (fold publishType ts m)) = distinct (rmPublished m) \<and>
   (\<forall>t l. t \<notin> set (rmPublished (fold publishType ts m)) \<or> l \<notin> set conditionStatuses \<longrightarrow>
      mget (rmRules (fold publishType ts m)) (t, l) = mget (rmRules m) (t, l))"
proof (induction ts arbitrary: m)
  case (Cons t ts)
  from Cons.IH [of "publishType t m"] show ?case by (auto simp: publishType_effect)
qed simp

lemma NewRuleMetrics_ok: "metrics_ok NewRuleMetrics"
  by (simp add: metrics_ok_def NewRuleMetrics_def publishType_def conditionStatuses_def setGauge_def tally_def)

lemma mwf_fold_mput: "mwf m \<Longrightarrow> mwf (fold (\<lambda>c. mput (f c) (g c)) cs m)"
  by (induction cs arbitrary: m) auto

lemma mput_mem: "mwf m \<Longrightarrow> kv \<in> set (mput k v m) \<Longrightarrow> kv = (k, v) \<or> kv \<in> set m"
  using mget_Some_set [of "mput k v m" "fst kv" "snd kv"] mget_Some_set [of m "fst kv" "snd kv"]
  by (cases kv) (simp split: if_splits)

lemma mkeys_fold_mput: "set (mkeys (fold (\<lambda>c. mput (f c) (g c)) cs m)) = f ` set cs \<union> set (mkeys m)"
proof (induction cs arbitrary: m)
  case (Cons c cs)
  show ?case unfolding fold_simps(2) comp_def Cons.IH set_mput by auto
qed simp

lemma Observe_ok:
  assumes "metrics_ok m"
  shows "metrics_ok (Observe rule conds m) \<and>
    rmObserved (Observe rule conds m) = mput rule (fold (\<lambda>c. mput (coType c) (coStatus c)) conds []) (rmObserved m) \<and>
    set (rmPublished (Observe rule conds m)) = coType ` set conds \<union> set (rmPublished m)"
proof -
  define current where "current = fold (\<lambda>c. mput (coType c) (coStatus c)) conds []"
  define m1 where "m1 = fold publishType (mkeys current) (m\<lparr>rmObserved := mput rule current (rmObserved m)\<rparr>)"
  have m1: "rmObserved m1 = mput rule current (rmObserved m)" "set (rmPublished m1) = set (mkeys current) \<union> set (rmPublished m)"
    "distinct (rmPublished m1) = distinct (rmPublished m)"
    "\<forall>t l. t \<notin> set (rmPublished m1) \<or> l \<notin> set conditionStatuses \<longrightarrow> mget (rmRules m1) (t, l) = mget (rmRules m) (t, l)"
    using publishTypes_effect [of "mkeys current" "m\<lparr>rmObserved := mput rule current (rmObserved m)\<rparr>"] by (simp_all add: m1_def)
  have cur: "mwf current" "set (mkeys current) = coType ` set conds"
    unfolding current_def mkeys_fold_mput by (rule mwf_fold_mput, simp) simp
  have "mwf (snd rc) \<and> set (mkeys (snd rc)) \<subseteq> set (rmPublished m1)" if "rc \<in> set (rmObserved m1)" for rc
  proof -
    have "rc = (rule, current) \<or> rc \<in> set (rmObserved m)"
      using that mput_mem [of "rmObserved m" rc rule current] assms unfolding m1(1) metrics_ok_def by blast
    then show ?thesis
    proof
      assume "rc = (rule, current)"
      then show ?thesis using cur(1) m1(2) by simp
    next
      assume "rc \<in> set (rmObserved m)"
      then show ?thesis using assms unfolding m1(2) metrics_ok_def by blast
    qed
  qed
  then have "metrics_ok (recount m1) \<and> rmObserved (recount m1) = rmObserved m1 \<and> rmPublished (recount m1) = rmPublished m1"
    using assms m1 by (intro recount_ok) (auto simp: metrics_ok_def)
  moreover have "Observe rule conds m = recount m1" by (simp add: Observe_def Let_def current_def m1_def)
  moreover have "set (rmPublished m1) = coType ` set conds \<union> set (rmPublished m)" unfolding m1(2) cur(2) by (rule refl)
  ultimately show ?thesis using m1(1) unfolding current_def by simp
qed

lemma set_mdel_subset: "set (mdel k m) \<subseteq> set m"
  by (auto simp: AList.delete_eq)

lemma Forget_ok:
  assumes "metrics_ok m"
  shows "metrics_ok (Forget rule m) \<and> rmObserved (Forget rule m) = mdel rule (rmObserved m) \<and>
    rmPublished (Forget rule m) = rmPublished m"
proof (cases "mget (rmObserved m) rule = None")
  case True
  then have "mdel rule (rmObserved m) = rmObserved m"
    by (metis AList.delete_id map_of_eq_None_iff set_map)
  then show ?thesis using assms True by (simp add: Forget_def)
next
  case False
  let ?m = "m\<lparr>rmObserved := mdel rule (rmObserved m)\<rparr>"
  have "\<forall>rc \<in> set (rmObserved ?m). mwf (snd rc) \<and> set (mkeys (snd rc)) \<subseteq> set (rmPublished ?m)"
    using assms set_mdel_subset [of rule "rmObserved m"] unfolding metrics_ok_def by auto
  then have "metrics_ok (recount ?m) \<and> rmObserved (recount ?m) = rmObserved ?m \<and> rmPublished (recount ?m) = rmPublished ?m"
    using assms unfolding metrics_ok_def by (intro recount_ok [unfolded metrics_ok_def]) simp_all
  moreover have "Forget rule m = recount ?m" unfolding Forget_def using False by (rule if_not_P)
  ultimately show ?thesis by simp
qed

lemma mem_keys_filter: "k \<in> set (map fst (filter P m)) \<longleftrightarrow> (\<exists>v. (k, v) \<in> set m \<and> P (k, v))"
  by force

definition in_status :: "string \<Rightarrow> string \<Rightarrow> string \<times> (string, ConditionStatus) gomap \<Rightarrow> bool" where
  "in_status t l rc \<longleftrightarrow> (case mget (snd rc) t of None \<Rightarrow> False | Some st \<Rightarrow> statusLabel st = l)"

lemma in_status_iff: "in_status t l (rule, conds) \<longleftrightarrow> (\<exists>st. mget conds t = Some st \<and> statusLabel st = l)"
  by (simp add: in_status_def split: option.split)

lemma tally_card:
  assumes "mwf obs"
  shows "tally obs t l = card {rule. \<exists>conds st. mget obs rule = Some conds \<and> mget conds t = Some st \<and> statusLabel st = l}"
proof -
  have "set (map fst (filter (in_status t l) obs)) =
      {rule. \<exists>conds st. mget obs rule = Some conds \<and> mget conds t = Some st \<and> statusLabel st = l}"
    by (rule set_eqI) (simp only: mem_keys_filter in_status_iff mget_Some_set [OF assms] mem_Collect_eq ex_simps)
  moreover have "distinct (map fst (filter (in_status t l) obs))" using assms by (rule distinct_map_filter)
  moreover have "tally obs t l = length (map fst (filter (in_status t l) obs))"
    by (simp add: tally_def in_status_def [abs_def])
  ultimately show ?thesis by (metis distinct_card)
qed

text \<open>A run of the reconcilers over the gauge, and what it should count: the conditions each rule was last
  written with, unless it was withdrawn since.\<close>

datatype metricOp = MObserve string "Condition list" | MForget string

fun metric_exec :: "metricOp \<Rightarrow> RuleMetrics \<Rightarrow> RuleMetrics" where
  "metric_exec (MObserve rule conds) m = Observe rule conds m"
| "metric_exec (MForget rule) m = Forget rule m"

fun written_after :: "metricOp \<Rightarrow> (string \<Rightarrow> Condition list option) \<Rightarrow> (string \<Rightarrow> Condition list option)" where
  "written_after (MObserve rule conds) written = written(rule \<mapsto> conds)"
| "written_after (MForget rule) written = written(rule := None)"

fun metric_types :: "metricOp \<Rightarrow> string set" where
  "metric_types (MObserve rule conds) = coType ` set conds"
| "metric_types (MForget rule) = {}"

definition statuses_of :: "Condition list \<Rightarrow> (string, ConditionStatus) gomap" where
  "statuses_of conds = fold (\<lambda>c. mput (coType c) (coStatus c)) conds []"

lemma metric_step:
  assumes "metrics_ok m" "\<forall>rule. mget (rmObserved m) rule = map_option statuses_of (written rule)"
  shows "metrics_ok (metric_exec op m) \<and>
    (\<forall>rule. mget (rmObserved (metric_exec op m)) rule = map_option statuses_of (written_after op written rule)) \<and>
    set (rmPublished (metric_exec op m)) = metric_types op \<union> set (rmPublished m)"
  using Observe_ok [OF assms(1)] Forget_ok [OF assms(1)] assms(2) by (cases op) (simp_all add: statuses_of_def)

lemma metric_run:
  assumes "metrics_ok m" "\<forall>rule. mget (rmObserved m) rule = map_option statuses_of (written rule)"
  shows "metrics_ok (fold metric_exec ops m) \<and>
    (\<forall>rule. mget (rmObserved (fold metric_exec ops m)) rule = map_option statuses_of (fold written_after ops written rule)) \<and>
    set (rmPublished (fold metric_exec ops m)) = \<Union> (metric_types ` set ops) \<union> set (rmPublished m)"
  using assms
proof (induction ops arbitrary: m written)
  case (Cons op ops)
  have step: "metrics_ok (metric_exec op m)"
    "\<forall>rule. mget (rmObserved (metric_exec op m)) rule = map_option statuses_of (written_after op written rule)"
    "set (rmPublished (metric_exec op m)) = metric_types op \<union> set (rmPublished m)"
    using metric_step [OF Cons.prems, of op] by blast+
  from Cons.IH [OF step(1,2)] show ?case unfolding step(3) by (simp add: Un_left_commute Un_assoc)
qed simp

lemma NewRuleMetrics_sel: "rmObserved NewRuleMetrics = []" "rmPublished NewRuleMetrics = [ConditionReady]"
  by (simp_all add: NewRuleMetrics_def publishType_def conditionStatuses_def setGauge_def)

text \<open>C24. After any sequence of status writes and withdrawals, in any order and for any rules, the gauge
  of a condition type and status is exactly the number of rules whose last written conditions carry that
  type in that status and that were not withdrawn since.  The series that exist are the three statuses of
  Ready and of every type ever written, and no others: a type no rule carries any more reads zero rather
  than its last value.\<close>

theorem gauge_counts_rules:
  "mget (rmRules (fold metric_exec ops NewRuleMetrics)) (t, l) =
     (if t \<in> insert ConditionReady (\<Union> (metric_types ` set ops)) \<and> l \<in> set conditionStatuses
      then Some (card {rule. \<exists>conds st. fold written_after ops Map.empty rule = Some conds \<and>
                   mget (statuses_of conds) t = Some st \<and> statusLabel st = l})
      else None)"
proof -
  let ?m = "fold metric_exec ops NewRuleMetrics"
  have run: "metrics_ok ?m" "\<forall>rule. mget (rmObserved ?m) rule = map_option statuses_of (fold written_after ops Map.empty rule)"
    "set (rmPublished ?m) = insert ConditionReady (\<Union> (metric_types ` set ops))"
    using metric_run [OF NewRuleMetrics_ok, of Map.empty ops] by (simp_all add: NewRuleMetrics_sel)
  have "{rule. \<exists>conds st. mget (rmObserved ?m) rule = Some conds \<and> mget conds t = Some st \<and> statusLabel st = l} =
      {rule. \<exists>conds st. fold written_after ops Map.empty rule = Some conds \<and> mget (statuses_of conds) t = Some st \<and> statusLabel st = l}"
    using run(2) by auto
  then show ?thesis using run(1,3) tally_card [of "rmObserved ?m" t l] by (auto simp: metrics_ok_def)
qed

end
