(* ===== verification/ApiTypes.thy ===== *)
theory ApiTypes
imports Conditions
begin

text \<open>
  The custom resources (api/v1alpha1): sinks and the two kinds of rule, with the metadata the
  reconcilers read.  A label selector is of the type parameter \<open>'ls\<close>; an optional field is an option; a
  duration is its nanoseconds.  The two rule kinds share one record: they differ in the namespace
  selector, which a namespaced rule does not have.
\<close>

record RedactionRule =
  rrFieldPath :: string
  rrAnnotation :: string

record 'ls WatchedResource =
  wrGroup :: string
  wrVersion :: string
  wrKind :: string
  wrLabelSelector :: "'ls option"

record GVKSelector =
  gsGroup :: string
  gsVersion :: string
  gsKinds :: "string list"

record 'ls StreamRuleSpec =
  srSinkRef :: string
  srResources :: "'ls WatchedResource list"
  srExtraRedaction :: "RedactionRule list"

record StreamRuleStatus =
  ssConditions :: "Condition list"
  ssActiveWatches :: int
  ssObservedGeneration :: int

record 'ls Rule =
  ruNamespace :: string
  ruName :: string
  ruGeneration :: int
  ruDeleting :: bool
  ruSpec :: "'ls StreamRuleSpec"
  ruNamespaceSelector :: "'ls option"
  ruStatus :: StreamRuleStatus

record SecretReference =
  scrName :: string
  scrNamespace :: string

record ConnectionSpec =
  cnAddr :: string
  cnDatabase :: string
  cnUsername :: string
  cnCredentialsSecretRef :: SecretReference
  cnDialTimeout :: "int option"
  cnReadTimeout :: "int option"

record WriterSpec =
  wsQueueSize :: "int option"
  wsWorkers :: "int option"
  wsBatchMaxRows :: "int option"
  wsBatchMaxWait :: "int option"
  wsEnqueueTimeout :: "int option"
  wsDrainTimeout :: "int option"
  wsCheckpointEvery :: "int option"

record SinkPolicy =
  spAllowedGVKs :: "GVKSelector list"
  spRedaction :: "RedactionRule list"

record ClickHouseSinkSpec =
  chConnection :: ConnectionSpec
  chWriter :: WriterSpec
  chPolicy :: SinkPolicy

record ClickHouseSinkStatus =
  chConditions :: "Condition list"
  chObservedGeneration :: int

record ClickHouseSink =
  chName :: string
  chGeneration :: int
  chSpec :: ClickHouseSinkSpec
  chStatus :: ClickHouseSinkStatus

text \<open>How a read of the API server ends.\<close>

datatype apiError = NotFound | GetFailed string

datatype reconcileResult = ReconcileDone | RequeueAfter int | ReconcileError string

end
