(* ===== verification/RuleController.thy ===== *)
theory RuleController
imports ApiTypes Plan Watch
begin

text \<open>
  The reconciler of StreamRule and ClusterStreamRule (internal/controller/streamrule_controller.go and
  redaction.go): the gates a rule passes, the targets that survive them, the projection into the
  registry, the conditions, the gauge and the events; and the wake-ups of rules whose sink is gone.  The
  API server (objects, namespaces, access reviews, status updates), apimachinery (selectors, the texts of
  kinds and resources) and the clock are the fields of \<open>ruleEnv\<close>, fixed during one pass.
\<close>

section \<open>Redaction\<close>

definition redactionPath_of :: "RedactionRule \<Rightarrow> string" where
  "redactionPath_of rule =
     (if rrAnnotation rule \<noteq> '''' then AnnotationRedactionPath (rrAnnotation rule) else rrFieldPath rule)"

definition canonicalRedaction :: "RedactionRule list \<Rightarrow> RedactionRule list \<Rightarrow> string" where
  "canonicalRedaction sinkFloor ruleExtra =
     (let paths = filter (\<lambda>path. path \<noteq> '''') (map redactionPath_of (sinkFloor @ ruleExtra))
      in join [CHR 0x0A] (remdups_adj (sort paths)))"

section \<open>Kinds and environment\<close>

record 'ls ruleKind =
  rkKind :: string
  rkScope :: RuleScope
  rkNamespaceSelector :: "'ls Rule \<Rightarrow> 'ls option"

definition streamRuleKind :: "'ls ruleKind" where
  "streamRuleKind = \<lparr>rkKind = kindStreamRule, rkScope = NamespacedRule, rkNamespaceSelector = (\<lambda>obj. None)\<rparr>"

definition clusterStreamRuleKind :: "'ls ruleKind" where
  "clusterStreamRuleKind = \<lparr>rkKind = kindClusterStreamRule, rkScope = ClusterRule, rkNamespaceSelector = ruNamespaceSelector\<rparr>"

record ('ls, 'sel, 'e) ruleEnv =
  reCond :: condAPI
  reUnreachable :: string
  reGetRule :: "string \<Rightarrow> string \<Rightarrow> apiError + 'ls Rule"
  reGetSink :: "string \<Rightarrow> apiError + ClickHouseSink"
  reAsSelector :: "'ls \<Rightarrow> string + 'sel"
  reSelString :: "'sel \<Rightarrow> string"
  reParse :: "string \<Rightarrow> string + 'sel"
  reListNamespaces :: "'sel \<Rightarrow> string + (string \<times> bool) list"
  reIsNoMatch :: "'e \<Rightarrow> bool"
  reMapper :: "'e mapper"
  reClock :: "nat \<Rightarrow> int"
  reReview :: "GVR \<Rightarrow> string \<Rightarrow> string \<Rightarrow> string + bool"
  reGvrString :: "GVR \<Rightarrow> string"
  reGroupResource :: "GVR \<Rightarrow> string"
  reGvkString :: "GVK \<Rightarrow> string"
  reResolveText :: "'e resolveError \<Rightarrow> string"
  reUpsertText :: "string upsertError \<Rightarrow> string"
  reUpdate :: "StreamRuleStatus updateAttempt list"
  reHasRecorder :: bool
  reResyncPeriod :: int

definition defaultRuleResyncPeriod :: int where
  "defaultRuleResyncPeriod = 2 * 60 * 1000000000"

definition resyncPeriod :: "int \<Rightarrow> int" where
  "resyncPeriod configured = (if configured > 0 then configured else defaultRuleResyncPeriod)"

section \<open>Gates\<close>

definition gvkString :: "string \<Rightarrow> string \<Rightarrow> string \<Rightarrow> string" where
  "gvkString grp version kind = (if grp = '''' then version @ ''/'' @ kind else grp @ ''/'' @ version @ ''/'' @ kind)"

definition deniedGroup :: string where "deniedGroup = ''''"
definition deniedKind :: string where "deniedKind = ''Secret''"

record policyDenial =
  pdReason :: string
  pdMessage :: string

definition policyAdmits :: "GVKSelector list \<Rightarrow> 'ls WatchedResource \<Rightarrow> bool" where
  "policyAdmits allowed res =
     (\<exists>sel \<in> set allowed. gsGroup sel = wrGroup res \<and> gsVersion sel = wrVersion res \<and>
        (''*'' \<in> set (gsKinds sel) \<or> wrKind res \<in> set (gsKinds sel)))"

definition checkPolicy :: "'ls WatchedResource list \<Rightarrow> SinkPolicy \<Rightarrow> policyDenial option" where
  "checkPolicy resources policy =
     (case List.find (\<lambda>res. wrGroup res = deniedGroup \<and> wrKind res = deniedKind) resources of
        Some res \<Rightarrow>
          Some \<lparr>pdReason = ReasonSecretsDenied,
                pdMessage = gvkString (wrGroup res) (wrVersion res) (wrKind res) @
                  '' is never watchable in v1alpha1: Secrets are denied in code and no sink policy can admit them''\<rparr>
      | None \<Rightarrow>
          if spAllowedGVKs policy = [] then None
          else (case List.find (\<lambda>res. \<not> policyAdmits (spAllowedGVKs policy) res) resources of
                  Some res \<Rightarrow>
                    Some \<lparr>pdReason = ReasonNotInAllowList,
                          pdMessage = gvkString (wrGroup res) (wrVersion res) (wrKind res) @
                            '' is not in the sink's spec.policy.allowedGVKs''\<rparr>
                | None \<Rightarrow> None))"

record sinkVerdict =
  svReason :: string
  svMessage :: string

definition noVerdict :: sinkVerdict where
  "noVerdict = \<lparr>svReason = '''', svMessage = ''''\<rparr>"

definition resolveSink :: "('ls, 'sel, 'e) ruleEnv \<Rightarrow> string \<Rightarrow> string + (ClickHouseSink option \<times> sinkVerdict)" where
  "resolveSink env name =
     (case reGetSink env name of
        Inl NotFound \<Rightarrow>
          Inr (None, \<lparr>svReason = ReasonSinkMissing, svMessage = ''ClickHouseSink '' @ Quote name @ '' does not exist''\<rparr>)
      | Inl (GetFailed e) \<Rightarrow> Inl (''get ClickHouseSink '' @ Quote name @ '': '' @ e)
      | Inr chSink \<Rightarrow>
          (case caFind (reCond env) (chConditions (chStatus chSink)) ConditionReady of
             None \<Rightarrow>
               Inr (Some chSink, \<lparr>svReason = ReasonSinkNotReady,
                      svMessage = ''ClickHouseSink '' @ Quote name @ '' has not reported its health yet''\<rparr>)
           | Some ready \<Rightarrow>
               if coStatus ready \<noteq> ConditionTrue
               then Inr (Some chSink, \<lparr>svReason = ReasonSinkNotReady,
                           svMessage = ''ClickHouseSink '' @ Quote name @ '' is not ready ('' @ coReason ready @ '': '' @ coMessage ready @ '')''\<rparr>)
               else Inr (Some chSink, noVerdict)))"

definition ruleReadyOrder :: "string list" where
  "ruleReadyOrder = [ConditionPolicyAllowed, ConditionResourceResolved, ConditionRBACGranted]"

definition setUnevaluated :: "condAPI \<Rightarrow> string \<Rightarrow> statusWriter \<Rightarrow> statusWriter" where
  "setUnevaluated api message status =
     fold (\<lambda>condType. setStatus api condType ConditionUnknown ReasonNotEvaluated message) ruleReadyOrder status"

datatype namespaceError = errInvalidNamespaceSelector string | NamespaceListFailed string

definition namespaceError_text :: "namespaceError \<Rightarrow> string" where
  "namespaceError_text e =
     (case e of
        errInvalidNamespaceSelector m \<Rightarrow> ReasonNamespaceSelectorInvalid @ '': '' @ m
      | NamespaceListFailed m \<Rightarrow> m)"

definition targetNamespaces :: "('ls, 'sel, 'e) ruleEnv \<Rightarrow> 'ls ruleKind \<Rightarrow> 'ls Rule \<Rightarrow> namespaceError + string list" where
  "targetNamespaces env kind obj =
     (if rkScope kind = NamespacedRule then Inr [ruNamespace obj]
      else case rkNamespaceSelector kind obj of
        None \<Rightarrow> Inr ['''']
      | Some selector \<Rightarrow>
          (case reAsSelector env selector of
             Inl e \<Rightarrow> Inl (errInvalidNamespaceSelector e)
           | Inr labelSelector \<Rightarrow>
               (case reListNamespaces env labelSelector of
                  Inl e \<Rightarrow> Inl (NamespaceListFailed (''list namespaces matching '' @ Quote (reSelString env labelSelector) @ '': '' @ e))
                | Inr items \<Rightarrow> Inr (sort (map fst (filter (\<lambda>(name, deleting). \<not> deleting) items))))))"

definition namespacesFor :: "bool \<Rightarrow> string list \<Rightarrow> string list" where
  "namespacesFor namespaced expanded = (if \<not> namespaced then [''''] else expanded)"

record resolvedResource =
  rvGVK :: GVK
  rvGVR :: GVR
  rvSelector :: string
  rvNamespaces :: "string list"

definition resource_gvk :: "'ls WatchedResource \<Rightarrow> GVK" where
  "resource_gvk res = \<lparr>gGroup = wrGroup res, gVersion = wrVersion res, gKind = wrKind res\<rparr>"

fun resolveResources ::
    "('ls, 'sel, 'e) ruleEnv \<Rightarrow> RuleScope \<Rightarrow> string list \<Rightarrow> nat \<Rightarrow> 'ls WatchedResource list \<Rightarrow> 'e Resolver \<Rightarrow>
     resolvedResource list \<times> string list \<times> 'e Resolver" where
  "resolveResources env scope namespaces n [] r = ([], [], r)"
| "resolveResources env scope namespaces n (res # resources) r =
     (let gvk = resource_gvk res
      in case ResolveForScope (reIsNoMatch env) (reMapper env) (reClock env (2 * n)) (reClock env (2 * n + 1)) gvk scope r of
        (Inl err, r) \<Rightarrow>
          (case resolveResources env scope namespaces (n + 1) resources r of (resolved, failures, r) \<Rightarrow>
             (resolved, (reGvkString env gvk @ '': '' @ reResolveText env err) # failures, r))
      | (Inr (gvr, namespaced), r) \<Rightarrow>
          (case resolveResources env scope namespaces (n + 1) resources r of (resolved, failures, r) \<Rightarrow>
             (case CanonicalSelector (reAsSelector env) (reSelString env) (wrLabelSelector res) of
                Inl err \<Rightarrow> (resolved, (reGvkString env gvk @ '': '' @ err) # failures, r)
              | Inr selector \<Rightarrow>
                  (\<lparr>rvGVK = gvk, rvGVR = gvr, rvSelector = selector, rvNamespaces = namespacesFor namespaced namespaces\<rparr> # resolved,
                   failures, r))))"

section \<open>Access reviews\<close>

definition accessVerbs :: "string list" where
  "accessVerbs = [''get'', ''list'', ''watch'']"

definition review :: "('ls, 'sel, 'e) ruleEnv \<Rightarrow> GVR \<Rightarrow> string \<Rightarrow> string \<Rightarrow> string + bool" where
  "review env gvr namespace verb =
     (case reReview env gvr namespace verb of
        Inl e \<Rightarrow> Inl (''review access to '' @ reGroupResource env gvr @ '' (verb '' @ Quote verb @ '', namespace '' @ Quote namespace @ ''): '' @ e)
      | Inr allowed \<Rightarrow> Inr allowed)"

fun missingVerbs :: "('ls, 'sel, 'e) ruleEnv \<Rightarrow> GVR \<Rightarrow> string \<Rightarrow> string list \<Rightarrow> string + string list" where
  "missingVerbs env gvr namespace [] = Inr []"
| "missingVerbs env gvr namespace (verb # verbs) =
     (case review env gvr '''' verb of
        Inl e \<Rightarrow> Inl e
      | Inr clusterWide \<Rightarrow>
          (case (if \<not> clusterWide \<and> namespace \<noteq> '''' then review env gvr namespace verb else Inr clusterWide) of
             Inl e \<Rightarrow> Inl e
           | Inr allowed \<Rightarrow>
               (case missingVerbs env gvr namespace verbs of
                  Inl e \<Rightarrow> Inl e
                | Inr missing \<Rightarrow> Inr (if allowed then missing else verb # missing))))"

definition reviewTarget :: "('ls, 'sel, 'e) ruleEnv \<Rightarrow> GVR \<Rightarrow> string \<Rightarrow> string + string" where
  "reviewTarget env gvr namespace =
     (case missingVerbs env gvr namespace accessVerbs of
        Inl e \<Rightarrow> Inl e
      | Inr missing \<Rightarrow>
          Inr (if missing = [] then ''''
               else reGroupResource env gvr @ '': missing '' @ join '','' missing @ '' '' @
                 (if namespace \<noteq> '''' then ''in namespace '' @ Quote namespace else ''at cluster scope'')))"

record reviewAcc =
  raTargets :: "WatchTarget list"
  raDenials :: "string list"
  raSeen :: "(string, string) gomap"

definition seenKey :: "('ls, 'sel, 'e) ruleEnv \<Rightarrow> GVR \<Rightarrow> string \<Rightarrow> string" where
  "seenKey env gvr namespace = reGvrString env gvr @ ''|'' @ namespace"

definition settleTarget :: "string \<Rightarrow> string \<Rightarrow> resolvedResource \<Rightarrow> string \<Rightarrow> string \<Rightarrow> reviewAcc \<Rightarrow> reviewAcc" where
  "settleTarget sinkName redaction res namespace denial acc =
     (if denial \<noteq> ''''
      then (if denial \<in> set (raDenials acc) then acc else acc\<lparr>raDenials := raDenials acc @ [denial]\<rparr>)
      else acc\<lparr>raTargets := raTargets acc @
             [\<lparr>wtSink = sinkName, wtGVK = rvGVK res, wtNamespace = namespace, wtSelector = rvSelector res, wtRedaction = redaction\<rparr>]\<rparr>)"

fun reviewNamespaces ::
    "('ls, 'sel, 'e) ruleEnv \<Rightarrow> string \<Rightarrow> string \<Rightarrow> resolvedResource \<Rightarrow> string list \<Rightarrow> reviewAcc \<Rightarrow> string + reviewAcc" where
  "reviewNamespaces env sinkName redaction res [] acc = Inr acc"
| "reviewNamespaces env sinkName redaction res (namespace # namespaces) acc =
     (let key = seenKey env (rvGVR res) namespace
      in case mget (raSeen acc) key of
        Some denial \<Rightarrow> reviewNamespaces env sinkName redaction res namespaces (settleTarget sinkName redaction res namespace denial acc)
      | None \<Rightarrow>
          (case reviewTarget env (rvGVR res) namespace of
             Inl e \<Rightarrow> Inl e
           | Inr denial \<Rightarrow>
               reviewNamespaces env sinkName redaction res namespaces
                 (settleTarget sinkName redaction res namespace denial (acc\<lparr>raSeen := mput key denial (raSeen acc)\<rparr>))))"

fun reviewResources ::
    "('ls, 'sel, 'e) ruleEnv \<Rightarrow> string \<Rightarrow> string \<Rightarrow> resolvedResource list \<Rightarrow> reviewAcc \<Rightarrow> string + reviewAcc" where
  "reviewResources env sinkName redaction [] acc = Inr acc"
| "reviewResources env sinkName redaction (res # resolved) acc =
     (case reviewNamespaces env sinkName redaction res (rvNamespaces res) acc of
        Inl e \<Rightarrow> Inl e
      | Inr acc \<Rightarrow> reviewResources env sinkName redaction resolved acc)"

definition reviewTargets ::
    "('ls, 'sel, 'e) ruleEnv \<Rightarrow> string \<Rightarrow> resolvedResource list \<Rightarrow> string \<Rightarrow> string + (WatchTarget list \<times> string list)" where
  "reviewTargets env sinkName resolved redaction =
     (case reviewResources env sinkName redaction resolved \<lparr>raTargets = [], raDenials = [], raSeen = []\<rparr> of
        Inl e \<Rightarrow> Inl e
      | Inr acc \<Rightarrow> Inr (raTargets acc, raDenials acc))"

section \<open>The plan of a pass\<close>

record planOutcome =
  poTargets :: "WatchTarget list"
  poVerdict :: sinkVerdict
  poInstall :: bool
  poErr :: "string option"

definition planRule ::
    "('ls, 'sel, 'e) ruleEnv \<Rightarrow> 'ls ruleKind \<Rightarrow> 'ls Rule \<Rightarrow> statusWriter \<Rightarrow> 'e Resolver \<Rightarrow> planOutcome \<times> statusWriter \<times> 'e Resolver" where
  "planRule env kind obj status r =
     (let api = reCond env; spec = ruSpec obj
      in case resolveSink env (srSinkRef spec) of
        Inl e \<Rightarrow> (\<lparr>poTargets = [], poVerdict = noVerdict, poInstall = False, poErr = Some e\<rparr>, status, r)
      | Inr (None, verdict) \<Rightarrow>
          (\<lparr>poTargets = [], poVerdict = verdict, poInstall = True, poErr = None\<rparr>, setUnevaluated api (svMessage verdict) status, r)
      | Inr (Some chSink, verdict) \<Rightarrow>
          (case checkPolicy (srResources spec) (chPolicy (chSpec chSink)) of
             Some denied \<Rightarrow>
               (\<lparr>poTargets = [], poVerdict = verdict, poInstall = True, poErr = None\<rparr>,
                setStatus api ConditionRBACGranted ConditionUnknown ReasonNotEvaluated
                  ''Access is not reviewed while the sink's policy denies this rule''
                  (setStatus api ConditionResourceResolved ConditionUnknown ReasonNotEvaluated
                    ''Resources are not resolved while the sink's policy denies this rule''
                    (setStatus api ConditionPolicyAllowed ConditionFalse (pdReason denied) (pdMessage denied) status)),
                r)
           | None \<Rightarrow>
               let status = setStatus api ConditionPolicyAllowed ConditionTrue ReasonAllResourcesPermitted
                              (''Every resource this rule names is admitted by sink '' @ Quote (chName chSink)) status
               in case targetNamespaces env kind obj of
                 Inl (errInvalidNamespaceSelector e) \<Rightarrow>
                   (\<lparr>poTargets = [], poVerdict = verdict, poInstall = True, poErr = None\<rparr>,
                    setStatus api ConditionResourceResolved ConditionFalse ReasonNamespaceSelectorInvalid
                      (namespaceError_text (errInvalidNamespaceSelector e)) status, r)
               | Inl (NamespaceListFailed e) \<Rightarrow>
                   (\<lparr>poTargets = [], poVerdict = verdict, poInstall = False, poErr = Some e\<rparr>,
                    setStatus api ConditionResourceResolved ConditionUnknown ReasonNamespacesUnavailable e status, r)
               | Inr namespaces \<Rightarrow>
                   let (resolved, resolveFailures, r) = resolveResources env (rkScope kind) namespaces 0 (srResources spec) r;
                       status = setGateCondition api ConditionResourceResolved resolveFailures ReasonAllKindsResolved
                                  ''Every kind this rule names resolved to a watchable resource'' ReasonKindsUnresolved status;
                       redaction = canonicalRedaction (spRedaction (chPolicy (chSpec chSink))) (srExtraRedaction spec)
                   in case reviewTargets env (chName chSink) resolved redaction of
                     Inl e \<Rightarrow>
                       (\<lparr>poTargets = [], poVerdict = verdict, poInstall = False, poErr = Some e\<rparr>,
                        setStatus api ConditionRBACGranted ConditionUnknown ReasonAccessReviewFailed e status, r)
                   | Inr (targets, denials) \<Rightarrow>
                       (\<lparr>poTargets = targets, poVerdict = verdict, poInstall = True, poErr = None\<rparr>,
                        setGateCondition api ConditionRBACGranted denials ReasonAllVerbsGranted
                          ''The operator may get, list and watch every resource this rule names'' ReasonMissingPermissions status, r)))"

definition readyCondition :: "('ls, 'sel, 'e) ruleEnv \<Rightarrow> statusWriter \<Rightarrow> sinkVerdict \<Rightarrow> Condition" where
  "readyCondition env status verdict =
     (if svReason verdict \<noteq> ''''
      then condition ConditionReady ConditionFalse (svReason verdict) (svMessage verdict) (swGeneration status)
      else readyFor (reCond env) (reUnreachable env) status ConditionReady ruleReadyOrder ReasonStreaming
        ''Every resource this rule names is admitted, resolved, permitted and installed in the watch plan'')"

section \<open>Reconciling a rule\<close>

record 'e ruleState =
  rcRegistry :: Registry
  rcResolver :: "'e Resolver"
  rcMetrics :: RuleMetrics
  rcEvents :: "(string \<times> kubeEvent) list"
  rcWritten :: "(string \<times> StreamRuleStatus) list"

definition withdraw :: "string \<Rightarrow> 'e ruleState \<Rightarrow> 'e ruleState" where
  "withdraw ruleKey s = s\<lparr>rcRegistry := Remove ruleKey (rcRegistry s), rcMetrics := Forget ruleKey (rcMetrics s)\<rparr>"

definition int32 :: "nat \<Rightarrow> int" where
  "int32 n = sint (of_nat n :: 32 word)"

definition install ::
    "('ls, 'sel, 'e) ruleEnv \<Rightarrow> string \<Rightarrow> planOutcome \<Rightarrow> statusWriter \<Rightarrow> Registry \<Rightarrow> statusWriter \<times> Registry" where
  "install env ruleKey outcome status registry =
     (if poInstall outcome
      then (case Upsert (reParse env) (reSelString env) ruleKey (poTargets outcome) registry of
              (None, registry) \<Rightarrow> (status, registry)
            | (Some err, registry) \<Rightarrow>
                (setStatus (reCond env) ConditionResourceResolved ConditionFalse ReasonInvalidSelector (reUpsertText env err) status,
                 registry))
      else (status, registry))"

definition RuleReconcile ::
    "('ls, 'sel, 'e) ruleEnv \<Rightarrow> 'ls ruleKind \<Rightarrow> string \<Rightarrow> string \<Rightarrow> 'e ruleState \<Rightarrow> reconcileResult \<times> 'e ruleState" where
  "RuleReconcile env kind namespace name s =
     (let ruleKey = RuleKey (rkKind kind) namespace name
      in case reGetRule env namespace name of
        Inl NotFound \<Rightarrow> (ReconcileDone, withdraw ruleKey s)
      | Inl (GetFailed e) \<Rightarrow>
          (ReconcileError (''get '' @ rkKind kind @ '' '' @ namespace @ ''/'' @ name @ '': '' @ e), s)
      | Inr obj \<Rightarrow>
          if ruDeleting obj then (ReconcileDone, withdraw ruleKey s)
          else
            let (outcome, status, resolver) =
                  planRule env kind obj \<lparr>swConditions = [], swGeneration = ruGeneration obj\<rparr> (rcResolver s);
                (status, registry) = install env ruleKey outcome status (rcRegistry s);
                previousReady = caFind (reCond env) (ssConditions (ruStatus obj)) ConditionReady;
                ready = readyCondition env status (poVerdict outcome);
                status = setStatus (reCond env) ConditionReady (coStatus ready) (coReason ready) (coMessage ready) status;
                activeWatches = int32 (TargetCountForRule ruleKey registry);
                s = s\<lparr>rcRegistry := registry, rcResolver := resolver\<rparr>
            in case updateStatus (reUpdate env)
                      (\<lambda>fresh. fresh\<lparr>ssConditions := applyStatus (reCond env) status (ssConditions fresh),
                                     ssActiveWatches := activeWatches, ssObservedGeneration := swGeneration status\<rparr>) of
                 Inl e \<Rightarrow>
                   (ReconcileError (''update '' @ rkKind kind @ '' '' @ namespace @ ''/'' @ name @ '' status: '' @ e), s)
               | Inr written \<Rightarrow>
                   let s = s\<lparr>rcMetrics := Observe ruleKey (ssConditions written) (rcMetrics s),
                             rcWritten := rcWritten s @ [(ruleKey, written)],
                             rcEvents := rcEvents s @ map (Pair ruleKey) (emitReadyEvent (reHasRecorder env) previousReady ready)\<rparr>
                   in (case poErr outcome of
                         Some e \<Rightarrow> ReconcileError e
                       | None \<Rightarrow> RequeueAfter (resyncPeriod (reResyncPeriod env)), s))"

section \<open>Waking rules\<close>

definition parkChannelCapacity :: nat where "parkChannelCapacity = 128"

type_synonym parkChannels = "(string, (string \<times> string) list) gomap"

text \<open>\<open>NewParker\<close> over the registered reconcilers: a kind without a channel is left out.\<close>

definition NewParker :: "(string \<times> bool) list \<Rightarrow> parkChannels" where
  "NewParker reconcilers = fold (\<lambda>(kind, hasChannel) ch. if hasChannel then mput kind [] ch else ch) reconcilers []"

definition parkRule :: "string \<Rightarrow> parkChannels \<Rightarrow> parkChannels" where
  "parkRule key channels =
     (case parseRuleKey key of
        None \<Rightarrow> channels
      | Some (kind, namespace, name) \<Rightarrow>
          (case mget channels kind of
             None \<Rightarrow> channels
           | Some events \<Rightarrow>
               if length events < parkChannelCapacity then mput kind (events @ [(namespace, name)]) channels else channels))"

definition SinkGone :: "string list \<Rightarrow> parkChannels \<Rightarrow> parkChannels" where
  "SinkGone ruleKeys channels = fold parkRule ruleKeys channels"

text \<open>The rules a sink or a namespace event wakes; listing is the API server's.\<close>

definition requestsFor :: "'ls Rule list \<Rightarrow> (string \<times> string) list" where
  "requestsFor objs = map (\<lambda>obj. (ruNamespace obj, ruName obj)) objs"

definition rulesForSink :: "string + 'ls Rule list \<Rightarrow> (string \<times> string) list" where
  "rulesForSink listed = (case listed of Inl e \<Rightarrow> [] | Inr items \<Rightarrow> requestsFor items)"

definition rulesForNamespace :: "string + 'ls Rule list \<Rightarrow> (string \<times> string) list" where
  "rulesForNamespace listed =
     (case listed of Inl e \<Rightarrow> [] | Inr items \<Rightarrow> requestsFor (filter (\<lambda>rule. ruNamespaceSelector rule \<noteq> None) items))"

section \<open>Gates, characterised\<close>

lemma checkPolicy_None:
  "checkPolicy resources policy = None \<longleftrightarrow>
     (\<forall>res \<in> set resources. \<not> (wrGroup res = deniedGroup \<and> wrKind res = deniedKind)) \<and>
     (spAllowedGVKs policy = [] \<or> (\<forall>res \<in> set resources. policyAdmits (spAllowedGVKs policy) res))"
  by (auto simp: checkPolicy_def find_None_iff find_Some_iff split: option.split)

lemma ResolveForScope_Inr:
  assumes "ResolveForScope f mapper now later gvk scope r = (Inr (gvr, namespaced), r')"
  shows "mapper gvk = Inr (gvr, namespaced) \<and> (scope = NamespacedRule \<longrightarrow> namespaced)"
proof -
  have "Resolve f mapper now later gvk r = (Inr (gvr, namespaced), r')" "checkScope gvk gvr namespaced scope = (None :: 'a resolveError option)"
    using assms by (auto simp: ResolveForScope_def split: prod.splits sum.splits option.splits)
  then show ?thesis using Resolve_Inr by (auto simp: checkScope_def split: if_splits)
qed

text \<open>What a resource resolves to, as far as the mapper and the selector go.\<close>

definition resolves ::
    "('ls, 'sel, 'e) ruleEnv \<Rightarrow> RuleScope \<Rightarrow> string list \<Rightarrow> 'ls WatchedResource \<Rightarrow> resolvedResource \<Rightarrow> bool" where
  "resolves env scope namespaces res rv \<longleftrightarrow>
     rvGVK rv = resource_gvk res \<and>
     CanonicalSelector (reAsSelector env) (reSelString env) (wrLabelSelector res) = Inr (rvSelector rv) \<and>
     (\<exists>namespaced. reMapper env (resource_gvk res) = Inr (rvGVR rv, namespaced) \<and> (scope = NamespacedRule \<longrightarrow> namespaced) \<and>
        rvNamespaces rv = namespacesFor namespaced namespaces)"

lemma resolveResources_spec:
  assumes "resolveResources env scope namespaces n resources r = (resolved, failures, r')"
  shows "(\<forall>rv \<in> set resolved. \<exists>res \<in> set resources. resolves env scope namespaces res rv) \<and>
    length resolved + length failures = length resources \<and>
    (failures = [] \<longrightarrow> list_all2 (resolves env scope namespaces) resources resolved)"
  using assms
proof (induction resources arbitrary: n r resolved failures r')
  case (Cons res resources)
  obtain v r1 where v: "ResolveForScope (reIsNoMatch env) (reMapper env) (reClock env (2 * n)) (reClock env (2 * n + 1)) (resource_gvk res) scope r = (v, r1)"
    by fastforce
  obtain rs fs r2 where rest: "resolveResources env scope namespaces (n + 1) resources r1 = (rs, fs, r2)" by (metis prod_cases3)
  note IH = Cons.IH [OF rest]
  show ?case
  proof (cases v)
    case (Inl err)
    then show ?thesis using Cons.prems v rest IH by auto
  next
    case (Inr x)
    obtain gvr namespaced where x: "x = (gvr, namespaced)" by fastforce
    note ok = ResolveForScope_Inr [OF v [unfolded Inr x]]
    show ?thesis
    proof (cases "CanonicalSelector (reAsSelector env) (reSelString env) (wrLabelSelector res)")
      case (Inl err)
      then show ?thesis using Cons.prems v rest IH Inr x by auto
    next
      case (Inr sel)
      define rv where "rv = \<lparr>rvGVK = resource_gvk res, rvGVR = gvr, rvSelector = sel, rvNamespaces = namespacesFor namespaced namespaces\<rparr>"
      have "resolved = rv # rs" "failures = fs" using Cons.prems v rest \<open>v = Inr x\<close> x Inr by (simp_all add: rv_def Let_def)
      moreover have "resolves env scope namespaces res rv" using ok Inr by (simp add: resolves_def rv_def)
      ultimately show ?thesis using IH by auto
    qed
  qed
qed simp

section \<open>Reviews, characterised\<close>

definition verb_granted :: "('ls, 'sel, 'e) ruleEnv \<Rightarrow> GVR \<Rightarrow> string \<Rightarrow> string \<Rightarrow> bool" where
  "verb_granted env gvr namespace verb \<longleftrightarrow>
     reReview env gvr '''' verb = Inr True \<or>
     (namespace \<noteq> '''' \<and> reReview env gvr '''' verb = Inr False \<and> reReview env gvr namespace verb = Inr True)"

definition granted :: "('ls, 'sel, 'e) ruleEnv \<Rightarrow> GVR \<Rightarrow> string \<Rightarrow> bool" where
  "granted env gvr namespace \<longleftrightarrow> (\<forall>verb \<in> set accessVerbs. verb_granted env gvr namespace verb)"

lemma missingVerbs_Nil: "missingVerbs env gvr namespace verbs = Inr [] \<longleftrightarrow> (\<forall>verb \<in> set verbs. verb_granted env gvr namespace verb)"
  by (induction verbs) (auto simp: review_def verb_granted_def split: sum.splits if_splits)

lemma reviewTarget_granted: "reviewTarget env gvr namespace = Inr '''' \<longleftrightarrow> granted env gvr namespace"
  unfolding granted_def missingVerbs_Nil [symmetric] by (auto simp: reviewTarget_def split: sum.splits)

text \<open>Within a pass verdicts are remembered under the text of the resource and the namespace, which tells
  the resources of the mapper apart.\<close>

definition mapped :: "('ls, 'sel, 'e) ruleEnv \<Rightarrow> GVR \<Rightarrow> bool" where
  "mapped env gvr \<longleftrightarrow> (\<exists>gvk namespaced. reMapper env gvk = Inr (gvr, namespaced))"

definition keys_apart :: "('ls, 'sel, 'e) ruleEnv \<Rightarrow> bool" where
  "keys_apart env \<longleftrightarrow>
     (\<forall>gvr gvr' ns ns'. mapped env gvr \<and> mapped env gvr' \<and> seenKey env gvr ns = seenKey env gvr' ns' \<longrightarrow> gvr = gvr' \<and> ns = ns')"

definition seen_ok :: "('ls, 'sel, 'e) ruleEnv \<Rightarrow> (string, string) gomap \<Rightarrow> bool" where
  "seen_ok env seen \<longleftrightarrow>
     (\<forall>key denial. mget seen key = Some denial \<longrightarrow>
        (\<exists>gvr ns. mapped env gvr \<and> key = seenKey env gvr ns \<and> reviewTarget env gvr ns = Inr denial))"

lemma seen_answer:
  "keys_apart env \<Longrightarrow> seen_ok env seen \<Longrightarrow> mapped env gvr \<Longrightarrow> mget seen (seenKey env gvr ns) = Some denial \<Longrightarrow>
   reviewTarget env gvr ns = Inr denial"
  unfolding keys_apart_def seen_ok_def by metis

lemma seen_ok_put:
  "seen_ok env seen \<Longrightarrow> mapped env gvr \<Longrightarrow> reviewTarget env gvr ns = Inr denial \<Longrightarrow> seen_ok env (mput (seenKey env gvr ns) denial seen)"
  unfolding seen_ok_def by (auto split: if_splits)

definition target_of :: "string \<Rightarrow> string \<Rightarrow> resolvedResource \<Rightarrow> string \<Rightarrow> WatchTarget" where
  "target_of sinkName redaction rv namespace =
     \<lparr>wtSink = sinkName, wtGVK = rvGVK rv, wtNamespace = namespace, wtSelector = rvSelector rv, wtRedaction = redaction\<rparr>"

lemma settleTarget_seen [simp]: "raSeen (settleTarget sinkName redaction rv ns denial acc) = raSeen acc"
  by (simp add: settleTarget_def)

text \<open>What reviewing a set of resources in namespaces may end in: the failure of one of the reviews, or
  all of them answered, the targets grown by the granted ones and the denials by the others.\<close>

definition granted_targets :: "('ls, 'sel, 'e) ruleEnv \<Rightarrow> string \<Rightarrow> string \<Rightarrow> (resolvedResource \<times> string) set \<Rightarrow> WatchTarget set" where
  "granted_targets env sinkName redaction P = {target_of sinkName redaction rv ns |rv ns. (rv, ns) \<in> P \<and> granted env (rvGVR rv) ns}"

definition reviewed ::
    "('ls, 'sel, 'e) ruleEnv \<Rightarrow> string \<Rightarrow> string \<Rightarrow> (resolvedResource \<times> string) set \<Rightarrow> reviewAcc \<Rightarrow> string + reviewAcc \<Rightarrow> bool" where
  "reviewed env sinkName redaction P acc result \<longleftrightarrow>
     (case result of
        Inl e \<Rightarrow> (\<exists>(rv, ns) \<in> P. reviewTarget env (rvGVR rv) ns = Inl e)
      | Inr acc' \<Rightarrow>
          seen_ok env (raSeen acc') \<and> (\<forall>(rv, ns) \<in> P. \<exists>denial. reviewTarget env (rvGVR rv) ns = Inr denial) \<and>
          set (raTargets acc') = set (raTargets acc) \<union> granted_targets env sinkName redaction P \<and>
          (raDenials acc' = [] \<longleftrightarrow> raDenials acc = [] \<and> (\<forall>(rv, ns) \<in> P. granted env (rvGVR rv) ns)))"

lemma granted_targets_Un:
  "granted_targets env sinkName redaction (P \<union> Q) = granted_targets env sinkName redaction P \<union> granted_targets env sinkName redaction Q"
  by (auto simp: granted_targets_def)

lemma reviewed_trans:
  "reviewed env sinkName redaction P acc (Inr acc1) \<Longrightarrow> reviewed env sinkName redaction Q acc1 result \<Longrightarrow>
   reviewed env sinkName redaction (P \<union> Q) acc result"
  by (cases result) (auto simp: reviewed_def granted_targets_Un)

lemma reviewed_fail: "reviewed env sinkName redaction P acc (Inl e) \<Longrightarrow> reviewed env sinkName redaction (P \<union> Q) acc (Inl e)"
  by (auto simp: reviewed_def)

lemma reviewed_none: "seen_ok env (raSeen acc) \<Longrightarrow> reviewed env sinkName redaction {} acc (Inr acc)"
  by (simp add: reviewed_def granted_targets_def)

lemma settle_reviewed:
  assumes "reviewTarget env (rvGVR rv) ns = Inr denial" "seen_ok env (raSeen acc1)"
    "raTargets acc1 = raTargets acc" "raDenials acc1 = raDenials acc"
  shows "reviewed env sinkName redaction {(rv, ns)} acc (Inr (settleTarget sinkName redaction rv ns denial acc1))"
proof (cases "denial = ''''")
  case True
  then have "granted env (rvGVR rv) ns" using assms(1) reviewTarget_granted by metis
  then show ?thesis using True assms by (auto simp: reviewed_def settleTarget_def granted_targets_def target_of_def)
next
  case False
  then have "\<not> granted env (rvGVR rv) ns" using assms(1) reviewTarget_granted [of env "rvGVR rv" ns] by auto
  then show ?thesis using False assms by (auto simp: reviewed_def settleTarget_def granted_targets_def)
qed

text \<open>A verdict comes from the memory of the pass or from the API server: the memory stays sound and the
  answer is the same.\<close>

lemma reviewNamespaces_reviewed:
  assumes "keys_apart env" "mapped env (rvGVR rv)" "seen_ok env (raSeen acc)"
  shows "reviewed env sinkName redaction ({rv} \<times> set nss) acc (reviewNamespaces env sinkName redaction rv nss acc)"
  using assms(3)
proof (induction nss arbitrary: acc)
  case Nil
  then show ?case by (simp add: reviewed_none)
next
  case (Cons ns nss)
  let ?key = "seenKey env (rvGVR rv) ns"
  have split: "{rv} \<times> set (ns # nss) = {(rv, ns)} \<union> {rv} \<times> set nss" by auto
  have onward: "reviewed env sinkName redaction ({(rv, ns)} \<union> {rv} \<times> set nss) acc
      (reviewNamespaces env sinkName redaction rv nss (settleTarget sinkName redaction rv ns denial acc1))"
    if "reviewTarget env (rvGVR rv) ns = Inr denial" "seen_ok env (raSeen acc1)"
      "raTargets acc1 = raTargets acc" "raDenials acc1 = raDenials acc" for denial acc1
    by (rule reviewed_trans [OF settle_reviewed [OF that] Cons.IH]) (simp add: that(2))
  show ?case
  proof (cases "mget (raSeen acc) ?key")
    case (Some denial)
    then have "reviewTarget env (rvGVR rv) ns = Inr denial" using seen_answer [OF assms(1) Cons.prems assms(2)] by simp
    from onward [OF this Cons.prems] Some show ?thesis unfolding split by (simp add: Let_def)
  next
    case None
    show ?thesis
    proof (cases "reviewTarget env (rvGVR rv) ns")
      case (Inl e)
      then show ?thesis using None unfolding split by (simp add: Let_def reviewed_def)
    next
      case (Inr denial)
      have "seen_ok env (raSeen (acc\<lparr>raSeen := mput ?key denial (raSeen acc)\<rparr>))" using seen_ok_put [OF Cons.prems assms(2) Inr] by simp
      from onward [OF Inr this] show ?thesis using None Inr unfolding split by (simp add: Let_def)
    qed
  qed
qed

definition pairs :: "resolvedResource list \<Rightarrow> (resolvedResource \<times> string) set" where
  "pairs resolved = {(rv, ns). rv \<in> set resolved \<and> ns \<in> set (rvNamespaces rv)}"

lemma reviewResources_reviewed:
  assumes "keys_apart env" "\<forall>rv \<in> set resolved. mapped env (rvGVR rv)" "seen_ok env (raSeen acc)"
  shows "reviewed env sinkName redaction (pairs resolved) acc (reviewResources env sinkName redaction resolved acc)"
  using assms(2,3)
proof (induction resolved arbitrary: acc)
  case Nil
  then show ?case by (simp add: reviewed_none pairs_def)
next
  case (Cons rv resolved)
  have split: "pairs (rv # resolved) = {rv} \<times> set (rvNamespaces rv) \<union> pairs resolved" by (auto simp: pairs_def)
  have first: "reviewed env sinkName redaction ({rv} \<times> set (rvNamespaces rv)) acc (reviewNamespaces env sinkName redaction rv (rvNamespaces rv) acc)"
    using reviewNamespaces_reviewed [OF assms(1)] Cons.prems by simp
  show ?case
  proof (cases "reviewNamespaces env sinkName redaction rv (rvNamespaces rv) acc")
    case (Inl e)
    then show ?thesis using first reviewed_fail unfolding split by simp
  next
    case (Inr acc1)
    then have "seen_ok env (raSeen acc1)" using first by (simp add: reviewed_def)
    with Cons have "reviewed env sinkName redaction (pairs resolved) acc1 (reviewResources env sinkName redaction resolved acc1)" by simp
    with Inr first show ?thesis unfolding split by (auto intro: reviewed_trans)
  qed
qed

lemma reviewTargets_spec:
  assumes "keys_apart env" "\<forall>rv \<in> set resolved. mapped env (rvGVR rv)"
  shows "case reviewTargets env sinkName resolved redaction of
      Inl e \<Rightarrow> \<exists>(rv, ns) \<in> pairs resolved. reviewTarget env (rvGVR rv) ns = Inl e
    | Inr (targets, denials) \<Rightarrow>
        (\<forall>(rv, ns) \<in> pairs resolved. \<exists>denial. reviewTarget env (rvGVR rv) ns = Inr denial) \<and>
        set targets = granted_targets env sinkName redaction (pairs resolved) \<and>
        (denials = [] \<longleftrightarrow> (\<forall>(rv, ns) \<in> pairs resolved. granted env (rvGVR rv) ns))"
  using reviewResources_reviewed [OF assms, of "\<lparr>raTargets = [], raDenials = [], raSeen = []\<rparr>" sinkName redaction]
  by (auto simp: reviewTargets_def reviewed_def seen_ok_def split: sum.splits)

section \<open>How a pass ends\<close>

definition redaction_for :: "ClickHouseSink \<Rightarrow> 'ls Rule \<Rightarrow> string" where
  "redaction_for chSink obj = canonicalRedaction (spRedaction (chPolicy (chSpec chSink))) (srExtraRedaction (ruSpec obj))"

definition nothing :: "sinkVerdict \<Rightarrow> string option \<Rightarrow> planOutcome" where
  "nothing verdict err = \<lparr>poTargets = [], poVerdict = verdict, poInstall = (err = None), poErr = err\<rparr>"

lemma nothing_sel [simp]:
  "poTargets (nothing v e) = []" "poVerdict (nothing v e) = v" "poInstall (nothing v e) = (e = None)" "poErr (nothing v e) = e"
  by (simp_all add: nothing_def)

lemma planRule_cases:
  obtains (unread) e where "resolveSink env (srSinkRef (ruSpec obj)) = Inl e"
      "planRule env kind obj status r = (nothing noVerdict (Some e), status, r)"
    | (missing) verdict where "resolveSink env (srSinkRef (ruSpec obj)) = Inr (None, verdict)"
      "planRule env kind obj status r = (nothing verdict None, setUnevaluated (reCond env) (svMessage verdict) status, r)"
    | (denied) chSink verdict denial status' where "resolveSink env (srSinkRef (ruSpec obj)) = Inr (Some chSink, verdict)"
      "checkPolicy (srResources (ruSpec obj)) (chPolicy (chSpec chSink)) = Some denial"
      "cond_api_ok (reCond env) \<Longrightarrow> \<not> settled_true (reCond env) status' ConditionPolicyAllowed"
      "planRule env kind obj status r = (nothing verdict None, status', r)"
    | (badSelector) chSink verdict e status' where "resolveSink env (srSinkRef (ruSpec obj)) = Inr (Some chSink, verdict)"
      "checkPolicy (srResources (ruSpec obj)) (chPolicy (chSpec chSink)) = None"
      "targetNamespaces env kind obj = Inl (errInvalidNamespaceSelector e)"
      "cond_api_ok (reCond env) \<Longrightarrow> \<not> settled_true (reCond env) status' ConditionResourceResolved"
      "planRule env kind obj status r = (nothing verdict None, status', r)"
    | (unlisted) chSink verdict e status' where "resolveSink env (srSinkRef (ruSpec obj)) = Inr (Some chSink, verdict)"
      "targetNamespaces env kind obj = Inl (NamespaceListFailed e)"
      "planRule env kind obj status r = (nothing verdict (Some e), status', r)"
    | (unreviewed) chSink verdict namespaces resolved failures r' e status' where
      "resolveSink env (srSinkRef (ruSpec obj)) = Inr (Some chSink, verdict)"
      "targetNamespaces env kind obj = Inr namespaces"
      "resolveResources env (rkScope kind) namespaces 0 (srResources (ruSpec obj)) r = (resolved, failures, r')"
      "reviewTargets env (chName chSink) resolved (redaction_for chSink obj) = Inl e"
      "planRule env kind obj status r = (nothing verdict (Some e), status', r')"
    | (planned) chSink verdict namespaces resolved failures r' targets denials status' where
      "resolveSink env (srSinkRef (ruSpec obj)) = Inr (Some chSink, verdict)"
      "checkPolicy (srResources (ruSpec obj)) (chPolicy (chSpec chSink)) = None"
      "targetNamespaces env kind obj = Inr namespaces"
      "resolveResources env (rkScope kind) namespaces 0 (srResources (ruSpec obj)) r = (resolved, failures, r')"
      "reviewTargets env (chName chSink) resolved (redaction_for chSink obj) = Inr (targets, denials)"
      "cond_api_ok (reCond env) \<Longrightarrow> settled_true (reCond env) status' ConditionResourceResolved \<longleftrightarrow> failures = []"
      "cond_api_ok (reCond env) \<Longrightarrow> settled_true (reCond env) status' ConditionRBACGranted \<longleftrightarrow> denials = []"
      "planRule env kind obj status r = (\<lparr>poTargets = targets, poVerdict = verdict, poInstall = True, poErr = None\<rparr>, status', r')"
proof (cases "resolveSink env (srSinkRef (ruSpec obj))")
  case (Inl e)
  then show ?thesis by (intro unread) (simp_all add: planRule_def nothing_def Let_def)
next
  case sink: (Inr sv)
  obtain found verdict where sv: "sv = (found, verdict)" by fastforce
  show ?thesis
  proof (cases found)
    case None
    then show ?thesis using sink sv by (intro missing [of verdict]) (simp_all add: planRule_def nothing_def Let_def)
  next
    case (Some chSink)
    note rs = sink [unfolded sv Some]
    show ?thesis
    proof (cases "checkPolicy (srResources (ruSpec obj)) (chPolicy (chSpec chSink))")
      case (Some denial)
      show ?thesis
        by (rule denied [OF rs Some]) (simp_all add: planRule_def rs Some nothing_def Let_def settled_true_def)
    next
      case pol: None
      show ?thesis
      proof (cases "targetNamespaces env kind obj")
        case ns: (Inl err)
        show ?thesis
        proof (cases err)
          case (errInvalidNamespaceSelector e)
          show ?thesis
            by (rule badSelector [OF rs pol ns [unfolded errInvalidNamespaceSelector]])
               (simp_all add: planRule_def rs pol ns errInvalidNamespaceSelector nothing_def Let_def settled_true_def)
        next
          case (NamespaceListFailed e)
          show ?thesis
            by (rule unlisted [OF rs ns [unfolded NamespaceListFailed]])
               (simp_all add: planRule_def rs pol ns NamespaceListFailed nothing_def Let_def)
        qed
      next
        case ns: (Inr namespaces)
        obtain resolved failures r' where
          res: "resolveResources env (rkScope kind) namespaces 0 (srResources (ruSpec obj)) r = (resolved, failures, r')"
          by (metis prod_cases3)
        show ?thesis
        proof (cases "reviewTargets env (chName chSink) resolved (redaction_for chSink obj)")
          case (Inl e)
          show ?thesis
            by (rule unreviewed [OF rs ns res Inl])
               (use Inl in \<open>simp_all add: planRule_def rs pol ns res nothing_def Let_def redaction_for_def\<close>)
        next
          case (Inr td)
          obtain targets denials where td: "td = (targets, denials)" by fastforce
          show ?thesis
            by (rule planned [OF rs pol ns res Inr [unfolded td]])
               (use Inr td in \<open>simp_all add: planRule_def rs pol ns res Let_def redaction_for_def settled_true_def\<close>)
        qed
      qed
    qed
  qed
qed

definition plan_of :: "('ls, 'sel, 'e) ruleEnv \<Rightarrow> 'ls ruleKind \<Rightarrow> 'ls Rule \<Rightarrow> 'e ruleState \<Rightarrow> planOutcome \<times> statusWriter \<times> 'e Resolver" where
  "plan_of env kind obj s = planRule env kind obj \<lparr>swConditions = [], swGeneration = ruGeneration obj\<rparr> (rcResolver s)"

lemma install_registry:
  "snd (install env ruleKey outcome status registry) =
     (if poInstall outcome then snd (Upsert (reParse env) (reSelString env) ruleKey (poTargets outcome) registry) else registry)"
  by (simp add: install_def split: prod.split option.split)

text \<open>The registry after a pass, and with it everything the data plane sees of the pass.\<close>

lemma RuleReconcile_registry:
  assumes "RuleReconcile env kind namespace name s = (res, s')"
  shows "rcRegistry s' =
    (case reGetRule env namespace name of
       Inl NotFound \<Rightarrow> Remove (RuleKey (rkKind kind) namespace name) (rcRegistry s)
     | Inl (GetFailed e) \<Rightarrow> rcRegistry s
     | Inr obj \<Rightarrow>
         if ruDeleting obj then Remove (RuleKey (rkKind kind) namespace name) (rcRegistry s)
         else let outcome = fst (plan_of env kind obj s)
              in if poInstall outcome
                 then snd (Upsert (reParse env) (reSelString env) (RuleKey (rkKind kind) namespace name) (poTargets outcome) (rcRegistry s))
                 else rcRegistry s)"
proof (cases "reGetRule env namespace name")
  case (Inl err)
  then show ?thesis using assms by (cases err) (auto simp: RuleReconcile_def withdraw_def Let_def)
next
  case (Inr obj)
  show ?thesis
  proof (cases "ruDeleting obj")
    case True
    then show ?thesis using assms Inr by (auto simp: RuleReconcile_def withdraw_def Let_def)
  next
    case False
    obtain outcome status resolver where p: "plan_of env kind obj s = (outcome, status, resolver)" by (metis prod_cases3)
    obtain status' registry where i: "install env (RuleKey (rkKind kind) namespace name) outcome status (rcRegistry s) = (status', registry)"
      by fastforce
    have "rcRegistry s' = registry"
      using assms Inr False p i unfolding plan_of_def by (auto simp: RuleReconcile_def Let_def split: sum.splits)
    then show ?thesis using Inr False p i install_registry [of env "RuleKey (rkKind kind) namespace name" outcome status "rcRegistry s"]
      by (simp add: Let_def)
  qed
qed

lemma Upsert_contributions:
  assumes "registry_inv r"
  shows "registry_inv (snd (Upsert parse selString rule ts r)) \<and>
    (contributions (snd (Upsert parse selString rule ts r)) = contributions r \<or>
     contributions (snd (Upsert parse selString rule ts r)) = replace_rule rule (canonical_set parse selString ts) (contributions r))"
proof (cases "Upsert parse selString rule ts r")
  case (Pair err r')
  then show ?thesis using Upsert_ok_effect [OF assms] Upsert_error_effect assms by (cases err) fastforce+
qed

section \<open>What may be planned\<close>

lemma settleTarget_subset: "set (raTargets (settleTarget sinkName redaction rv ns denial acc)) \<subseteq> insert (target_of sinkName redaction rv ns) (set (raTargets acc))"
  by (auto simp: settleTarget_def target_of_def)

lemma reviewNamespaces_subset:
  "reviewNamespaces env sinkName redaction rv nss acc = Inr acc' \<Longrightarrow>
   set (raTargets acc') \<subseteq> set (raTargets acc) \<union> target_of sinkName redaction rv ` set nss"
proof (induction nss arbitrary: acc)
  case (Cons ns nss)
  obtain denial acc1 where step: "reviewNamespaces env sinkName redaction rv nss (settleTarget sinkName redaction rv ns denial acc1) = Inr acc'"
    "raTargets acc1 = raTargets acc"
    using Cons.prems by (auto simp: Let_def split: option.splits sum.splits)
  show ?case using Cons.IH [OF step(1)] settleTarget_subset [of sinkName redaction rv ns denial acc1] step(2) by auto
qed simp

lemma reviewResources_subset:
  "reviewResources env sinkName redaction resolved acc = Inr acc' \<Longrightarrow>
   set (raTargets acc') \<subseteq> set (raTargets acc) \<union> {target_of sinkName redaction rv ns |rv ns. (rv, ns) \<in> pairs resolved}"
proof (induction resolved arbitrary: acc)
  case (Cons rv resolved)
  obtain acc1 where a: "reviewNamespaces env sinkName redaction rv (rvNamespaces rv) acc = Inr acc1"
    "reviewResources env sinkName redaction resolved acc1 = Inr acc'"
    using Cons.prems by (auto split: sum.splits)
  show ?case using Cons.IH [OF a(2)] reviewNamespaces_subset [OF a(1)] by (fastforce simp: pairs_def)
qed simp

lemma planned_target:
  assumes "t \<in> set (poTargets (fst (planRule env kind obj status r)))"
  obtains chSink verdict namespaces res rv ns where "resolveSink env (srSinkRef (ruSpec obj)) = Inr (Some chSink, verdict)"
    "checkPolicy (srResources (ruSpec obj)) (chPolicy (chSpec chSink)) = None" "targetNamespaces env kind obj = Inr namespaces"
    "res \<in> set (srResources (ruSpec obj))" "resolves env (rkScope kind) namespaces res rv" "ns \<in> set (rvNamespaces rv)"
    "t = target_of (chName chSink) (redaction_for chSink obj) rv ns"
proof (cases rule: planRule_cases [where env = env and obj = obj and kind = kind and status = status and r = r])
  case (planned chSink verdict namespaces resolved failures r' targets denials status')
  have "t \<in> set targets" using assms planned(8) by simp
  then obtain rv ns where rv: "(rv, ns) \<in> pairs resolved" "t = target_of (chName chSink) (redaction_for chSink obj) rv ns"
    using planned(5) reviewResources_subset [of env "chName chSink" "redaction_for chSink obj" resolved]
    by (fastforce simp: reviewTargets_def split: sum.splits)
  then obtain res where "res \<in> set (srResources (ruSpec obj))" "resolves env (rkScope kind) namespaces res rv" "ns \<in> set (rvNamespaces rv)"
    using resolveResources_spec [OF planned(4)] by (auto simp: pairs_def)
  then show ?thesis using that planned(1-3) rv(2) by blast
qed (use assms in simp_all)

lemma resolveSink_Some:
  "resolveSink env name = Inr (Some chSink, verdict) \<Longrightarrow> reGetSink env name = Inr chSink"
  by (auto simp: resolveSink_def split: sum.splits apiError.splits option.splits if_splits)

lemma resolveSink_ready:
  "resolveSink env name = Inr (Some chSink, verdict) \<Longrightarrow> svReason verdict = '''' \<longleftrightarrow>
     (\<exists>ready. caFind (reCond env) (chConditions (chStatus chSink)) ConditionReady = Some ready \<and> coStatus ready = ConditionTrue)"
  by (auto simp: resolveSink_def noVerdict_def ReasonSinkNotReady_def split: sum.splits apiError.splits option.splits if_splits)

lemma resolveSink_None:
  "resolveSink env name = Inr (None, verdict) \<Longrightarrow> reGetSink env name = Inl NotFound \<and> svReason verdict \<noteq> ''''"
  by (auto simp: resolveSink_def ReasonSinkMissing_def split: sum.splits apiError.splits option.splits if_splits)

section \<open>Runs\<close>

text \<open>Passes over any rules in any order, with whatever the API server answers, and the reads of the change
  signal in between.  The server returns the object it was asked for, and namespaces have no slash.\<close>

definition serves :: "('ls, 'sel, 'e) ruleEnv \<Rightarrow> bool" where
  "serves env \<longleftrightarrow> (\<forall>namespace name obj. reGetRule env namespace name = Inr obj \<longrightarrow> ruNamespace obj = namespace)"

inductive rule_reach :: "(('ls, 'sel, 'e) ruleEnv \<Rightarrow> bool) \<Rightarrow> 'e ruleState \<Rightarrow> bool"
  for envOk where
  rule_new: "rcRegistry s = Registry_New \<Longrightarrow> rule_reach envOk s"
| rule_pass: "rule_reach envOk s \<Longrightarrow> envOk env \<Longrightarrow> kind \<in> {streamRuleKind, clusterStreamRuleKind} \<Longrightarrow>
    CHR ''/'' \<notin> set namespace \<Longrightarrow> RuleReconcile env kind namespace name s = (res, s') \<Longrightarrow> rule_reach envOk s'"
| rule_read: "rule_reach envOk s \<Longrightarrow> rule_reach envOk (s\<lparr>rcRegistry := readChanges (rcRegistry s)\<rparr>)"

definition confined :: "string \<Rightarrow> WatchTarget \<Rightarrow> bool" where
  "confined rule t \<longleftrightarrow>
     \<not> (gGroup (wtGVK t) = deniedGroup \<and> gKind (wtGVK t) = deniedKind) \<and>
     (\<forall>namespace name. rule = RuleKey kindStreamRule namespace name \<and> CHR ''/'' \<notin> set namespace \<longrightarrow> wtNamespace t = namespace)"

lemma RuleKey_namespace:
  assumes "RuleKey kind namespace name = RuleKey kind' namespace' name'" "CHR ''/'' \<notin> set kind" "CHR ''/'' \<notin> set kind'"
    "CHR ''/'' \<notin> set namespace" "CHR ''/'' \<notin> set namespace'"
  shows "kind = kind' \<and> namespace = namespace'"
  using assms by (simp add: RuleKey_def delim_eq_iff)

lemma planned_confined:
  assumes "t \<in> set (poTargets (fst (planRule env kind obj status r)))" "kind \<in> {streamRuleKind, clusterStreamRuleKind}"
    "CHR ''/'' \<notin> set (ruNamespace obj)"
  shows "confined (RuleKey (rkKind kind) (ruNamespace obj) name) t"
proof -
  obtain chSink namespaces res rv ns where t: "checkPolicy (srResources (ruSpec obj)) (chPolicy (chSpec chSink)) = None"
    "targetNamespaces env kind obj = Inr namespaces" "res \<in> set (srResources (ruSpec obj))"
    "resolves env (rkScope kind) namespaces res rv" "ns \<in> set (rvNamespaces rv)"
    "t = target_of (chName chSink) (redaction_for chSink obj) rv ns"
    using planned_target [OF assms(1)] by metis
  have "\<not> (gGroup (wtGVK t) = deniedGroup \<and> gKind (wtGVK t) = deniedKind)"
    using t(1,3,4,6) by (auto simp: checkPolicy_None resolves_def resource_gvk_def target_of_def)
  moreover have "wtNamespace t = namespace" if "RuleKey (rkKind kind) (ruNamespace obj) name = RuleKey kindStreamRule namespace name'"
    "CHR ''/'' \<notin> set namespace" for namespace name'
  proof -
    have "CHR ''/'' \<notin> set (rkKind kind)" "CHR ''/'' \<notin> set kindStreamRule"
      using assms(2) by (auto simp: streamRuleKind_def clusterStreamRuleKind_def kindStreamRule_def kindClusterStreamRule_def)
    then have "rkKind kind = kindStreamRule" "ruNamespace obj = namespace" using RuleKey_namespace [OF that(1)] assms(3) that(2) by auto
    moreover from this(1) have "rkScope kind = NamespacedRule"
      using assms(2) by (auto simp: streamRuleKind_def clusterStreamRuleKind_def kindStreamRule_def kindClusterStreamRule_def)
    ultimately show ?thesis
      using t(2,4-6) by (auto simp: targetNamespaces_def resolves_def namespacesFor_def target_of_def)
  qed
  ultimately show ?thesis unfolding confined_def by blast
qed

lemma confined_selector: "confined rule (t\<lparr>wtSelector := sel\<rparr>) = confined rule t"
  by (simp add: confined_def)

lemma replace_confined:
  assumes "\<forall>(rule, t) \<in> C. confined rule t" "\<forall>t \<in> D. confined key t"
  shows "\<forall>(rule, t) \<in> replace_rule key D C. confined rule t"
  using assms by (auto simp: replace_rule_mem split: if_splits)

lemma readChanges_frame: "registry_inv r \<Longrightarrow> registry_inv (readChanges r)" "contributions (readChanges r) = contributions r"
proof -
  show same: "contributions (readChanges r) = contributions r" by (rule contributions_frame) (simp add: readChanges_def)
  show "registry_inv (readChanges r)" if "registry_inv r"
    using that unfolding registry_inv_def same by (simp add: readChanges_def)
qed

lemma pass_registry:
  assumes "registry_inv (rcRegistry s)" "RuleReconcile env kind namespace name s = (res, s')"
  shows "registry_inv (rcRegistry s') \<and>
    (contributions (rcRegistry s') = contributions (rcRegistry s) \<or>
     contributions (rcRegistry s') = replace_rule (RuleKey (rkKind kind) namespace name) {} (contributions (rcRegistry s)) \<or>
     (\<exists>obj. reGetRule env namespace name = Inr obj \<and> \<not> ruDeleting obj \<and> poInstall (fst (plan_of env kind obj s)) \<and>
        contributions (rcRegistry s') = replace_rule (RuleKey (rkKind kind) namespace name)
          (canonical_set (reParse env) (reSelString env) (poTargets (fst (plan_of env kind obj s)))) (contributions (rcRegistry s))))"
proof (cases "reGetRule env namespace name")
  case (Inl err)
  then show ?thesis
    using RuleReconcile_registry [OF assms(2)] assms(1) Remove_effect [OF assms(1), of "RuleKey (rkKind kind) namespace name"]
    by (cases err) simp_all
next
  case (Inr obj)
  note up = Upsert_contributions [OF assms(1), of "reParse env" "reSelString env" "RuleKey (rkKind kind) namespace name"
      "poTargets (fst (plan_of env kind obj s))"]
  show ?thesis
    using RuleReconcile_registry [OF assms(2)] assms(1) Remove_effect [OF assms(1), of "RuleKey (rkKind kind) namespace name"] up
    unfolding Inr by (cases "ruDeleting obj"; cases "poInstall (fst (plan_of env kind obj s))") (simp_all add: Let_def, blast)
qed

lemma rule_reach_confined:
  assumes "rule_reach serves s"
  shows "registry_inv (rcRegistry s) \<and> (\<forall>(rule, t) \<in> contributions (rcRegistry s). confined rule t)"
  using assms
proof (induction rule: rule_reach.induct)
  case (rule_new s)
  then show ?case using registry_inv_New by (simp add: contributions_def Registry_New_def)
next
  case (rule_pass s env kind namespace name res s')
  have planned: "\<forall>t \<in> canonical_set (reParse env) (reSelString env) (poTargets (fst (plan_of env kind obj s))).
      confined (RuleKey (rkKind kind) namespace name) t" if "reGetRule env namespace name = Inr obj" for obj
  proof -
    have "ruNamespace obj = namespace" using rule_pass.hyps(2) that by (simp add: serves_def)
    then show ?thesis
      using planned_confined [of _ env kind obj _ _ name] rule_pass.hyps(3,4)
      by (auto simp: canonical_set_def plan_of_def confined_selector)
  qed
  from pass_registry [OF _ rule_pass.hyps(5)] rule_pass.IH planned show ?case
    using replace_confined [of "contributions (rcRegistry s)" _ "RuleKey (rkKind kind) namespace name"] by fastforce
next
  case (rule_read s)
  then show ?case by (simp add: readChanges_frame)
qed

text \<open>C0. Whatever the rules ask for and whatever the API server and the sinks' policies answer, over every
  sequence of passes no rule ever contributes a target on Secrets of the core group to the watch plan, and
  a namespaced StreamRule contributes targets in its own namespace only.\<close>

theorem rules_confined:
  assumes "rule_reach serves s" "(rule, t) \<in> contributions (rcRegistry s)"
  shows "\<not> (gGroup (wtGVK t) = '''' \<and> gKind (wtGVK t) = ''Secret'') \<and>
    (\<forall>namespace name. rule = RuleKey kindStreamRule namespace name \<and> CHR ''/'' \<notin> set namespace \<longrightarrow> wtNamespace t = namespace)"
proof -
  have "confined rule t" using rule_reach_confined [OF assms(1)] assms(2) by blast
  then show ?thesis unfolding confined_def deniedGroup_def deniedKind_def .
qed

section \<open>The redaction floor\<close>

definition lineFeed :: char where "lineFeed = CHR 0x0A"

lemma distinct_remdups_adj_sorted: "sorted xs \<Longrightarrow> distinct (remdups_adj xs)"
  by (induction xs rule: remdups_adj.induct) (auto dest: antisym)

lemma remdups_adj_sort: "remdups_adj (sort xs) = sorted_set xs"
  by (rule sorted_distinct_set_unique) (simp_all add: distinct_remdups_adj_sorted sorted_remdups_adj)

lemma canonicalRedaction_sorted:
  "canonicalRedaction floor_rules extra = join [lineFeed] (sorted_set (filter (\<lambda>p. p \<noteq> '''') (map redactionPath_of (floor_rules @ extra))))"
  unfolding canonicalRedaction_def Let_def remdups_adj_sort lineFeed_def by simp

definition redaction_paths :: "RedactionRule list \<Rightarrow> string set" where
  "redaction_paths rules = redactionPath_of ` set rules - {''''}"

lemma canonicalRedaction_cong:
  "redaction_paths (f @ e) = redaction_paths (f' @ e') \<Longrightarrow> canonicalRedaction f e = canonicalRedaction f' e'"
proof -
  assume "redaction_paths (f @ e) = redaction_paths (f' @ e')"
  then have "set (filter (\<lambda>p. p \<noteq> '''') (map redactionPath_of (f @ e))) = set (filter (\<lambda>p. p \<noteq> '''') (map redactionPath_of (f' @ e')))"
    unfolding redaction_paths_def by auto
  then show ?thesis unfolding canonicalRedaction_sorted by (metis sorted_set_cong)
qed

lemma redactionPaths_canonical:
  assumes "\<forall>rule \<in> set (f @ e). lineFeed \<notin> set (redactionPath_of rule)"
  shows "set (redactionPaths [canonicalRedaction f e]) = redaction_paths (f @ e)"
proof -
  define ps where "ps = sorted_set (filter (\<lambda>p. p \<noteq> '''') (map redactionPath_of (f @ e)))"
  have ps: "set ps = redaction_paths (f @ e)" "\<forall>p \<in> set ps. lineFeed \<notin> set p"
    using assms by (auto simp: ps_def redaction_paths_def)
  have "set (redactionPaths [canonicalRedaction f e]) = set (split_on lineFeed (join [lineFeed] ps)) - {''''}"
    unfolding redactionPaths_def canonicalRedaction_sorted ps_def lineFeed_def by auto
  also have "\<dots> = set ps - {''''}"
    using ps(2) split_on_join [where c = lineFeed and xs = ps] by (cases "ps = []") (auto simp: lineFeed_def)
  finally show ?thesis using ps(1) by (auto simp: redaction_paths_def)
qed

text \<open>C0. A rule's author can raise the redaction floor of the sink but not lower it: every target a pass
  plans carries exactly the union of the paths the sink's policy and the rule ask to redact, which the data
  plane reads back path by path; and reordering or repeating entries on either side changes nothing at
  all, so it causes no churn.\<close>

theorem redaction_floor:
  assumes "t \<in> set (poTargets (fst (planRule env kind obj status r)))" "reGetSink env (srSinkRef (ruSpec obj)) = Inr chSink"
    "floor_rules = spRedaction (chPolicy (chSpec chSink))" "extra = srExtraRedaction (ruSpec obj)"
    "\<forall>rule \<in> set (floor_rules @ extra). CHR 0x0A \<notin> set (redactionPath_of rule)"
  shows "set (redactionPaths [wtRedaction t]) = redactionPath_of ` (set floor_rules \<union> set extra) - {''''} \<and>
    (\<forall>floor' extra'. redactionPath_of ` (set floor' \<union> set extra') - {''''} = redactionPath_of ` (set floor_rules \<union> set extra) - {''''} \<longrightarrow>
       canonicalRedaction floor' extra' = wtRedaction t)"
proof -
  obtain chSink' verdict rv ns where t: "resolveSink env (srSinkRef (ruSpec obj)) = Inr (Some chSink', verdict)"
    "t = target_of (chName chSink') (redaction_for chSink' obj) rv ns"
    using planned_target [OF assms(1)] by metis
  then have red: "wtRedaction t = canonicalRedaction floor_rules extra"
    using resolveSink_Some [OF t(1)] assms(2-4) by (simp add: target_of_def redaction_for_def)
  have paths: "redactionPath_of ` (set f \<union> set e) - {''''} = redaction_paths (f @ e)" for f e
    by (simp add: redaction_paths_def)
  have "set (redactionPaths [wtRedaction t]) = redaction_paths (floor_rules @ extra)"
    unfolding red by (rule redactionPaths_canonical) (use assms(5) in \<open>simp add: lineFeed_def\<close>)
  moreover have "canonicalRedaction floor' extra' = wtRedaction t"
    if "redaction_paths (floor' @ extra') = redaction_paths (floor_rules @ extra)" for floor' extra'
    unfolding red using that by (rule canonicalRedaction_cong)
  ultimately show ?thesis unfolding paths by blast
qed

section \<open>Contributions are withdrawn for cause\<close>

lemma resolved_mapped:
  assumes "resolveResources env scope namespaces n resources r = (resolved, failures, r')"
  shows "\<forall>rv \<in> set resolved. mapped env (rvGVR rv)"
  using resolveResources_spec [OF assms] by (fastforce simp: mapped_def resolves_def)

text \<open>C0. A rule loses a target only for cause.  When a pass over a rule removes a target from the watch plan
  the target was that rule's, and the rule is gone or being deleted, or its sink does not exist, or the
  sink's policy refuses the rule, or its namespace selector is invalid, or the pass ran to its end -- the
  sink was read, the namespaces listed and every access review answered -- and no kind that resolved,
  in no namespace where it is granted, asks for that target any more.  No failure to read the rule or the
  sink, to list the namespaces or to review access, and no failure to write the status, removes any.\<close>

theorem withdrawn_for_cause:
  assumes "rule_reach serves s" "keys_apart env" "RuleReconcile env kind namespace name s = (res, s')"
    "(rule, t) \<in> contributions (rcRegistry s)" "(rule, t) \<notin> contributions (rcRegistry s')"
  shows "rule = RuleKey (rkKind kind) namespace name \<and>
    (case reGetRule env namespace name of
       Inl err \<Rightarrow> err = NotFound
     | Inr obj \<Rightarrow>
         ruDeleting obj \<or>
         (case reGetSink env (srSinkRef (ruSpec obj)) of
            Inl err \<Rightarrow> err = NotFound
          | Inr chSink \<Rightarrow>
              checkPolicy (srResources (ruSpec obj)) (chPolicy (chSpec chSink)) \<noteq> None \<or>
              (case targetNamespaces env kind obj of
                 Inl err \<Rightarrow> (\<exists>e. err = errInvalidNamespaceSelector e)
               | Inr namespaces \<Rightarrow>
                   \<exists>resolved failures r'.
                     resolveResources env (rkScope kind) namespaces 0 (srResources (ruSpec obj)) (rcResolver s) = (resolved, failures, r') \<and>
                     (\<forall>rv \<in> set resolved. \<forall>ns \<in> set (rvNamespaces rv).
                        (\<exists>denial. reviewTarget env (rvGVR rv) ns = Inr denial) \<and>
                        (granted env (rvGVR rv) ns \<longrightarrow>
                           (\<forall>sel. canonicalizeSelectorString (reParse env) (reSelString env) (rvSelector rv) = Inr sel \<longrightarrow>
                              t \<noteq> \<lparr>wtSink = chName chSink, wtGVK = rvGVK rv, wtNamespace = ns, wtSelector = sel,
                                   wtRedaction = canonicalRedaction (spRedaction (chPolicy (chSpec chSink))) (srExtraRedaction (ruSpec obj))\<rparr>))))))"
proof -
  let ?key = "RuleKey (rkKind kind) namespace name"
  have inv: "registry_inv (rcRegistry s)" using rule_reach_confined [OF assms(1)] by blast
  note reg = RuleReconcile_registry [OF assms(3)]
  have key: "rule = ?key" using pass_registry [OF inv assms(3)] assms(4,5) by (auto simp: replace_rule_mem split: if_splits)
  show ?thesis
  proof (cases "reGetRule env namespace name")
    case (Inl err)
    then have "err = NotFound" using reg assms(4,5) by (cases err) auto
    then show ?thesis using key Inl by simp
  next
    case (Inr obj)
    show ?thesis
    proof (cases "ruDeleting obj")
      case True
      then show ?thesis using key Inr by simp
    next
      case False
      then have ins: "poInstall (fst (plan_of env kind obj s))" "(rule, t) \<notin> contributions (snd (Upsert (reParse env) (reSelString env) ?key
          (poTargets (fst (plan_of env kind obj s))) (rcRegistry s)))"
        using reg Inr assms(4,5) by (auto simp: Let_def split: if_splits)
      have new: "t \<notin> canonical_set (reParse env) (reSelString env) (poTargets (fst (plan_of env kind obj s)))"
        using Upsert_contributions [OF inv, of "reParse env" "reSelString env" ?key "poTargets (fst (plan_of env kind obj s))"]
          ins(2) assms(4) key by (auto simp: replace_rule_mem)
      show ?thesis
      proof (cases rule: planRule_cases [where env = env and obj = obj and kind = kind
            and status = "\<lparr>swConditions = [], swGeneration = ruGeneration obj\<rparr>" and r = "rcResolver s"])
        case (missing verdict)
        then show ?thesis using key Inr resolveSink_None by fastforce
      next
        case (denied chSink verdict denial status')
        then show ?thesis using key Inr resolveSink_Some by fastforce
      next
        case (badSelector chSink verdict e status')
        then show ?thesis using key Inr resolveSink_Some [OF badSelector(1)] by simp
      next
        case (planned chSink verdict namespaces resolved failures r' targets denials status')
        have spec: "\<forall>(rv, ns) \<in> pairs resolved. \<exists>denial. reviewTarget env (rvGVR rv) ns = Inr denial"
          "set targets = granted_targets env (chName chSink) (redaction_for chSink obj) (pairs resolved)"
          using reviewTargets_spec [OF assms(2) resolved_mapped [OF planned(4)], of "chName chSink" "redaction_for chSink obj"] planned(5)
          by simp_all
        have "t \<noteq> (target_of (chName chSink) (redaction_for chSink obj) rv ns)\<lparr>wtSelector := sel\<rparr>"
          if "(rv, ns) \<in> pairs resolved" "granted env (rvGVR rv) ns"
            "canonicalizeSelectorString (reParse env) (reSelString env) (rvSelector rv) = Inr sel" for rv ns sel
        proof -
          have "target_of (chName chSink) (redaction_for chSink obj) rv ns \<in> set targets"
            unfolding spec(2) granted_targets_def using that(1,2) by blast
          then show ?thesis using new planned(8) that(3) by (auto simp: plan_of_def canonical_set_def target_of_def)
        qed
        then show ?thesis
          using key Inr resolveSink_Some [OF planned(1)] planned(3,4) spec(1)
          by (simp add: pairs_def target_of_def redaction_for_def)
      qed (use ins(1) in \<open>simp_all add: plan_of_def\<close>)
    qed
  qed
qed

end
