(* ===== verification/SinkController.thy ===== *)
theory SinkController
imports ApiTypes ClickHouse
begin

text \<open>
  The reconciler of ClickHouseSink (internal/controller/sink_controller.go): the credential, the
  declaration to the sink runtime (the manager of theory Sinks), the health conditions from the latest
  probe, and the store between the probes and the reconciler; and the translation of a sink's spec
  into a backend configuration (cmd/main.go).  The API server, the texts of foreign errors and the
  condition helpers are the fields of \<open>sinkEnv\<close>.
\<close>

section \<open>From spec to configuration\<close>

record writerTuning =
  tuQueueSize :: int
  tuWorkers :: int
  tuBatchMaxRows :: int
  tuBatchMaxWait :: int
  tuEnqueueTimeout :: int
  tuDrainTimeout :: int

definition defaultSinkDialTimeout :: int where "defaultSinkDialTimeout = 5 * second"
definition defaultSinkReadTimeout :: int where "defaultSinkReadTimeout = 10 * second"

definition durationOrDefault :: "int option \<Rightarrow> int \<Rightarrow> int" where
  "durationOrDefault d def = (case d of None \<Rightarrow> def | Some d \<Rightarrow> d)"

definition intOrDefault :: "int option \<Rightarrow> int \<Rightarrow> int" where
  "intOrDefault n def = (case n of None \<Rightarrow> def | Some n \<Rightarrow> n)"

definition newSinkConfigBuilder :: "writerTuning \<Rightarrow> bool \<Rightarrow> string \<Rightarrow> ClickHouseSinkSpec \<Rightarrow> string \<Rightarrow> string + Config option" where
  "newSinkConfigBuilder defaults autoCreate name spec password =
     Inr (Some \<lparr>cfAddr = cnAddr (chConnection spec), cfDatabase = cnDatabase (chConnection spec),
       cfUsername = cnUsername (chConnection spec), cfPassword = password,
       cfDialTimeout = durationOrDefault (cnDialTimeout (chConnection spec)) defaultSinkDialTimeout,
       cfReadTimeout = durationOrDefault (cnReadTimeout (chConnection spec)) defaultSinkReadTimeout,
       cfAutoCreateSchema = autoCreate,
       cfBatchMaxRows = intOrDefault (wsBatchMaxRows (chWriter spec)) (tuBatchMaxRows defaults),
       cfBatchMaxWait = durationOrDefault (wsBatchMaxWait (chWriter spec)) (tuBatchMaxWait defaults),
       cfWriteQueueSize = intOrDefault (wsQueueSize (chWriter spec)) (tuQueueSize defaults),
       cfWriteWorkers = intOrDefault (wsWorkers (chWriter spec)) (tuWorkers defaults),
       cfEnqueueTimeout = durationOrDefault (wsEnqueueTimeout (chWriter spec)) (tuEnqueueTimeout defaults),
       cfShutdownDrainTimeout = durationOrDefault (wsDrainTimeout (chWriter spec)) (tuDrainTimeout defaults),
       cfCheckpointEvery = intOrDefault (wsCheckpointEvery (chWriter spec)) DefaultCheckpointEvery\<rparr>)"

section \<open>Probe results\<close>

type_synonym probeStore = "(string, ProbeResult) gomap"

definition recordProbe :: "ProbeResult \<Rightarrow> probeStore \<Rightarrow> probeStore" where
  "recordProbe result results = mput (prSink result) result results"

definition latestProbe :: "probeStore \<Rightarrow> string \<Rightarrow> ProbeResult option" where
  "latestProbe results name = mget results name"

definition forgetProbe :: "string \<Rightarrow> probeStore \<Rightarrow> probeStore" where
  "forgetProbe name results = mdel name results"

section \<open>Environment and state\<close>

record 'c sinkEnv =
  seCond :: condAPI
  seGetSink :: "string \<Rightarrow> apiError + ClickHouseSink"
  seGetSecret :: "string \<Rightarrow> string \<Rightarrow> apiError + (string, string) gomap"
  seOperatorNamespace :: string
  seBuildConfig :: "string \<Rightarrow> ClickHouseSinkSpec \<Rightarrow> string \<Rightarrow> string + 'c option"
  seManager :: "'c managerEnv"
  seEnsureText :: "sinkError \<Rightarrow> string"
  seProbeText :: "probeError \<Rightarrow> string"
  seUpdate :: "ClickHouseSinkStatus updateAttempt list"
  seHasRecorder :: bool
  seResyncPeriod :: int

text \<open>The state the reconciler works on; \<open>skResults\<close> are the probe results the runtime has posted and the
  watcher has not taken yet.\<close>

record 'c sinkCtlState =
  skManager :: "'c SinkManager"
  skProbes :: probeStore
  skResults :: "ProbeResult list"
  skEvents :: "(string \<times> kubeEvent) list"
  skWritten :: "(string \<times> ClickHouseSinkStatus) list"

section \<open>Credentials and declaration\<close>

definition DefaultCredentialsSecretKey :: string where
  "DefaultCredentialsSecretKey = ''password''"

definition secretRef :: "'c sinkEnv \<Rightarrow> ClickHouseSink \<Rightarrow> string \<times> string" where
  "secretRef env chSink =
     (let ref = cnCredentialsSecretRef (chConnection (chSpec chSink))
      in (if scrNamespace ref = '''' then seOperatorNamespace env else scrNamespace ref, scrName ref))"

definition refString :: "string \<times> string \<Rightarrow> string" where
  "refString ref = fst ref @ ''/'' @ snd ref"

record credentialError =
  ceReason :: string
  ceMessage :: string

definition resolveCredential :: "'c sinkEnv \<Rightarrow> ClickHouseSink \<Rightarrow> credentialError + string" where
  "resolveCredential env chSink =
     (let ref = secretRef env chSink
      in case seGetSecret env (fst ref) (snd ref) of
        Inl NotFound \<Rightarrow> Inl \<lparr>ceReason = ReasonSecretNotFound, ceMessage = ''Secret '' @ refString ref @ '' does not exist''\<rparr>
      | Inl (GetFailed e) \<Rightarrow>
          Inl \<lparr>ceReason = ReasonSecretNotFound, ceMessage = ''Secret '' @ refString ref @ '' could not be read: '' @ e\<rparr>
      | Inr secretData \<Rightarrow>
          (case mget secretData DefaultCredentialsSecretKey of
             Some (c # cs) \<Rightarrow> Inr (c # cs)
           | _ \<Rightarrow> Inl \<lparr>ceReason = ReasonSecretKeyMissing,
                       ceMessage = ''Secret '' @ refString ref @ '' carries no non-empty '' @ Quote DefaultCredentialsSecretKey @ '' key''\<rparr>))"

definition errNoLiveConfig :: string where
  "errNoLiveConfig = ''sink configuration is incomplete; not handing it to the sink runtime''"

definition declareSink :: "'c sinkEnv \<Rightarrow> ClickHouseSink \<Rightarrow> string \<Rightarrow> 'c SinkManager \<Rightarrow> string option \<times> 'c SinkManager" where
  "declareSink env chSink password m =
     (case seBuildConfig env (chName chSink) (chSpec chSink) password of
        Inl e \<Rightarrow> (Some (''build configuration for sink '' @ Quote (chName chSink) @ '': '' @ e), m)
      | Inr None \<Rightarrow> (Some (''build configuration for sink '' @ Quote (chName chSink) @ '': '' @ errNoLiveConfig), m)
      | Inr (Some cfg) \<Rightarrow>
          (case Ensure (seManager env) (chName chSink) (Some cfg) m of (err, m) \<Rightarrow> (map_option (seEnsureText env) err, m)))"

section \<open>Conditions\<close>

definition setHealthConditions ::
    "'c sinkEnv \<Rightarrow> probeStore \<Rightarrow> ClickHouseSink \<Rightarrow> credentialError option \<Rightarrow> statusWriter \<Rightarrow> statusWriter" where
  "setHealthConditions env probes chSink credErr status =
     (let set_schema = setStatus (seCond env) ConditionSchemaValid
      in if credErr \<noteq> None
         then set_schema ConditionUnknown ReasonCredentialsUnavailable
                ''The schema cannot be checked until the sink's credentials resolve'' status
         else case latestProbe probes (chName chSink) of
           None \<Rightarrow> set_schema ConditionUnknown ReasonProbePending ''Waiting for the first health probe to settle'' status
         | Some result \<Rightarrow>
             (case prErr result of
                None \<Rightarrow> set_schema ConditionTrue ReasonSchemaMatches
                          ''The live ClickHouse schema matches the schema this operator writes'' status
              | Some err \<Rightarrow>
                  if prReason result = ProbeReasonSchemaInvalid
                  then set_schema ConditionFalse ProbeReasonSchemaInvalid
                         (''The live ClickHouse schema does not match the schema this operator writes: '' @ seProbeText env err) status
                  else set_schema ConditionUnknown ProbeReasonUnreachable
                         (''ClickHouse did not answer, so its schema is unknown: '' @ seProbeText env err) status))"

definition sinkReadyOrder :: "string list" where
  "sinkReadyOrder = [ConditionCredentialsResolved, ConditionSchemaValid]"

definition defaultSinkResyncPeriod :: int where
  "defaultSinkResyncPeriod = 2 * 60 * second"

definition sinkResyncPeriod :: "int \<Rightarrow> int" where
  "sinkResyncPeriod configured = (if configured > 0 then configured else defaultSinkResyncPeriod)"

definition writeSinkStatus ::
    "'c sinkEnv \<Rightarrow> ClickHouseSink \<Rightarrow> credentialError option \<Rightarrow> statusWriter \<Rightarrow> 'c sinkCtlState \<Rightarrow> reconcileResult \<times> 'c sinkCtlState" where
  "writeSinkStatus env chSink credErr status s =
     (let status = setHealthConditions env (skProbes s) chSink credErr status;
          previousReady = caFind (seCond env) (chConditions (chStatus chSink)) ConditionReady;
          ready = readyFor (seCond env) ProbeReasonUnreachable status ConditionReady sinkReadyOrder ReasonConnected
                    ''ClickHouse is reachable, authenticated and carries the expected schema'';
          status = setStatus (seCond env) ConditionReady (coStatus ready) (coReason ready) (coMessage ready) status
      in case updateStatus (seUpdate env)
                (\<lambda>fresh. fresh\<lparr>chConditions := applyStatus (seCond env) status (chConditions fresh),
                               chObservedGeneration := swGeneration status\<rparr>) of
           Inl e \<Rightarrow> (ReconcileError (''update ClickHouseSink '' @ Quote (chName chSink) @ '' status: '' @ e), s)
         | Inr written \<Rightarrow>
             (RequeueAfter (sinkResyncPeriod (seResyncPeriod env)),
              s\<lparr>skWritten := skWritten s @ [(chName chSink, written)],
                skEvents := skEvents s @ map (Pair (chName chSink)) (emitReadyEvent (seHasRecorder env) previousReady ready)\<rparr>))"

section \<open>Reconciling a sink\<close>

definition SinkReconcile :: "'c sinkEnv \<Rightarrow> string \<Rightarrow> 'c sinkCtlState \<Rightarrow> reconcileResult \<times> 'c sinkCtlState" where
  "SinkReconcile env name s =
     (case seGetSink env name of
        Inl NotFound \<Rightarrow> (ReconcileDone, s\<lparr>skProbes := forgetProbe name (skProbes s), skManager := Delete name (skManager s)\<rparr>)
      | Inl (GetFailed e) \<Rightarrow> (ReconcileError (''get ClickHouseSink '' @ Quote name @ '': '' @ e), s)
      | Inr chSink \<Rightarrow>
          let status = \<lparr>swConditions = [], swGeneration = chGeneration chSink\<rparr>
          in case resolveCredential env chSink of
            Inl credErr \<Rightarrow>
              writeSinkStatus env chSink (Some credErr)
                (setStatus (seCond env) ConditionCredentialsResolved ConditionFalse (ceReason credErr) (ceMessage credErr) status) s
          | Inr password \<Rightarrow>
              let status = setStatus (seCond env) ConditionCredentialsResolved ConditionTrue ReasonSecretResolved
                             (''Read the password from Secret '' @ refString (secretRef env chSink)) status
              in case declareSink env chSink password (skManager s) of
                   (Some e, m) \<Rightarrow> (ReconcileError e, s\<lparr>skManager := m\<rparr>)
                 | (None, m) \<Rightarrow> writeSinkStatus env chSink None status (s\<lparr>skManager := m\<rparr>))"

text \<open>\<open>ProbeWatcher.Start\<close>, one turn: a posted result is recorded and its sink is woken.\<close>

definition watchProbe :: "'c sinkCtlState \<Rightarrow> string option \<times> 'c sinkCtlState" where
  "watchProbe s =
     (case skResults s of
        [] \<Rightarrow> (None, s)
      | result # rest \<Rightarrow> (Some (prSink result), s\<lparr>skResults := rest, skProbes := recordProbe result (skProbes s)\<rparr>))"

definition sinksForSecret :: "string + ClickHouseSink list \<Rightarrow> string list" where
  "sinksForSecret listed = (case listed of Inl e \<Rightarrow> [] | Inr sinks \<Rightarrow> map chName sinks)"

end
