(* ===== verification/Spec2Isabelle.thy ===== *)
theory Spec2Isabelle
imports Prelude Identity HashCache Plan Json Sha256 Redact Normalize Sink Pipeline History HistoryLoss Warm WarmRuns Resolver Recorder Watch WatchRuns Sinks WriteQueue Durations ClickHouse Conditions ApiTypes RuleController SinkController
begin

text \<open>
  A verification development of the operator that streams changes of Kubernetes objects to sinks.
\<close>

end
